(* ===== verification/Prelude.thy ===== *)
theory Prelude
  imports Main "HOL-Library.Word"
begin

text \<open>
  Shared vocabulary of the development.

  The library under verification is C++: \<open>size_t\<close>, \<open>uint8_t\<close>, \<open>uint32_t\<close> and
  \<open>uint64_t\<close> are words of their width, byte vectors are lists of bytes, and milliseconds
  (\<open>std::chrono::milliseconds\<close>, a signed count) are integers.  \<open>std::filesystem::path\<close> and
  the path of a local endpoint are character lists.  The collections declared here gather the
  rewrite rules of the components.
\<close>

named_theorems entry_simps \<open>what each operation of a send entry does to its fields\<close>
named_theorems disp_simps \<open>what each operation of the dispatcher does to its fields\<close>
named_theorems impl_simps \<open>unfolding rules of the operations of the socket implementation\<close>

type_synonym u8 = "8 word"
type_synonym u32 = "32 word"
type_synonym u64 = "64 word"
type_synonym size_t = "64 word"
type_synonym bytes = "u8 list"
type_synonym path = string
type_synonym millis = int

section \<open>Sizes of vectors\<close>

text \<open>\<open>std::vector::size\<close>: the length, as a \<open>size_t\<close>.\<close>

definition vec_size :: "'a list \<Rightarrow> size_t" where
  "vec_size xs = of_nat (length xs)"

text \<open>A vector that fits the address space.\<close>

definition fits :: "'a list \<Rightarrow> bool" where
  "fits xs \<longleftrightarrow> length xs < 2 ^ 64"

lemma unat_vec_size [simp]: "fits xs \<Longrightarrow> unat (vec_size xs) = length xs"
  by (simp add: vec_size_def fits_def unat_of_nat)

lemma vec_size_Nil [simp]: "vec_size [] = 0"
  by (simp add: vec_size_def)

lemma vec_size_le_iff:
  "fits xs \<Longrightarrow> vec_size xs \<le> n \<longleftrightarrow> length xs \<le> unat n"
  by (simp add: word_le_nat_alt)

section \<open>Time points of the steady clock\<close>

text \<open>
  \<open>asio_helper::time_point\<close>: the time points of \<open>asio::steady_timer\<close>, with the least and the
  greatest one named apart (\<open>time_point::min()\<close> and \<open>time_point::max()\<close>), since the code uses the
  greatest as ``never''.
\<close>

datatype time_point = Neg_infin | At int | Pos_infin

definition neg_infin :: time_point where
  "neg_infin = Neg_infin"

definition pos_infin :: time_point where
  "pos_infin = Pos_infin"

text \<open>A clock reading as a time point, and the time point a delay after it.\<close>

definition clock_now :: "int \<Rightarrow> time_point" where
  "clock_now t = At t"

definition clock_after :: "int \<Rightarrow> millis \<Rightarrow> time_point" where
  "clock_after t d = At (t + d)"

fun tp_le :: "time_point \<Rightarrow> time_point \<Rightarrow> bool" where
  "tp_le Neg_infin _ = True"
| "tp_le (At _) Neg_infin = False"
| "tp_le (At a) (At b) = (a \<le> b)"
| "tp_le (At _) Pos_infin = True"
| "tp_le Pos_infin q = (q = Pos_infin)"

instantiation time_point :: linorder
begin

definition less_eq_time_point :: "time_point \<Rightarrow> time_point \<Rightarrow> bool" where
  "less_eq_time_point p q = tp_le p q"

definition less_time_point :: "time_point \<Rightarrow> time_point \<Rightarrow> bool" where
  "less_time_point p q = (tp_le p q \<and> \<not> tp_le q p)"

instance
proof
  fix p q r :: time_point
  show "(p < q) = (p \<le> q \<and> \<not> q \<le> p)"
    by (simp add: less_time_point_def less_eq_time_point_def)
  show "p \<le> p"
    by (cases p) (simp_all add: less_eq_time_point_def)
  show "p \<le> q \<Longrightarrow> q \<le> r \<Longrightarrow> p \<le> r"
    by (cases p; cases q; cases r) (simp_all add: less_eq_time_point_def)
  show "p \<le> q \<Longrightarrow> q \<le> p \<Longrightarrow> p = q"
    by (cases p; cases q) (simp_all add: less_eq_time_point_def)
  show "p \<le> q \<or> q \<le> p"
    by (cases p; cases q) (auto simp: less_eq_time_point_def)
qed

end

lemma time_point_order [simp]:
  "At a \<le> At b \<longleftrightarrow> a \<le> b" "At a < At b \<longleftrightarrow> a < b"
  "At a < Pos_infin" "\<not> Pos_infin \<le> At a"
  by (auto simp: less_eq_time_point_def less_time_point_def)

lemma time_point_extremes [simp]: "p \<le> Pos_infin" "Neg_infin \<le> p" "\<not> Pos_infin < p"
  by (cases p; simp add: less_eq_time_point_def less_time_point_def)+

section \<open>Error codes\<close>

text \<open>
  \<open>asio::error_code\<close>, with the codes the library tells apart.  An error code converts to \<open>false\<close>
  exactly when it is the success code.
\<close>

datatype error_code =
    Success
  | No_buffer_space
  | Message_size
  | Operation_aborted
  | Other_error nat

definition is_error :: "error_code \<Rightarrow> bool" where
  "is_error ec \<longleftrightarrow> ec \<noteq> Success"

lemma is_error_simps [simp]:
  "\<not> is_error Success" "is_error No_buffer_space" "is_error Message_size"
  "is_error Operation_aborted" "is_error (Other_error n)"
  by (simp_all add: is_error_def)

section \<open>Lists\<close>

text \<open>
  Insertion at the position \<open>std::ranges::upper_bound\<close> returns: behind every element whose key is
  at most the new one's, in front of the first whose key is greater.
\<close>

definition insert_upper :: "('a \<Rightarrow> 'k::linorder) \<Rightarrow> 'a \<Rightarrow> 'a list \<Rightarrow> 'a list" where
  "insert_upper key x xs =
     takeWhile (\<lambda>y. \<not> key x < key y) xs @ x # dropWhile (\<lambda>y. \<not> key x < key y) xs"

lemma set_insert_upper [simp]: "set (insert_upper key x xs) = insert x (set xs)"
proof -
  have "set (takeWhile P xs) \<union> set (dropWhile P xs) = set xs" for P
    by (metis set_append takeWhile_dropWhile_id)
  then show ?thesis by (auto simp: insert_upper_def)
qed

lemma length_insert_upper [simp]: "length (insert_upper key x xs) = Suc (length xs)"
proof -
  have "length (takeWhile P xs) + length (dropWhile P xs) = length xs" for P
    by (metis length_append takeWhile_dropWhile_id)
  then show ?thesis by (simp add: insert_upper_def)
qed

lemma insert_upper_Nil [simp]: "insert_upper key x [] = [x]"
  by (simp add: insert_upper_def)

lemma insert_upper_Cons [simp]:
  "insert_upper key x (y # ys) =
     (if key x < key y then x # y # ys else y # insert_upper key x ys)"
  by (simp add: insert_upper_def)

lemma sorted_insert_upper:
  "sorted (map key xs) \<Longrightarrow> sorted (map key (insert_upper key x xs))"
  by (induction xs) (auto simp: not_less)

lemma filter_insert_upper_other [simp]:
  "\<not> P x \<Longrightarrow> filter P (insert_upper key x xs) = filter P xs"
  by (induction xs) auto

text \<open>Elements with equal keys keep their order of arrival.\<close>

lemma filter_insert_upper_same:
  "sorted (map key xs) \<Longrightarrow> P x \<Longrightarrow> (\<And>y. y \<in> set xs \<Longrightarrow> P y \<Longrightarrow> key y \<le> key x) \<Longrightarrow>
   filter P (insert_upper key x xs) = filter P xs @ [x]"
proof (induction xs)
  case Nil
  then show ?case by simp
next
  case (Cons y ys)
  show ?case
  proof (cases "key x < key y")
    case True
    then have "filter P (y # ys) = []"
      using Cons.prems by (fastforce simp: filter_empty_conv)
    with True Cons.prems(2) show ?thesis by auto
  next
    case False
    with Cons show ?thesis by auto
  qed
qed

text \<open>Inserting one after the other sorts: elements with equal keys stay in order.\<close>

lemma insert_key_upper:
  assumes "sorted (map key xs)"
  shows "insort_key key a (insert_upper key x xs) = insert_upper key x (insort_key key a xs)"
  using assms by (induction xs) auto

lemma sort_key_snoc: "sort_key key (xs @ [x]) = insert_upper key x (sort_key key xs)"
  by (induction xs) (simp_all add: insert_key_upper)

lemma fold_insert_upper: "fold (insert_upper key) xs (sort_key key ys) = sort_key key (ys @ xs)"
  by (induction xs arbitrary: ys) (simp_all flip: sort_key_snoc)

lemma sort_key_sorted: "sorted (map key xs) \<Longrightarrow> sort_key key xs = xs"
  by (induction xs) (simp_all add: insort_is_Cons)

lemma insert_upper_split:
  "sorted (map key xs) \<Longrightarrow>
   insert_upper key x xs = filter (\<lambda>y. key y \<le> key x) xs @ x # filter (\<lambda>y. key x < key y) xs"
proof (induction xs)
  case Nil
  then show ?case by simp
next
  case (Cons y ys)
  show ?case
  proof (cases "key x < key y")
    case True
    with Cons.prems have "filter (\<lambda>z. key z \<le> key x) (y # ys) = []"
      and "filter (\<lambda>z. key x < key z) (y # ys) = y # ys"
      by (fastforce simp: filter_empty_conv, fastforce simp: filter_id_conv)
    with True show ?thesis by simp
  next
    case False
    with Cons show ?thesis by (simp add: not_less)
  qed
qed

lemma sorted_filter_map: "sorted (map key xs) \<Longrightarrow> sorted (map key (filter P xs))"
  by (induction xs) auto

end
