(* ===== verification/Interfaces.thy ===== *)
theory Interfaces
  imports Prelude
begin

text \<open>
  The contracts between the components.  Each locale names the operations a client calls and the
  laws it relies on; the theory of the component that provides them interprets the locale on its
  own definitions.

  \<^item> \<open>fifo_queue\<close>: a work queue that runs what is pushed in order of arrival (the dispatcher for
    functions without a delay, the ready queue of an io context);
  \<^item> \<open>byte_order\<close>: how \<open>memcpy\<close> lays out a \<open>uint32_t\<close>;
  \<^item> \<open>transfer\<close>: an object whose bytes are handed to a socket piece by piece;
  \<^item> \<open>key_value\<close>: a keyed store.
\<close>

section \<open>Work queues\<close>

text \<open>Taking up to \<open>n\<close> elements out of a queue with a given operation.\<close>

fun drain :: "('q \<Rightarrow> ('f \<times> 'q) option) \<Rightarrow> nat \<Rightarrow> 'q \<Rightarrow> 'f list" where
  "drain pop 0 q = []"
| "drain pop (Suc n) q = (case pop q of None \<Rightarrow> [] | Some (f, q') \<Rightarrow> f # drain pop n q')"

locale fifo_queue =
  fixes push :: "'f \<Rightarrow> 'q \<Rightarrow> 'q"
    and pop :: "'q \<Rightarrow> ('f \<times> 'q) option"
    and pending :: "'q \<Rightarrow> 'f list"
    and ok :: "'q \<Rightarrow> bool"
  assumes ok_push: "ok q \<Longrightarrow> ok (push f q)"
    and pending_push: "ok q \<Longrightarrow> pending (push f q) = pending q @ [f]"
    and pop_empty: "ok q \<Longrightarrow> pending q = [] \<Longrightarrow> pop q = None"
    and pop_first: "ok q \<Longrightarrow> pending q = f # fs \<Longrightarrow>
      \<exists>q'. pop q = Some (f, q') \<and> ok q' \<and> pending q' = fs"
begin

lemma ok_push_all: "ok q \<Longrightarrow> ok (fold push fs q)"
  by (induction fs arbitrary: q) (auto simp: ok_push)

lemma pending_push_all: "ok q \<Longrightarrow> pending (fold push fs q) = pending q @ fs"
  by (induction fs arbitrary: q) (auto simp: ok_push pending_push)

lemma drain_pending: "ok q \<Longrightarrow> length (pending q) \<le> n \<Longrightarrow> drain pop n q = pending q"
proof (induction n arbitrary: q)
  case 0
  then show ?case by simp
next
  case (Suc n)
  show ?case
  proof (cases "pending q")
    case Nil
    with Suc.prems show ?thesis by (simp add: pop_empty)
  next
    case (Cons f fs)
    with Suc.prems obtain q' where "pop q = Some (f, q')" "ok q'" "pending q' = fs"
      using pop_first by blast
    with Suc Cons show ?thesis by simp
  qed
qed

lemma drain_push_all:
  "ok q \<Longrightarrow> length (pending q) + length fs \<le> n \<Longrightarrow> drain pop n (fold push fs q) = pending q @ fs"
  by (simp add: drain_pending ok_push_all pending_push_all)

end

section \<open>Byte orders\<close>

locale byte_order =
  fixes to_bytes :: "u32 \<Rightarrow> bytes"
    and of_bytes :: "bytes \<Rightarrow> u32"
  assumes length_to_bytes: "length (to_bytes w) = 4"
    and of_bytes_to_bytes: "of_bytes (to_bytes w) = w"
begin

lemma to_bytes_inject: "to_bytes v = to_bytes w \<longleftrightarrow> v = w"
  by (metis of_bytes_to_bytes)

lemma of_bytes_prefix: "of_bytes (take 4 (to_bytes w @ rest)) = w"
  by (simp add: length_to_bytes of_bytes_to_bytes)

end

section \<open>Transfers\<close>

text \<open>
  An object with bytes left to transfer: acknowledging \<open>n\<close> of them leaves the rest.
\<close>

locale transfer =
  fixes left_over :: "'e \<Rightarrow> bytes"
    and advance :: "nat \<Rightarrow> 'e \<Rightarrow> 'e"
    and complete :: "'e \<Rightarrow> bool"
    and valid :: "'e \<Rightarrow> bool"
  assumes valid_advance: "valid e \<Longrightarrow> n \<le> length (left_over e) \<Longrightarrow> valid (advance n e)"
    and left_over_advance:
      "valid e \<Longrightarrow> n \<le> length (left_over e) \<Longrightarrow> left_over (advance n e) = drop n (left_over e)"
    and complete_iff: "valid e \<Longrightarrow> complete e \<longleftrightarrow> left_over e = []"
begin

text \<open>A sequence of acknowledgements, each within what was left over at its time.\<close>

lemma advance_all:
  "valid e \<Longrightarrow> sum_list ns \<le> length (left_over e) \<Longrightarrow>
   valid (fold advance ns e) \<and> left_over (fold advance ns e) = drop (sum_list ns) (left_over e)"
proof (induction ns arbitrary: e)
  case Nil
  then show ?case by simp
next
  case (Cons n ns)
  then have "n \<le> length (left_over e)" by simp
  with Cons show ?case
    by (simp add: valid_advance left_over_advance add.commute)
qed

lemma complete_after_all:
  assumes "valid e" and "sum_list ns \<le> length (left_over e)"
  shows "complete (fold advance ns e) \<longleftrightarrow> sum_list ns = length (left_over e)"
  using advance_all [OF assms] assms(2) by (auto simp: complete_iff)

end

section \<open>Keyed stores\<close>

locale key_value =
  fixes put :: "'k \<Rightarrow> 'v \<Rightarrow> 's \<Rightarrow> 's"
    and get :: "'k \<Rightarrow> 's \<Rightarrow> 'v option"
    and remove :: "'k \<Rightarrow> 's \<Rightarrow> 's"
  assumes get_put: "get k (put k' v s) = (if k = k' then Some v else get k s)"
    and get_remove: "get k (remove k' s) = (if k = k' then None else get k s)"
begin

lemma put_overwrites: "get k (put k v (put k w s)) = Some v"
  by (simp add: get_put)

lemma remove_put: "get k (remove k (put k v s)) = None"
  by (simp add: get_remove)

lemma put_remove_frame: "k \<noteq> k' \<Longrightarrow> get k (remove k' (put k' v s)) = get k s"
  by (simp add: get_put get_remove)

end

end
