(* ===== verification/Dispatcher.thy ===== *)
theory Dispatcher
  imports Interfaces
begin

text \<open>
  The dispatcher of \<open>pqrs::dispatcher\<close> (\<open>vendor/vendor/include/pqrs/dispatcher/dispatcher.hpp\<close>),
  on which every callback of the library runs: a queue of functions sorted by the time they are
  due, each owned by an object id, and one worker thread that takes them.

  Functions are data of a type \<open>'f\<close> that the components instantiate with their closures.  The first
  sections give the operations as functions of the dispatcher's state.  The last section refines
  the worker thread to its steps between two acquisitions of a mutex and lets other threads attach,
  enqueue and detach between them.
\<close>

section \<open>State\<close>

record 'f dispatch_entry =
  object_id_value :: u64
  entry_function :: 'f
  entry_when :: millis

text \<open>
  \<open>own_object_id\<close> is the dispatcher's member \<open>object_id_\<close>, under which functions of detached objects
  run.
\<close>

record 'f dispatcher =
  queue :: "'f dispatch_entry list"
  exiting :: bool
  own_object_id :: u64
  object_ids :: "u64 set"
  running_function_object_id :: "u64 option"

definition when_internal_detached :: millis where
  "when_internal_detached = 0"

definition when_immediately :: millis where
  "when_immediately = 1"

section \<open>Object ids\<close>

text \<open>\<open>attach\<close> and the first half of \<open>detach\<close>: the result and the new state.\<close>

definition attach :: "u64 \<Rightarrow> 'f dispatcher \<Rightarrow> bool \<times> 'f dispatcher" where
  "attach oid d =
     (if exiting d then (False, d)
      else (True, d\<lparr>object_ids := insert oid (object_ids d)\<rparr>))"

definition detach :: "u64 \<Rightarrow> 'f dispatcher \<Rightarrow> bool \<times> 'f dispatcher" where
  "detach oid d =
     (if oid \<notin> object_ids d then (False, d)
      else (True, d\<lparr>object_ids := object_ids d - {oid},
                    queue := filter (\<lambda>e. object_id_value e \<noteq> oid) (queue d)\<rparr>))"

text \<open>
  The second half of \<open>detach\<close>: outside the dispatcher's thread it waits until no function of the
  object is running.
\<close>

definition detach_wait_over :: "bool \<Rightarrow> u64 \<Rightarrow> 'f dispatcher \<Rightarrow> bool" where
  "detach_wait_over in_dispatcher_thread oid d \<longleftrightarrow>
     in_dispatcher_thread \<or> running_function_object_id d \<noteq> Some oid"

definition attached :: "u64 \<Rightarrow> 'f dispatcher \<Rightarrow> bool" where
  "attached oid d \<longleftrightarrow> oid \<in> object_ids d"

definition running_detached_function :: "'f dispatcher \<Rightarrow> bool" where
  "running_detached_function d \<longleftrightarrow> running_function_object_id d = Some (own_object_id d)"

definition terminate :: "'f dispatcher \<Rightarrow> 'f dispatcher" where
  "terminate d = d\<lparr>exiting := True\<rparr>"

section \<open>Enqueuing\<close>

definition enqueue :: "u64 \<Rightarrow> 'f \<Rightarrow> millis \<Rightarrow> 'f dispatcher \<Rightarrow> bool \<times> 'f dispatcher" where
  "enqueue oid f when d =
     (if oid \<notin> object_ids d then (False, d)
      else if exiting d then (False, d)
      else let new_entry = \<lparr>object_id_value = oid, entry_function = f, entry_when = when\<rparr> in
        (True,
         if when = when_internal_detached then d\<lparr>queue := new_entry # queue d\<rparr>
         else d\<lparr>queue := insert_upper entry_when new_entry (queue d)\<rparr>))"

text \<open>
  \<open>detach\<close> with a cleanup function: it is not run when the object was not attached, run inline in
  the dispatcher's own thread, and otherwise enqueued in front of the queue under the dispatcher's
  own id, unless that fails because the dispatcher exits.
\<close>

datatype detach_outcome = Not_attached | Run_inline | Run_by_worker | Not_run

definition detach_with ::
    "bool \<Rightarrow> u64 \<Rightarrow> 'f \<Rightarrow> 'f dispatcher \<Rightarrow> detach_outcome \<times> 'f dispatcher" where
  "detach_with in_dispatcher_thread oid f d =
     (case detach oid d of
        (False, d') \<Rightarrow> (Not_attached, d')
      | (True, d') \<Rightarrow>
          if in_dispatcher_thread then (Run_inline, d')
          else (case enqueue (own_object_id d') f when_internal_detached d' of
                  (True, d'') \<Rightarrow> (Run_by_worker, d'')
                | (False, d'') \<Rightarrow> (Not_run, d'')))"

section \<open>The worker\<close>

text \<open>
  The time source is a weak pointer: its reading is \<open>None\<close> when it is gone.  \<open>calculate_duration\<close> is
  how long the worker has to wait for the head of the queue.
\<close>

definition calculate_duration :: "millis option \<Rightarrow> 'f dispatcher \<Rightarrow> millis" where
  "calculate_duration src d =
     (let now = (case src of
                   Some n \<Rightarrow> if when_immediately < n then n else when_immediately
                 | None \<Rightarrow> when_immediately);
          when = (case queue d of [] \<Rightarrow> when_immediately | e # _ \<Rightarrow> entry_when e)
      in if now < when then when - now else 0)"

text \<open>
  The condition under which the worker leaves its wait: the one of \<open>cv_.wait\<close> when it started with
  nothing to wait for, otherwise the one of \<open>cv_.wait_for\<close> (which may time out as well).
\<close>

definition wait_over :: "millis \<Rightarrow> millis option \<Rightarrow> 'f dispatcher \<Rightarrow> bool" where
  "wait_over d0 src d =
     (if d0 = 0 then exiting d \<or> queue d \<noteq> []
      else if exiting d then True
      else if queue d = [] then False
      else calculate_duration src d = 0)"

datatype 'f worker_result = Worker_exit | Worker_continue | Worker_run "'f dispatch_entry"

definition worker_take :: "millis option \<Rightarrow> 'f dispatcher \<Rightarrow> 'f worker_result \<times> 'f dispatcher" where
  "worker_take src d =
     (if exiting d then (Worker_exit, d)
      else if calculate_duration src d > 0 then (Worker_continue, d)
      else (case queue d of
              [] \<Rightarrow> (Worker_continue, d)
            | e # q \<Rightarrow> (Worker_run e, d\<lparr>queue := q\<rparr>)))"

definition set_running :: "u64 option \<Rightarrow> 'f dispatcher \<Rightarrow> 'f dispatcher" where
  "set_running r d = d\<lparr>running_function_object_id := r\<rparr>"

text \<open>
  The closure \<open>enqueue\<close> stores checks that its object is still attached before it calls the
  function.
\<close>

definition call_function :: "'f dispatch_entry \<Rightarrow> 'f dispatcher \<Rightarrow> 'f option" where
  "call_function e d =
     (if object_id_value e \<notin> object_ids d then None else Some (entry_function e))"

definition initial_dispatcher :: "u64 \<Rightarrow> 'f dispatcher" where
  "initial_dispatcher own =
     snd (attach own \<lparr>queue = [], exiting = False, own_object_id = own, object_ids = {},
                      running_function_object_id = None\<rparr>)"

lemmas disp_defs = attach_def detach_def enqueue_def detach_with_def terminate_def
  worker_take_def set_running_def

section \<open>The queue stays sorted\<close>

text \<open>Sorted by due time, and no due time before that of a function of a detached object.\<close>

definition queue_sorted :: "'f dispatcher \<Rightarrow> bool" where
  "queue_sorted d \<longleftrightarrow>
     sorted (map entry_when (queue d)) \<and> (\<forall>e \<in> set (queue d). when_internal_detached \<le> entry_when e)"

lemma queue_sorted_initial [simp]: "queue_sorted (initial_dispatcher own)"
  by (simp add: queue_sorted_def initial_dispatcher_def attach_def)

lemma queue_sorted_attach [simp]: "queue_sorted (snd (attach oid d)) = queue_sorted d"
  by (simp add: queue_sorted_def attach_def)

lemma queue_sorted_terminate [simp]: "queue_sorted (terminate d) = queue_sorted d"
  by (simp add: queue_sorted_def terminate_def)

lemma queue_sorted_set_running [simp]: "queue_sorted (set_running r d) = queue_sorted d"
  by (simp add: queue_sorted_def set_running_def)

lemma queue_sorted_detach: "queue_sorted d \<Longrightarrow> queue_sorted (snd (detach oid d))"
  by (auto simp: queue_sorted_def detach_def intro: sorted_filter_map)

lemma queue_sorted_enqueue:
  "queue_sorted d \<Longrightarrow> when_internal_detached \<le> when \<Longrightarrow> queue_sorted (snd (enqueue oid f when d))"
  by (auto simp: queue_sorted_def enqueue_def Let_def intro: sorted_insert_upper)

lemma queue_sorted_detach_with:
  "queue_sorted d \<Longrightarrow> queue_sorted (snd (detach_with in_thread oid f d))"
  using queue_sorted_detach [of d oid]
    queue_sorted_enqueue [of "snd (detach oid d)" when_internal_detached "own_object_id (snd (detach oid d))" f]
  by (auto simp: detach_with_def split: prod.splits bool.splits)

lemma queue_sorted_worker_take: "queue_sorted d \<Longrightarrow> queue_sorted (snd (worker_take src d))"
  by (auto simp: queue_sorted_def worker_take_def split: list.splits)

lemmas queue_sorted_ops = queue_sorted_detach queue_sorted_enqueue queue_sorted_detach_with
  queue_sorted_worker_take

section \<open>Order and timing\<close>

lemma enqueue_fields [simp]:
  "exiting (snd (enqueue oid f w d)) = exiting d"
  "object_ids (snd (enqueue oid f w d)) = object_ids d"
  "own_object_id (snd (enqueue oid f w d)) = own_object_id d"
  "running_function_object_id (snd (enqueue oid f w d)) = running_function_object_id d"
  by (simp_all add: enqueue_def Let_def)

lemma enqueue_accepted:
  "fst (enqueue oid f w d) \<longleftrightarrow> oid \<in> object_ids d \<and> \<not> exiting d"
  by (simp add: enqueue_def Let_def)

lemma set_queue_enqueue:
  "oid \<in> object_ids d \<Longrightarrow> \<not> exiting d \<Longrightarrow>
   set (queue (snd (enqueue oid f w d)))
     = insert \<lparr>object_id_value = oid, entry_function = f, entry_when = w\<rparr> (set (queue d))"
  by (simp add: enqueue_def Let_def)

text \<open>
  A function that is due at \<open>when\<close> goes behind every function due at that time or before and in
  front of the later ones.
\<close>

lemma enqueue_position:
  assumes "queue_sorted d" and "oid \<in> object_ids d" and "\<not> exiting d"
    and "when \<noteq> when_internal_detached"
  shows "queue (snd (enqueue oid f when d)) =
    filter (\<lambda>e. entry_when e \<le> when) (queue d)
    @ \<lparr>object_id_value = oid, entry_function = f, entry_when = when\<rparr>
    # filter (\<lambda>e. when < entry_when e) (queue d)"
  using assms by (simp add: enqueue_def Let_def queue_sorted_def insert_upper_split)

text \<open>
  A sequence of calls of \<open>enqueue\<close> (object id, function, due time): those that are accepted are
  inserted one after the other.
\<close>

definition entry_of :: "u64 \<times> 'f \<times> millis \<Rightarrow> 'f dispatch_entry" where
  "entry_of c = (case c of (oid, f, when) \<Rightarrow>
     \<lparr>object_id_value = oid, entry_function = f, entry_when = when\<rparr>)"

definition enqueue_all :: "(u64 \<times> 'f \<times> millis) list \<Rightarrow> 'f dispatcher \<Rightarrow> 'f dispatcher" where
  "enqueue_all cs = fold (\<lambda>(oid, f, when) d. snd (enqueue oid f when d)) cs"

lemma enqueue_all_simps [simp]:
  "enqueue_all [] d = d"
  "enqueue_all ((oid, f, when) # cs) d = enqueue_all cs (snd (enqueue oid f when d))"
  by (simp_all add: enqueue_all_def)

lemma enqueue_all_queue:
  assumes "when_internal_detached \<notin> (\<lambda>(_, _, when). when) ` set cs"
  shows "queue (enqueue_all cs d) =
    fold (insert_upper entry_when)
      (map entry_of (filter (\<lambda>(oid, _, _). oid \<in> object_ids d \<and> \<not> exiting d) cs)) (queue d)"
  using assms
proof (induction cs arbitrary: d)
  case Nil
  then show ?case by simp
next
  case (Cons c cs)
  obtain oid f tm where c: "c = (oid, f, tm)" by (cases c)
  have "queue (snd (enqueue oid f tm d)) =
    (if oid \<in> object_ids d \<and> \<not> exiting d then insert_upper entry_when (entry_of c) (queue d) else queue d)"
    using Cons.prems by (simp add: c enqueue_def entry_of_def Let_def)
  moreover have "when_internal_detached \<notin> (\<lambda>(_, _, when). when) ` set cs" using Cons.prems by auto
  ultimately show ?case using Cons.IH [of "snd (enqueue oid f tm d)"] by (simp add: c)
qed

text \<open>The worker hands out the head of the queue, and never before it is due.\<close>

lemma worker_take_run:
  "worker_take src d = (Worker_run e, d') \<longleftrightarrow>
     \<not> exiting d \<and> calculate_duration src d = 0 \<and> queue d = e # queue d' \<and> d' = d\<lparr>queue := queue d'\<rparr>"
  by (auto simp: worker_take_def calculate_duration_def Let_def split: list.splits if_splits)

lemma calculate_duration_nonneg [simp]: "0 \<le> calculate_duration src d"
  by (simp add: calculate_duration_def Let_def)

lemma calculate_duration_zero:
  "queue d = e # q \<Longrightarrow> calculate_duration src d = 0 \<longleftrightarrow>
     entry_when e \<le> (case src of None \<Rightarrow> when_immediately | Some n \<Rightarrow> max when_immediately n)"
  by (auto simp: calculate_duration_def Let_def max_def split: option.splits)

lemma worker_take_due:
  assumes "queue_sorted d" and "worker_take src d = (Worker_run e, d')"
  shows "e \<in> set (queue d)"
    and "entry_when e \<le> (case src of None \<Rightarrow> when_immediately | Some n \<Rightarrow> max when_immediately n)"
    and "\<And>e'. e' \<in> set (queue d') \<Longrightarrow> entry_when e \<le> entry_when e'"
proof -
  from assms(2) have q: "queue d = e # queue d'" and z: "calculate_duration src d = 0"
    by (simp_all add: worker_take_run)
  show "e \<in> set (queue d)" by (simp add: q)
  show "entry_when e \<le> (case src of None \<Rightarrow> when_immediately | Some n \<Rightarrow> max when_immediately n)"
    using z calculate_duration_zero [OF q] by simp
  show "entry_when e \<le> entry_when e'" if "e' \<in> set (queue d')" for e'
    using assms(1) that by (simp add: queue_sorted_def q)
qed

text \<open>A function that is due is taken: the worker does not stay in its wait, and does not skip it.\<close>

lemma wait_over_due:
  assumes "queue d = e # q"
    and "entry_when e \<le> (case src of None \<Rightarrow> when_immediately | Some n \<Rightarrow> max when_immediately n)"
  shows "wait_over d0 src d"
    and "\<not> exiting d \<Longrightarrow> worker_take src d = (Worker_run e, d\<lparr>queue := q\<rparr>)"
  using assms calculate_duration_zero [of d e q src]
  by (simp_all add: wait_over_def worker_take_run)

section \<open>Functions without a delay\<close>

text \<open>
  \<open>enqueue_to_dispatcher\<close> without a time uses \<open>when_immediately\<close>.  Such functions run in order of
  arrival and before every function with a later time.
\<close>

definition enqueue_now :: "u64 \<Rightarrow> 'f \<Rightarrow> 'f dispatcher \<Rightarrow> 'f dispatcher" where
  "enqueue_now oid f d = snd (enqueue oid f when_immediately d)"

definition take_now :: "millis option \<Rightarrow> 'f dispatcher \<Rightarrow> ('f \<times> 'f dispatcher) option" where
  "take_now src d =
     (case worker_take src d of
        (Worker_run e, d') \<Rightarrow>
          if entry_when e \<le> when_immediately then Some (entry_function e, d') else None
      | _ \<Rightarrow> None)"

definition pending_now :: "'f dispatcher \<Rightarrow> 'f list" where
  "pending_now d = map entry_function (filter (\<lambda>e. entry_when e \<le> when_immediately) (queue d))"

definition accepts_now :: "u64 \<Rightarrow> 'f dispatcher \<Rightarrow> bool" where
  "accepts_now oid d \<longleftrightarrow> queue_sorted d \<and> \<not> exiting d \<and> oid \<in> object_ids d"

lemma pending_now_enqueue_now:
  "accepts_now oid d \<Longrightarrow> pending_now (enqueue_now oid f d) = pending_now d @ [f]"
  by (simp add: accepts_now_def pending_now_def enqueue_now_def enqueue_position
      when_internal_detached_def when_immediately_def filter_empty_conv)

lemma take_now_first:
  assumes "accepts_now oid d" and "pending_now d = f # fs"
  shows "\<exists>d'. take_now src d = Some (f, d') \<and> accepts_now oid d' \<and> pending_now d' = fs"
proof -
  from assms(2) obtain e q where q: "queue d = e # q"
    by (cases "queue d") (auto simp: pending_now_def)
  have due: "entry_when e \<le> when_immediately"
  proof (rule ccontr)
    assume "\<not> ?thesis"
    with assms(1) q have "filter (\<lambda>e. entry_when e \<le> when_immediately) (queue d) = []"
      by (auto simp: accepts_now_def queue_sorted_def filter_empty_conv)
    with assms(2) show False by (simp add: pending_now_def)
  qed
  then have take: "worker_take src d = (Worker_run e, d\<lparr>queue := q\<rparr>)"
    using assms(1) q by (intro wait_over_due) (auto simp: accepts_now_def split: option.splits)
  have "accepts_now oid (d\<lparr>queue := q\<rparr>)"
    using assms(1) q by (simp add: accepts_now_def queue_sorted_def)
  with take due assms(2) q show ?thesis
    by (simp add: take_now_def pending_now_def)
qed

lemma take_now_empty:
  assumes "accepts_now oid d" and "pending_now d = []"
  shows "take_now src d = None"
  using assms
  by (auto simp: take_now_def worker_take_run pending_now_def filter_empty_conv
      split: prod.splits worker_result.splits)

interpretation dispatch: fifo_queue "enqueue_now oid" "take_now src" pending_now "accepts_now oid"
  for oid src
proof
  show "accepts_now oid (enqueue_now oid f d)" if "accepts_now oid d" for d :: "'a dispatcher" and f
    using that by (simp add: accepts_now_def enqueue_now_def queue_sorted_enqueue
        when_internal_detached_def when_immediately_def)
qed (simp_all add: pending_now_enqueue_now take_now_empty take_now_first)

end
