(* ===== verification/Dispatcher_Threads.thy ===== *)
theory Dispatcher_Threads
  imports Dispatcher
begin

text \<open>
  The worker thread of the dispatcher against the threads that use it.  The worker takes an entry
  under \<open>mutex_\<close>, records the owner under \<open>running_function_object_id_mutex_\<close>, checks under
  \<open>object_ids_mutex_\<close> that the owner is still attached, runs the function, and clears the record;
  another thread can act between any two of these.  The question the protocol answers is when an
  object may be destroyed: once \<open>detach\<close> has returned.
\<close>

section \<open>Steps\<close>

text \<open>Where the worker is; \<open>Executing\<close> is inside the stored function, past the attachment check.\<close>

datatype 'f worker_pc =
    Idle
  | Taken "'f dispatch_entry"
  | Marked "'f dispatch_entry"
  | Executing "'f dispatch_entry"
  | Returned
  | Exited

text \<open>
  \<open>detaching\<close> holds the ids for which a thread other than the worker has passed the first half of
  \<open>detach\<close> and waits; \<open>gone\<close> those for which \<open>detach\<close> has returned \<open>true\<close> in such a thread and that
  were not attached again.
\<close>

record 'f threads =
  disp :: "'f dispatcher"
  worker :: "'f worker_pc"
  detaching :: "u64 set"
  gone :: "u64 set"

definition initial_threads :: "u64 \<Rightarrow> 'f threads" where
  "initial_threads own =
     \<lparr>disp = initial_dispatcher own, worker = Idle, detaching = {}, gone = {}\<rparr>"

inductive worker_step :: "'f threads \<Rightarrow> 'f threads \<Rightarrow> bool" where
  take: "worker s = Idle \<Longrightarrow> worker_take src (disp s) = (Worker_run e, d) \<Longrightarrow>
    worker_step s (s\<lparr>disp := d, worker := Taken e\<rparr>)"
| leave: "worker s = Idle \<Longrightarrow> worker_take src (disp s) = (Worker_exit, d) \<Longrightarrow>
    worker_step s (s\<lparr>disp := d, worker := Exited\<rparr>)"
| mark: "worker s = Taken e \<Longrightarrow>
    worker_step s (s\<lparr>disp := set_running (Some (object_id_value e)) (disp s), worker := Marked e\<rparr>)"
| call: "worker s = Marked e \<Longrightarrow> call_function e (disp s) = Some f \<Longrightarrow>
    worker_step s (s\<lparr>worker := Executing e\<rparr>)"
| skip: "worker s = Marked e \<Longrightarrow> call_function e (disp s) = None \<Longrightarrow>
    worker_step s (s\<lparr>worker := Returned\<rparr>)"
| return: "worker s = Executing e \<Longrightarrow> worker_step s (s\<lparr>worker := Returned\<rparr>)"
| unmark: "worker s = Returned \<Longrightarrow>
    worker_step s (s\<lparr>disp := set_running None (disp s), worker := Idle\<rparr>)"

inductive client_step :: "'f threads \<Rightarrow> 'f threads \<Rightarrow> bool" where
  attaches: "attach oid (disp s) = (True, d) \<Longrightarrow>
    client_step s (s\<lparr>disp := d, gone := gone s - {oid}\<rparr>)"
| enqueues: "enqueue oid f when (disp s) = (True, d) \<Longrightarrow> client_step s (s\<lparr>disp := d\<rparr>)"
| detach_begins: "detach oid (disp s) = (True, d) \<Longrightarrow>
    client_step s (s\<lparr>disp := d, detaching := insert oid (detaching s)\<rparr>)"
| detach_returns: "oid \<in> detaching s \<Longrightarrow> detach_wait_over False oid (disp s) \<Longrightarrow>
    client_step s (s\<lparr>detaching := detaching s - {oid},
                     gone := (if attached oid (disp s) then gone s else insert oid (gone s))\<rparr>)"
| detaches_inline: "worker s = Executing e \<Longrightarrow> detach oid (disp s) = (True, d) \<Longrightarrow>
    client_step s (s\<lparr>disp := d\<rparr>)"
| terminates: "client_step s (s\<lparr>disp := terminate (disp s)\<rparr>)"

inductive reachable :: "u64 \<Rightarrow> 'f threads \<Rightarrow> bool" for own where
  start: "reachable own (initial_threads own)"
| worker: "reachable own s \<Longrightarrow> worker_step s t \<Longrightarrow> reachable own t"
| client: "reachable own s \<Longrightarrow> client_step s t \<Longrightarrow> reachable own t"

section \<open>The invariant\<close>

fun mark_agrees :: "'f worker_pc \<Rightarrow> u64 option \<Rightarrow> bool" where
  "mark_agrees (Marked e) r = (r = Some (object_id_value e))"
| "mark_agrees (Executing e) r = (r = Some (object_id_value e))"
| "mark_agrees Returned r = True"
| "mark_agrees _ r = (r = None)"

fun executes :: "'f worker_pc \<Rightarrow> u64 \<Rightarrow> bool" where
  "executes (Executing e) oid = (object_id_value e = oid)"
| "executes _ oid = False"

definition threads_inv :: "'f threads \<Rightarrow> bool" where
  "threads_inv s \<longleftrightarrow>
     mark_agrees (worker s) (running_function_object_id (disp s)) \<and>
     gone s \<inter> object_ids (disp s) = {} \<and>
     (\<forall>e \<in> set (queue (disp s)). object_id_value e \<in> object_ids (disp s)) \<and>
     (\<forall>oid. oid \<in> gone s \<longrightarrow> \<not> executes (worker s) oid)"

lemma threads_inv_initial: "threads_inv (initial_threads own)"
  by (simp add: threads_inv_def initial_threads_def initial_dispatcher_def attach_def)

lemma queue_worker_take:
  "worker_take src d = (r, d') \<Longrightarrow>
     object_ids d' = object_ids d \<and> running_function_object_id d' = running_function_object_id d \<and>
     set (queue d') \<subseteq> set (queue d)"
  by (auto simp: worker_take_def split: if_splits list.splits)

lemma worker_step_inv: "worker_step s t \<Longrightarrow> threads_inv s \<Longrightarrow> threads_inv t"
proof (induction rule: worker_step.induct)
  case (take s src e d)
  from take(1,3) queue_worker_take [OF take(2)] show ?case
    by (auto simp: threads_inv_def)
next
  case (leave s src d)
  from leave(1,3) queue_worker_take [OF leave(2)] show ?case
    by (auto simp: threads_inv_def)
next
  case (call s e f)
  then show ?case
    by (auto simp: threads_inv_def call_function_def split: if_splits)
qed (auto simp: threads_inv_def set_running_def)

lemma client_step_inv: "client_step s t \<Longrightarrow> threads_inv s \<Longrightarrow> threads_inv t"
proof (induction rule: client_step.induct)
  case (detach_returns oid s)
  have "oid \<in> gone s \<or> \<not> executes (worker s) oid"
    using detach_returns(2,3) by (cases "worker s") (auto simp: threads_inv_def detach_wait_over_def)
  with detach_returns show ?case
    by (auto simp: threads_inv_def attached_def)
next
  case (enqueues oid f "when" s d)
  have "d = snd (enqueue oid f when (disp s))" and "oid \<in> object_ids (disp s)"
    and "\<not> exiting (disp s)"
    using enqueues(1) enqueue_accepted [of oid f "when" "disp s"] by auto
  with enqueues(2) show ?case
    by (auto simp: threads_inv_def set_queue_enqueue)
qed (auto simp: threads_inv_def attach_def detach_def terminate_def split: if_splits)

lemma reachable_inv: "reachable own s \<Longrightarrow> threads_inv s"
  by (induction rule: reachable.induct)
    (auto intro: threads_inv_initial worker_step_inv client_step_inv)

section \<open>What a returned detach guarantees\<close>

lemma gone_is_quiet:
  assumes "threads_inv s" and "oid \<in> gone s"
  shows "\<not> executes (worker s) oid"
    and "\<forall>e \<in> set (queue (disp s)). object_id_value e \<noteq> oid"
    and "object_id_value e = oid \<Longrightarrow> call_function e (disp s) = None"
  using assms by (auto simp: threads_inv_def call_function_def)

section \<open>A detach returns\<close>

text \<open>
  Provided the function it waits for returns, the worker's own steps end the wait.
\<close>

lemma worker_unmark_steps:
  "worker s = Returned \<Longrightarrow> \<exists>t. worker_step\<^sup>*\<^sup>* s t \<and> running_function_object_id (disp t) = None"
  by (intro exI conjI, rule r_into_rtranclp, erule worker_step.unmark) (simp add: set_running_def)

lemma worker_return_steps:
  assumes "worker s = Executing e"
  shows "\<exists>t. worker_step\<^sup>*\<^sup>* s t \<and> running_function_object_id (disp t) = None"
  using worker_step.return [OF assms] worker_unmark_steps [of "s\<lparr>worker := Returned\<rparr>"]
  by (auto intro: converse_rtranclp_into_rtranclp)

lemma worker_marked_steps:
  assumes "worker s = Marked e"
  shows "\<exists>t. worker_step\<^sup>*\<^sup>* s t \<and> running_function_object_id (disp t) = None"
proof (cases "call_function e (disp s)")
  case None
  then show ?thesis
    using worker_step.skip [OF assms] worker_unmark_steps [of "s\<lparr>worker := Returned\<rparr>"]
    by (auto intro: converse_rtranclp_into_rtranclp)
next
  case (Some f)
  then show ?thesis
    using worker_step.call [OF assms] worker_return_steps [of "s\<lparr>worker := Executing e\<rparr>"]
    by (auto intro: converse_rtranclp_into_rtranclp)
qed

lemma worker_unmarks:
  assumes "threads_inv s" and "running_function_object_id (disp s) = Some oid"
  shows "\<exists>t. worker_step\<^sup>*\<^sup>* s t \<and> running_function_object_id (disp t) = None"
  using assms worker_unmark_steps worker_return_steps worker_marked_steps
  by (cases "worker s") (auto simp: threads_inv_def)

end
