(* ===== verification/Dispatcher_Cleanup.thy ===== *)
theory Dispatcher_Cleanup
  imports Dispatcher_Threads
begin

text \<open>
  \<open>detach\<close> with a cleanup function, against the worker and against \<open>terminate\<close>: when the thread that
  detaches gets past its wait for the cleanup.
\<close>

section \<open>The worker on its own\<close>

text \<open>What the worker leaves alone between two functions.\<close>

definition same_dispatcher :: "'f dispatcher \<Rightarrow> 'f dispatcher \<Rightarrow> bool" where
  "same_dispatcher d d' \<longleftrightarrow> object_ids d' = object_ids d \<and> exiting d' = exiting d"

lemma same_dispatcher_refl [simp]: "same_dispatcher d d"
  by (simp add: same_dispatcher_def)

lemma same_dispatcher_trans: "same_dispatcher a b \<Longrightarrow> same_dispatcher b c \<Longrightarrow> same_dispatcher a c"
  by (simp add: same_dispatcher_def)

lemma worker_then: "worker_step s t \<Longrightarrow> worker_step\<^sup>*\<^sup>* t u \<Longrightarrow> worker_step\<^sup>*\<^sup>* s u"
  by (rule converse_rtranclp_into_rtranclp)

text \<open>It leaves its loop only when the dispatcher exits.\<close>

definition exited_inv :: "'f threads \<Rightarrow> bool" where
  "exited_inv s \<longleftrightarrow> (worker s = Exited \<longrightarrow> exiting (disp s))"

lemma worker_take_exit: "worker_take src d = (Worker_exit, d') \<Longrightarrow> exiting d \<and> d' = d"
  by (auto simp: worker_take_def split: if_splits list.splits)

lemma worker_step_exited: "worker_step s t \<Longrightarrow> exited_inv t"
  by (induction rule: worker_step.induct) (auto simp: exited_inv_def dest: worker_take_exit)

lemma client_step_exiting: "client_step s t \<Longrightarrow> exiting (disp s) \<Longrightarrow> exiting (disp t)"
  by (induction rule: client_step.induct)
    (auto simp: attach_def enqueue_def detach_def terminate_def Let_def split: if_splits)

lemma client_step_worker: "client_step s t \<Longrightarrow> worker t = worker s"
  by (induction rule: client_step.induct) simp_all

lemma reachable_exited: "reachable own s \<Longrightarrow> exited_inv s"
proof (induction rule: reachable.induct)
  case start
  show ?case by (simp add: exited_inv_def initial_threads_def)
next
  case (worker s t)
  then show ?case by (blast intro: worker_step_exited)
next
  case (client s t)
  then show ?case by (auto simp: exited_inv_def client_step_worker intro: client_step_exiting)
qed

text \<open>It comes back to the head of its loop, with the queue as it was.\<close>

lemma returned_idle:
  "worker s = Returned \<Longrightarrow> \<exists>t. worker_step\<^sup>*\<^sup>* s t \<and> worker t = Idle \<and> queue (disp t) = queue (disp s) \<and>
     same_dispatcher (disp s) (disp t)"
  by (intro exI conjI, rule r_into_rtranclp, erule worker_step.unmark)
    (simp_all add: set_running_def same_dispatcher_def)

lemma executing_idle:
  assumes "worker s = Executing e"
  shows "\<exists>t. worker_step\<^sup>*\<^sup>* s t \<and> worker t = Idle \<and> queue (disp t) = queue (disp s) \<and>
     same_dispatcher (disp s) (disp t)"
  using worker_then [OF worker_step.return [OF assms]] returned_idle [of "s\<lparr>worker := Returned\<rparr>"] by auto

lemma marked_idle:
  assumes "worker s = Marked e"
  shows "\<exists>t. worker_step\<^sup>*\<^sup>* s t \<and> worker t = Idle \<and> queue (disp t) = queue (disp s) \<and>
     same_dispatcher (disp s) (disp t)"
proof (cases "call_function e (disp s)")
  case None
  show ?thesis
    using worker_then [OF worker_step.skip [OF assms None]] returned_idle [of "s\<lparr>worker := Returned\<rparr>"] by auto
next
  case (Some f)
  show ?thesis
    using worker_then [OF worker_step.call [OF assms Some]] executing_idle [of "s\<lparr>worker := Executing e\<rparr>"] by auto
qed

lemma taken_idle:
  assumes "worker s = Taken e"
  shows "\<exists>t. worker_step\<^sup>*\<^sup>* s t \<and> worker t = Idle \<and> queue (disp t) = queue (disp s) \<and>
     same_dispatcher (disp s) (disp t)"
proof -
  let ?u = "s\<lparr>disp := set_running (Some (object_id_value e)) (disp s), worker := Marked e\<rparr>"
  have "same_dispatcher (disp s) (disp ?u)" "queue (disp ?u) = queue (disp s)"
    by (simp_all add: set_running_def same_dispatcher_def)
  moreover obtain t where "worker_step\<^sup>*\<^sup>* ?u t" "worker t = Idle" "queue (disp t) = queue (disp ?u)"
    "same_dispatcher (disp ?u) (disp t)"
    using marked_idle [of ?u e] by auto
  ultimately have "worker_step\<^sup>*\<^sup>* s t \<and> worker t = Idle \<and> queue (disp t) = queue (disp s) \<and>
      same_dispatcher (disp s) (disp t)"
    using worker_then [OF worker_step.mark [OF assms]] same_dispatcher_trans by auto
  then show ?thesis ..
qed

lemma worker_idle:
  assumes "worker s \<noteq> Exited"
  shows "\<exists>t. worker_step\<^sup>*\<^sup>* s t \<and> worker t = Idle \<and> queue (disp t) = queue (disp s) \<and>
     same_dispatcher (disp s) (disp t)"
  using assms taken_idle marked_idle executing_idle returned_idle
  by (cases "worker s") (auto intro: exI [of _ s])

section \<open>The cleanup is called\<close>

text \<open>The head of the queue, due without regard to the clock.\<close>

lemma head_taken:
  assumes "worker s = Idle" and "\<not> exiting (disp s)" and "queue (disp s) = e # q" and "entry_when e \<le> when_immediately"
  shows "worker_step s (s\<lparr>disp := (disp s)\<lparr>queue := q\<rparr>, worker := Taken e\<rparr>)"
  using assms by (intro worker_step.take [of s None]) (simp_all add: worker_take_def calculate_duration_def)

lemma head_passed:
  assumes "worker s = Idle" and "\<not> exiting (disp s)" and "queue (disp s) = e # q" and "entry_when e \<le> when_immediately"
  shows "\<exists>t. worker_step\<^sup>*\<^sup>* s t \<and> worker t = Idle \<and> queue (disp t) = q \<and> same_dispatcher (disp s) (disp t)"
proof -
  let ?u = "s\<lparr>disp := (disp s)\<lparr>queue := q\<rparr>, worker := Taken e\<rparr>"
  obtain t where "worker_step\<^sup>*\<^sup>* ?u t" "worker t = Idle" "queue (disp t) = q" "same_dispatcher (disp ?u) (disp t)"
    using taken_idle [of ?u e] by auto
  then show ?thesis
    using worker_then [OF head_taken [OF assms]] by (auto simp: same_dispatcher_def)
qed

lemma heads_passed:
  "worker s = Idle \<Longrightarrow> \<not> exiting (disp s) \<Longrightarrow> queue (disp s) = xs @ q \<Longrightarrow>
   \<forall>e \<in> set xs. entry_when e \<le> when_immediately \<Longrightarrow>
   \<exists>t. worker_step\<^sup>*\<^sup>* s t \<and> worker t = Idle \<and> queue (disp t) = q \<and> same_dispatcher (disp s) (disp t)"
proof (induction xs arbitrary: s)
  case Nil
  then show ?case by auto
next
  case (Cons e xs)
  then obtain u where u: "worker_step\<^sup>*\<^sup>* s u" "worker u = Idle" "queue (disp u) = xs @ q"
    "same_dispatcher (disp s) (disp u)"
    using head_passed [of s e "xs @ q"] by auto
  with Cons.IH [of u] Cons.prems(2,4) obtain t where "worker_step\<^sup>*\<^sup>* u t" "worker t = Idle" "queue (disp t) = q"
    "same_dispatcher (disp u) (disp t)"
    by (auto simp: same_dispatcher_def)
  with u(1,4) have "worker_step\<^sup>*\<^sup>* s t \<and> worker t = Idle \<and> queue (disp t) = q \<and>
      same_dispatcher (disp s) (disp t)"
    by (simp add: same_dispatcher_def)
  then show ?case ..
qed

lemma head_executes:
  assumes "worker s = Idle" and "\<not> exiting (disp s)" and "queue (disp s) = e # q"
    and "entry_when e \<le> when_immediately" and "object_id_value e \<in> object_ids (disp s)"
  shows "\<exists>t. worker_step\<^sup>*\<^sup>* s t \<and> worker t = Executing e \<and> queue (disp t) = q \<and> same_dispatcher (disp s) (disp t)"
proof -
  let ?a = "s\<lparr>disp := (disp s)\<lparr>queue := q\<rparr>, worker := Taken e\<rparr>"
  let ?b = "?a\<lparr>disp := set_running (Some (object_id_value e)) (disp ?a), worker := Marked e\<rparr>"
  have "call_function e (disp ?b) = Some (entry_function e)"
    using assms(5) by (simp add: call_function_def set_running_def)
  then have "worker_step ?b (?b\<lparr>worker := Executing e\<rparr>)" by (intro worker_step.call) simp_all
  moreover have "worker_step ?a ?b" by (intro worker_step.mark) simp
  ultimately have "worker_step\<^sup>*\<^sup>* s (?b\<lparr>worker := Executing e\<rparr>)"
    using head_taken [OF assms(1-4)] by (meson converse_rtranclp_into_rtranclp rtranclp.rtrancl_refl)
  then show ?thesis by (intro exI conjI, assumption) (auto simp: set_running_def same_dispatcher_def)
qed

lemma immediate_executes:
  assumes "worker s \<noteq> Exited" and "\<not> exiting (disp s)" and "queue_sorted (disp s)" and "e \<in> set (queue (disp s))"
    and "entry_when e \<le> when_immediately" and "object_id_value e \<in> object_ids (disp s)"
  shows "\<exists>t. worker_step\<^sup>*\<^sup>* s t \<and> worker t = Executing e \<and> same_dispatcher (disp s) (disp t) \<and>
    (\<exists>xs. queue (disp s) = xs @ e # queue (disp t))"
proof -
  obtain xs q where q: "queue (disp s) = xs @ e # q"
    using assms(4) by (meson split_list)
  then have due: "\<forall>x \<in> set xs. entry_when x \<le> when_immediately"
    using assms(3,5) by (auto simp: queue_sorted_def sorted_append)
  obtain u where u: "worker_step\<^sup>*\<^sup>* s u" "worker u = Idle" "queue (disp u) = xs @ e # q"
    "same_dispatcher (disp s) (disp u)"
    using worker_idle [OF assms(1)] q by auto
  obtain v where v: "worker_step\<^sup>*\<^sup>* u v" "worker v = Idle" "queue (disp v) = e # q"
    "same_dispatcher (disp u) (disp v)"
    using heads_passed [OF u(2) _ u(3) due] assms(2) u(4) by (auto simp: same_dispatcher_def)
  have sv: "same_dispatcher (disp s) (disp v)" using u(4) v(4) by (rule same_dispatcher_trans)
  then obtain t where "worker_step\<^sup>*\<^sup>* v t" "worker t = Executing e" "queue (disp t) = q"
    "same_dispatcher (disp v) (disp t)"
    using head_executes [OF v(2) _ v(3) assms(5)] assms(2,6) by (auto simp: same_dispatcher_def)
  with u(1) v(1) sv q show ?thesis by (meson rtranclp_trans same_dispatcher_trans)
qed

section \<open>An exiting dispatcher calls nothing more\<close>

text \<open>The worker is at an entry.\<close>

fun busy_with :: "'f worker_pc \<Rightarrow> 'f dispatch_entry \<Rightarrow> bool" where
  "busy_with (Taken e) e' = (e = e')"
| "busy_with (Marked e) e' = (e = e')"
| "busy_with (Executing e) e' = (e = e')"
| "busy_with _ e' = False"

lemma exiting_step:
  "worker_step s t \<Longrightarrow> exiting (disp s) \<Longrightarrow> \<not> busy_with (worker s) e \<Longrightarrow>
     exiting (disp t) \<and> \<not> busy_with (worker t) e \<and> queue (disp t) = queue (disp s)"
  by (induction rule: worker_step.induct) (auto simp: worker_take_def set_running_def)

lemma exiting_steps:
  assumes "(\<lambda>v w. worker_step v w \<or> client_step v w)\<^sup>*\<^sup>* s t" and "exiting (disp s)" and "\<not> busy_with (worker s) e"
  shows "exiting (disp t) \<and> \<not> busy_with (worker t) e"
  using assms
  by (induction rule: rtranclp_induct) (auto dest: exiting_step client_step_exiting simp: client_step_worker)

end
