(* ===== verification/Object_Id.thy ===== *)
theory Object_Id
  imports Prelude
begin

text \<open>
  The manager of object ids (\<open>pqrs/dispatcher/object_id.hpp\<close>): a set of the ids in use and the last
  one given out.  \<open>make\<close> counts up, past the ids in use and through the wrap-around of the 64-bit
  counter, to a free one; the exception it throws when every id is taken is \<open>Inl\<close>.
\<close>

record id_manager =
  ids_in_use :: "u64 set"
  last_value :: u64

datatype id_error = No_object_id_left

partial_function (option) next_free :: "u64 set \<Rightarrow> u64 \<Rightarrow> u64 option" where
  "next_free used lv =
     (let v = lv + 1 in if v \<notin> used then Some v else next_free used v)"

text \<open>The loop of \<open>make\<close> may not end in general: its result is an option (\<open>None\<close>: no return).\<close>

definition make_id :: "id_manager \<Rightarrow> (id_error + (u64 \<times> id_manager)) option" where
  "make_id m =
     (if card (ids_in_use m) \<ge> 2 ^ 64 - 1 then Some (Inl No_object_id_left)
      else map_option (\<lambda>v. Inr (v, m\<lparr>ids_in_use := insert v (ids_in_use m), last_value := v\<rparr>))
             (next_free (ids_in_use m) (last_value m)))"

definition erase_id :: "u64 \<Rightarrow> id_manager \<Rightarrow> id_manager" where
  "erase_id v m = m\<lparr>ids_in_use := ids_in_use m - {v}\<rparr>"

definition active_object_id_count :: "id_manager \<Rightarrow> nat" where
  "active_object_id_count m = card (ids_in_use m)"

section \<open>The loop ends\<close>

lemma next_free_fresh:
  "next_free used lv = Some v \<Longrightarrow> v \<notin> used"
proof -
  assume ret: "next_free used lv = Some v"
  show ?thesis
    by (rule next_free.raw_induct [where P = "\<lambda>used _ v. v \<notin> used", OF _ ret])
      (auto simp: Let_def split: if_splits)
qed

text \<open>It stops at the latest after \<open>k\<close> rounds if the \<open>k\<close>-th value from the last one is free.\<close>

lemma next_free_returns:
  "lv + of_nat (Suc k) \<notin> used \<Longrightarrow> \<exists>v. next_free used lv = Some v"
proof (induction k arbitrary: lv)
  case 0
  then show ?case by (subst next_free.simps) simp
next
  case (Suc k)
  show ?case
  proof (cases "lv + 1 \<in> used")
    case True
    have "(lv + 1) + of_nat (Suc k) \<notin> used"
      using Suc.prems by (simp add: add.assoc)
    then have "\<exists>v. next_free used (lv + 1) = Some v" by (rule Suc.IH)
    with True show ?thesis by (subst next_free.simps) simp
  next
    case False
    then show ?thesis by (subst next_free.simps) simp
  qed
qed

lemma next_free_total:
  assumes "card used < 2 ^ 64 - 1"
  shows "\<exists>v. next_free used lv = Some v"
proof -
  have "used \<noteq> UNIV"
    using assms by (auto simp: card_word)
  then obtain v where v: "v \<notin> used" by blast
  have "lv + of_nat (Suc (unat (v - (lv + 1)))) = v"
    by simp
  with v show ?thesis
    using next_free_returns [of lv "unat (v - (lv + 1))" used] by simp
qed

lemma make_id_cases:
  shows "make_id m = Some (Inl No_object_id_left) \<and> card (ids_in_use m) \<ge> 2 ^ 64 - 1
    \<or> (\<exists>v. make_id m = Some (Inr (v, m\<lparr>ids_in_use := insert v (ids_in_use m), last_value := v\<rparr>))
         \<and> v \<notin> ids_in_use m \<and> card (ids_in_use m) < 2 ^ 64 - 1)"
proof (cases "card (ids_in_use m) \<ge> 2 ^ 64 - 1")
  case True
  then show ?thesis by (simp add: make_id_def)
next
  case False
  then obtain v where v: "next_free (ids_in_use m) (last_value m) = Some v"
    using next_free_total [of "ids_in_use m" "last_value m"] by auto
  with False next_free_fresh [OF v] show ?thesis by (simp add: make_id_def)
qed

end
