(* ===== verification/Dispatcher_Client.thy ===== *)
theory Dispatcher_Client
  imports Dispatcher Object_Id
begin

text \<open>
  The base class of every object that posts work to the dispatcher
  (\<open>pqrs/dispatcher/extra/dispatcher_client.hpp\<close>).  It holds a weak pointer to the dispatcher:
  \<open>None\<close> once the dispatcher is gone.
\<close>

type_synonym 'f weak_dispatcher = "'f dispatcher option"

text \<open>The constructor attaches a new id; the result of \<open>attach\<close> is ignored.\<close>

definition client_attach :: "u64 \<Rightarrow> 'f weak_dispatcher \<Rightarrow> 'f weak_dispatcher" where
  "client_attach oid w = (case w of Some d \<Rightarrow> Some (snd (attach oid d)) | None \<Rightarrow> None)"

text \<open>The destructor aborts the program when the object is still attached.\<close>

definition client_destructor_aborts :: "u64 \<Rightarrow> 'f weak_dispatcher \<Rightarrow> bool" where
  "client_destructor_aborts oid w =
     (case w of Some d \<Rightarrow> attached oid d | None \<Rightarrow> False)"

definition detach_from_dispatcher :: "u64 \<Rightarrow> 'f weak_dispatcher \<Rightarrow> 'f weak_dispatcher" where
  "detach_from_dispatcher oid w =
     (case w of Some d \<Rightarrow> Some (snd (detach oid d)) | None \<Rightarrow> None)"

definition enqueue_to_dispatcher ::
    "u64 \<Rightarrow> 'f \<Rightarrow> millis \<Rightarrow> 'f weak_dispatcher \<Rightarrow> bool \<times> 'f weak_dispatcher" where
  "enqueue_to_dispatcher oid f when w =
     (case w of
        Some d \<Rightarrow> (case enqueue oid f when d of (b, d') \<Rightarrow> (b, Some d'))
      | None \<Rightarrow> (False, None))"

text \<open>The clock of the dispatcher; its time source is a weak pointer too.\<close>

definition when_now :: "millis option \<Rightarrow> 'f weak_dispatcher \<Rightarrow> millis" where
  "when_now src w =
     (case w of
        Some d \<Rightarrow> (case src of Some n \<Rightarrow> n | None \<Rightarrow> when_immediately)
      | None \<Rightarrow> when_immediately)"

definition client_attached :: "u64 \<Rightarrow> 'f weak_dispatcher \<Rightarrow> bool" where
  "client_attached oid w = (case w of Some d \<Rightarrow> attached oid d | None \<Rightarrow> False)"

section \<open>What is queued\<close>

definition queued :: "'f weak_dispatcher \<Rightarrow> 'f dispatch_entry list" where
  "queued w = (case w of Some d \<Rightarrow> queue d | None \<Rightarrow> [])"

lemma queued_enqueue_set:
  "set (queued (snd (enqueue_to_dispatcher oid f t w))) =
     (if fst (enqueue_to_dispatcher oid f t w)
      then insert \<lparr>object_id_value = oid, entry_function = f, entry_when = t\<rparr> (set (queued w))
      else set (queued w))"
  by (cases w) (simp_all add: queued_def enqueue_to_dispatcher_def enqueue_def Let_def)

lemma queued_enqueue_filter:
  "length (filter P (queued (snd (enqueue_to_dispatcher oid f t w)))) =
     length (filter P (queued w)) +
     (if fst (enqueue_to_dispatcher oid f t w)
         \<and> P \<lparr>object_id_value = oid, entry_function = f, entry_when = t\<rparr> then 1 else 0)"
proof -
  have "length (filter P (insert_upper key x xs)) = length (filter P xs) + (if P x then 1 else 0)"
    for key :: "'a dispatch_entry \<Rightarrow> millis" and x xs
    by (induction xs) auto
  then show ?thesis
    by (cases w) (simp_all add: queued_def enqueue_to_dispatcher_def enqueue_def Let_def)
qed

lemma destructor_after_detach:
  "\<not> client_destructor_aborts oid (detach_from_dispatcher oid w)"
  by (auto simp: client_destructor_aborts_def detach_from_dispatcher_def attached_def detach_def
      split: option.splits)

end
