(* ===== verification/Debounced_Task.thy ===== *)
theory Debounced_Task
  imports Dispatcher_Client
begin

text \<open>
  \<open>pqrs/dispatcher/extra/debounced_task.hpp\<close>: a function to be called at a later time, replaced by
  the next request made before that time.  The closures it enqueues are the type \<open>debounce_fun\<close>;
  \<open>emb\<close> embeds them into the functions of the dispatcher, \<open>oid\<close> is the id of the owner.
\<close>

record debounced_task =
  task_generation :: u64

definition initial_debounced_task :: debounced_task where
  "initial_debounced_task = \<lparr>task_generation = 0\<rparr>"

datatype 'f debounce_fun =
    Debounce_in_dispatcher 'f millis
  | Debounce_fire 'f u64
  | Debounce_cancel

definition debounce_at ::
    "('f debounce_fun \<Rightarrow> 'g) \<Rightarrow> u64 \<Rightarrow> 'f \<Rightarrow> millis \<Rightarrow> 'g weak_dispatcher \<Rightarrow> bool \<times> 'g weak_dispatcher" where
  "debounce_at emb oid f when w =
     enqueue_to_dispatcher oid (emb (Debounce_in_dispatcher f when)) when_immediately w"

definition debounce_after ::
    "('f debounce_fun \<Rightarrow> 'g) \<Rightarrow> u64 \<Rightarrow> millis option \<Rightarrow> 'f \<Rightarrow> millis \<Rightarrow> 'g weak_dispatcher
      \<Rightarrow> bool \<times> 'g weak_dispatcher" where
  "debounce_after emb oid src f delay w = debounce_at emb oid f (when_now src w + delay) w"

definition debounce_cancel ::
    "('f debounce_fun \<Rightarrow> 'g) \<Rightarrow> u64 \<Rightarrow> 'g weak_dispatcher \<Rightarrow> 'g weak_dispatcher" where
  "debounce_cancel emb oid w =
     snd (enqueue_to_dispatcher oid (emb Debounce_cancel) when_immediately w)"

definition debounce_in_dispatcher ::
    "('f debounce_fun \<Rightarrow> 'g) \<Rightarrow> u64 \<Rightarrow> 'f \<Rightarrow> millis \<Rightarrow> debounced_task \<times> 'g weak_dispatcher
      \<Rightarrow> debounced_task \<times> 'g weak_dispatcher" where
  "debounce_in_dispatcher emb oid f when = (\<lambda>(t, w).
     let t' = t\<lparr>task_generation := task_generation t + 1\<rparr> in
     case enqueue_to_dispatcher oid (emb (Debounce_fire f (task_generation t'))) when w of
       (True, w') \<Rightarrow> (t', w')
     | (False, w') \<Rightarrow> (t'\<lparr>task_generation := task_generation t' + 1\<rparr>, w'))"

text \<open>
  What the closures do when the dispatcher runs them: the function to call now, if any, and the
  new state.
\<close>

fun run_debounce ::
    "('f debounce_fun \<Rightarrow> 'g) \<Rightarrow> u64 \<Rightarrow> 'f debounce_fun \<Rightarrow> debounced_task \<times> 'g weak_dispatcher
      \<Rightarrow> 'f option \<times> debounced_task \<times> 'g weak_dispatcher" where
  "run_debounce emb oid (Debounce_in_dispatcher f when) (t, w) =
     (None, debounce_in_dispatcher emb oid f when (t, w))"
| "run_debounce emb oid (Debounce_fire f g) (t, w) =
     ((if task_generation t \<noteq> g then None else Some f), (t, w))"
| "run_debounce emb oid Debounce_cancel (t, w) =
     (None, (t\<lparr>task_generation := task_generation t + 1\<rparr>, w))"

section \<open>At most one call is armed\<close>

definition armed :: "('f debounce_fun \<Rightarrow> 'g) \<Rightarrow> debounced_task \<Rightarrow> 'g dispatch_entry \<Rightarrow> bool" where
  "armed emb t e \<longleftrightarrow> (\<exists>f. entry_function e = emb (Debounce_fire f (task_generation t)))"

text \<open>
  Every queued call is of the present generation or an older one, and at most one is of the present
  one.
\<close>

definition debounce_inv ::
    "('f debounce_fun \<Rightarrow> 'g) \<Rightarrow> debounced_task \<times> 'g weak_dispatcher \<Rightarrow> bool" where
  "debounce_inv emb = (\<lambda>(t, w).
     (\<forall>e \<in> set (queued w). \<forall>f g. entry_function e = emb (Debounce_fire f g) \<longrightarrow> g \<le> task_generation t)
     \<and> length (filter (armed emb t) (queued w)) \<le> 1)"

lemma next_generation_greater: "g \<le> h \<Longrightarrow> h + 1 \<noteq> 0 \<Longrightarrow> g < h + 1" for g h :: u64
  using unatSuc [of h] by (simp add: word_less_nat_alt word_le_nat_alt add.commute)

lemma none_armed_later:
  assumes "debounce_inv emb (t, w)" and "inj emb" and "task_generation t < g"
  shows "filter (armed emb (t\<lparr>task_generation := g\<rparr>)) (queued w) = []"
  using assms by (fastforce simp: debounce_inv_def armed_def filter_empty_conv)

text \<open>Skipping to a later generation disarms every queued call.\<close>

lemma debounce_inv_skip:
  assumes "debounce_inv emb (t, w)" and "inj emb" and "task_generation t < g"
  shows "debounce_inv emb (t\<lparr>task_generation := g\<rparr>, w)"
  using assms none_armed_later [OF assms] by (fastforce simp: debounce_inv_def)

lemma debounce_inv_arm:
  assumes inv: "debounce_inv emb (t, w)" and inj: "inj emb" and lt: "task_generation t < g"
    and enq: "enqueue_to_dispatcher oid (emb (Debounce_fire f g)) when w = (b, w')"
  shows "debounce_inv emb (t\<lparr>task_generation := g\<rparr>, w')"
proof -
  let ?t = "t\<lparr>task_generation := g\<rparr>"
  from enq have w': "w' = snd (enqueue_to_dispatcher oid (emb (Debounce_fire f g)) when w)"
    by simp
  have old: "debounce_inv emb (?t, w)"
    using inv inj lt by (rule debounce_inv_skip)
  have "length (filter (armed emb ?t) (queued w')) \<le> 1"
    using none_armed_later [OF inv inj lt] by (simp add: w' queued_enqueue_filter)
  moreover have "h \<le> g"
    if "e \<in> set (queued w')" and "entry_function e = emb (Debounce_fire f' h)" for e f' h
    using that old inj
    by (auto simp: w' queued_enqueue_set debounce_inv_def inj_eq split: if_splits)
  ultimately show ?thesis by (auto simp: debounce_inv_def)
qed

lemma run_debounce_inv:
  assumes inv: "debounce_inv emb (t, w)" and inj: "inj emb"
    and room: "task_generation t + 1 \<noteq> 0" "task_generation t + 2 \<noteq> 0"
    and run: "run_debounce emb oid fn (t, w) = (called, s)"
  shows "debounce_inv emb s"
proof -
  have lt: "task_generation t < task_generation t + 1"
    using room(1) by (intro next_generation_greater) auto
  have lt2: "task_generation t < task_generation t + 1 + 1"
    using next_generation_greater [of "task_generation t" "task_generation t + 1"] lt room(2)
    by (simp add: add.assoc)
  show ?thesis
  proof (cases fn)
    case (Debounce_in_dispatcher f "when")
    obtain b w' where e: "enqueue_to_dispatcher oid
        (emb (Debounce_fire f (task_generation t + 1))) when w = (b, w')"
      by (meson surj_pair)
    show ?thesis
    proof (cases b)
      case True
      with run Debounce_in_dispatcher e debounce_inv_arm [OF inv inj lt e] show ?thesis
        by (auto simp: debounce_in_dispatcher_def Let_def)
    next
      case False
      then have "set (queued w') = set (queued w)" and
        "\<And>P. length (filter P (queued w')) = length (filter P (queued w))"
        using queued_enqueue_set [of oid "emb (Debounce_fire f (task_generation t + 1))" "when" w]
          queued_enqueue_filter [of _ oid "emb (Debounce_fire f (task_generation t + 1))" "when" w] e
        by simp_all
      then have "debounce_inv emb (t, w')"
        using inv by (simp add: debounce_inv_def)
      with False run Debounce_in_dispatcher e inj lt2 show ?thesis
        by (auto simp: debounce_in_dispatcher_def Let_def intro: debounce_inv_skip)
    qed
  next
    case (Debounce_fire f g)
    with run inv show ?thesis by auto
  next
    case Debounce_cancel
    with run inv inj lt show ?thesis by (auto intro: debounce_inv_skip)
  qed
qed

text \<open>A call that was armed before a later request or a cancellation does nothing.\<close>

lemma superseded_fire_inert:
  assumes inv: "debounce_inv emb (t, w)" and inj: "inj emb"
    and room: "task_generation t + 1 \<noteq> 0" "task_generation t + 2 \<noteq> 0"
    and queued: "e \<in> set (queued w)" "entry_function e = emb (Debounce_fire f g)"
    and later: "fn = Debounce_cancel \<or> (\<exists>f' when. fn = Debounce_in_dispatcher f' when)"
    and run: "run_debounce emb oid fn (t, w) = (called, (t', w'))"
  shows "fst (run_debounce emb oid (Debounce_fire f g) (t', w'')) = None"
proof -
  have "g \<le> task_generation t"
    using inv queued by (auto simp: debounce_inv_def)
  then have "g < task_generation t + 1"
    using room(1) by (rule next_generation_greater)
  moreover from this have "g < task_generation t + 1 + 1"
    using next_generation_greater [of g "task_generation t + 1"] room(2) by (simp add: add.assoc)
  moreover have "task_generation t' = task_generation t + 1 \<or> task_generation t' = task_generation t + 1 + 1"
    using later run by (auto simp: debounce_in_dispatcher_def Let_def split: prod.splits bool.splits)
  ultimately show ?thesis by auto
qed

end
