(* ===== verification/Dispatcher_Timer.thy ===== *)
theory Dispatcher_Timer
  imports Dispatcher_Client
begin

text \<open>
  \<open>pqrs/dispatcher/extra/timer.hpp\<close>: a function called at once and then at every interval.  The
  closures the timer enqueues are the type \<open>timer_fun\<close>; \<open>emb\<close> embeds them into the functions of the
  dispatcher, \<open>oid\<close> is the id of the owner.  The function id is a C++ \<open>int\<close> that counts the
  starts, stops and changes of the interval; it is an integer here, which is exact for fewer than
  \<open>2 ^ 31\<close> of them (beyond that the C++ increment is undefined).
\<close>

record 'f timer =
  current_function_id :: int
  timer_function :: "'f option"
  timer_interval :: millis
  timer_enabled :: bool

definition initial_timer :: "'f timer" where
  "initial_timer =
     \<lparr>current_function_id = 0, timer_function = None, timer_interval = 0, timer_enabled = False\<rparr>"

datatype 'f timer_fun =
    Timer_start 'f millis
  | Timer_stop
  | Timer_set_interval millis
  | Timer_call int
  | Timer_user 'f

section \<open>Operations of the owner\<close>

definition timer_start ::
    "('f timer_fun \<Rightarrow> 'g) \<Rightarrow> u64 \<Rightarrow> 'f \<Rightarrow> millis \<Rightarrow> 'f timer \<times> 'g weak_dispatcher
      \<Rightarrow> 'f timer \<times> 'g weak_dispatcher" where
  "timer_start emb oid f iv = (\<lambda>(t, w).
     case enqueue_to_dispatcher oid (emb (Timer_start f iv)) when_immediately w of
       (b, w') \<Rightarrow> (t\<lparr>timer_enabled := b\<rparr>, w'))"

definition timer_stop ::
    "('f timer_fun \<Rightarrow> 'g) \<Rightarrow> u64 \<Rightarrow> 'f timer \<times> 'g weak_dispatcher
      \<Rightarrow> 'f timer \<times> 'g weak_dispatcher" where
  "timer_stop emb oid = (\<lambda>(t, w).
     (t\<lparr>timer_enabled := False\<rparr>,
      snd (enqueue_to_dispatcher oid (emb Timer_stop) when_immediately w)))"

definition timer_set_interval ::
    "('f timer_fun \<Rightarrow> 'g) \<Rightarrow> u64 \<Rightarrow> millis \<Rightarrow> 'f timer \<times> 'g weak_dispatcher
      \<Rightarrow> 'f timer \<times> 'g weak_dispatcher" where
  "timer_set_interval emb oid iv = (\<lambda>(t, w).
     if iv = 0 then timer_stop emb oid (t, w)
     else (case enqueue_to_dispatcher oid (emb (Timer_set_interval iv)) when_immediately w of
             (True, w') \<Rightarrow> (t, w')
           | (False, w') \<Rightarrow> (t\<lparr>timer_enabled := False\<rparr>, w')))"

section \<open>In the dispatcher\<close>

text \<open>\<open>timer::enqueue\<close>: the next round of function id \<open>i\<close>, an interval from now.\<close>

definition timer_enqueue ::
    "('f timer_fun \<Rightarrow> 'g) \<Rightarrow> u64 \<Rightarrow> millis option \<Rightarrow> int \<Rightarrow> 'f timer \<Rightarrow> 'g weak_dispatcher
      \<Rightarrow> bool \<times> 'g weak_dispatcher" where
  "timer_enqueue emb oid src i t w =
     enqueue_to_dispatcher oid (emb (Timer_call i)) (when_now src w + timer_interval t) w"

definition timer_rearm ::
    "('f timer_fun \<Rightarrow> 'g) \<Rightarrow> u64 \<Rightarrow> millis option \<Rightarrow> int \<Rightarrow> 'f timer \<times> 'g weak_dispatcher
      \<Rightarrow> 'f timer \<times> 'g weak_dispatcher" where
  "timer_rearm emb oid src i = (\<lambda>(t, w).
     case timer_enqueue emb oid src i t w of
       (True, w') \<Rightarrow> (t, w')
     | (False, w') \<Rightarrow> (t\<lparr>timer_enabled := False\<rparr>, w'))"

definition timer_call_function ::
    "('f timer_fun \<Rightarrow> 'g) \<Rightarrow> u64 \<Rightarrow> millis option \<Rightarrow> int \<Rightarrow> 'f timer \<times> 'g weak_dispatcher
      \<Rightarrow> 'f timer \<times> 'g weak_dispatcher" where
  "timer_call_function emb oid src i = (\<lambda>(t, w).
     if current_function_id t \<noteq> i then (t, w)
     else (case timer_function t of
             Some f \<Rightarrow>
               (case enqueue_to_dispatcher oid (emb (Timer_user f)) when_immediately w of
                  (False, w') \<Rightarrow> (t\<lparr>timer_enabled := False\<rparr>, w')
                | (True, w') \<Rightarrow> timer_rearm emb oid src i (t, w'))
           | None \<Rightarrow> timer_rearm emb oid src i (t, w)))"

text \<open>
  What the closures do when the dispatcher runs them: the user's function to call now, if any, and
  the new state.
\<close>

fun run_timer ::
    "('f timer_fun \<Rightarrow> 'g) \<Rightarrow> u64 \<Rightarrow> millis option \<Rightarrow> 'f timer_fun \<Rightarrow> 'f timer \<times> 'g weak_dispatcher
      \<Rightarrow> 'f option \<times> 'f timer \<times> 'g weak_dispatcher" where
  "run_timer emb oid src (Timer_start f iv) (t, w) =
     (let t' = t\<lparr>current_function_id := current_function_id t + 1, timer_function := Some f,
                 timer_interval := iv\<rparr>
      in (None, timer_call_function emb oid src (current_function_id t') (t', w)))"
| "run_timer emb oid src Timer_stop (t, w) =
     (None, (t\<lparr>current_function_id := current_function_id t + 1, timer_function := None,
               timer_interval := 0\<rparr>, w))"
| "run_timer emb oid src (Timer_set_interval iv) (t, w) =
     (if timer_interval t = iv then (None, (t, w))
      else let t' = t\<lparr>current_function_id := current_function_id t + 1, timer_interval := iv\<rparr>
           in (None, timer_rearm emb oid src (current_function_id t') (t', w)))"
| "run_timer emb oid src (Timer_call i) (t, w) = (None, timer_call_function emb oid src i (t, w))"
| "run_timer emb oid src (Timer_user f) (t, w) = (Some f, (t, w))"

section \<open>One chain of calls\<close>

definition next_round :: "('f timer_fun \<Rightarrow> 'g) \<Rightarrow> 'f timer \<Rightarrow> 'g dispatch_entry \<Rightarrow> bool" where
  "next_round emb t e \<longleftrightarrow> entry_function e = emb (Timer_call (current_function_id t))"

definition rounds :: "('f timer_fun \<Rightarrow> 'g) \<Rightarrow> 'f timer \<Rightarrow> 'g weak_dispatcher \<Rightarrow> nat" where
  "rounds emb t w = length (filter (next_round emb t) (queued w))"

definition past_rounds :: "('f timer_fun \<Rightarrow> 'g) \<Rightarrow> 'f timer \<Rightarrow> 'g weak_dispatcher \<Rightarrow> bool" where
  "past_rounds emb t w \<longleftrightarrow>
     (\<forall>e \<in> set (queued w). \<forall>i. entry_function e = emb (Timer_call i) \<longrightarrow> i \<le> current_function_id t)"

definition timer_inv :: "('f timer_fun \<Rightarrow> 'g) \<Rightarrow> 'f timer \<times> 'g weak_dispatcher \<Rightarrow> bool" where
  "timer_inv emb = (\<lambda>(t, w). past_rounds emb t w \<and> rounds emb t w \<le> 1)"

lemma next_round_enabled [simp]:
  "next_round emb (t\<lparr>timer_enabled := b\<rparr>) = next_round emb t"
  by (rule ext) (simp add: next_round_def)

lemma enabled_irrelevant [simp]:
  "rounds emb (t\<lparr>timer_enabled := b\<rparr>) w = rounds emb t w"
  "past_rounds emb (t\<lparr>timer_enabled := b\<rparr>) w = past_rounds emb t w"
  by (simp_all add: rounds_def past_rounds_def)

text \<open>
  A round that is being run is no longer in the queue: none of the present id is then.
\<close>

definition timer_ready ::
    "('f timer_fun \<Rightarrow> 'g) \<Rightarrow> 'f timer_fun \<Rightarrow> 'f timer \<times> 'g weak_dispatcher \<Rightarrow> bool" where
  "timer_ready emb fn = (\<lambda>(t, w).
     timer_inv emb (t, w) \<and> (fn = Timer_call (current_function_id t) \<longrightarrow> rounds emb t w = 0))"

lemma rounds_zero_later:
  assumes "past_rounds emb t w" and "inj emb" and "current_function_id t < current_function_id t'"
  shows "rounds emb t' w = 0"
  using assms by (fastforce simp: past_rounds_def rounds_def next_round_def filter_empty_conv)

lemma past_rounds_later:
  "past_rounds emb t w \<Longrightarrow> current_function_id t \<le> current_function_id t' \<Longrightarrow> past_rounds emb t' w"
  by (fastforce simp: past_rounds_def)

lemma enqueue_other:
  assumes "enqueue_to_dispatcher oid f tm w = (b, w')" and "\<And>i. f \<noteq> emb (Timer_call i)"
  shows "past_rounds emb t w' = past_rounds emb t w" and "rounds emb t w' = rounds emb t w"
  using assms queued_enqueue_set [of oid f tm w] queued_enqueue_filter [of _ oid f tm w]
  by (auto simp: past_rounds_def rounds_def next_round_def split: if_splits)

lemma timer_rearm_inv:
  assumes "past_rounds emb t w" and "rounds emb t w = 0" and "inj emb"
  shows "timer_inv emb (timer_rearm emb oid src (current_function_id t) (t, w))"
proof -
  let ?f = "emb (Timer_call (current_function_id t))"
  let ?w = "snd (enqueue_to_dispatcher oid ?f (when_now src w + timer_interval t) w)"
  have "past_rounds emb t ?w" and "rounds emb t ?w \<le> 1"
    using assms by (auto simp: past_rounds_def rounds_def queued_enqueue_set queued_enqueue_filter inj_eq
        split: if_splits)
  then show ?thesis
    by (auto simp: timer_rearm_def timer_enqueue_def timer_inv_def split: prod.splits bool.splits)
qed

lemma timer_call_function_inv:
  assumes past: "past_rounds emb t w" and zero: "rounds emb t w = 0" and inj: "inj emb"
  shows "timer_inv emb (timer_call_function emb oid src (current_function_id t) (t, w))"
proof (cases "timer_function t")
  case None
  with timer_rearm_inv [OF assms] show ?thesis by (simp add: timer_call_function_def)
next
  case (Some f)
  obtain b w' where e: "enqueue_to_dispatcher oid (emb (Timer_user f)) when_immediately w = (b, w')"
    by (meson surj_pair)
  have "past_rounds emb t w'" and "rounds emb t w' = 0"
    using enqueue_other [OF e, of emb t] past zero inj by (auto simp: inj_eq)
  with Some e timer_rearm_inv [of emb t w' oid src] inj show ?thesis
    by (cases b) (auto simp: timer_call_function_def timer_inv_def)
qed

lemma run_timer_inv:
  assumes ready: "timer_ready emb fn (t, w)" and inj: "inj emb"
  shows "timer_inv emb (snd (run_timer emb oid src fn (t, w)))"
proof -
  from ready have inv: "past_rounds emb t w" "rounds emb t w \<le> 1"
    by (simp_all add: timer_ready_def timer_inv_def)
  have later: "past_rounds emb t' w" "rounds emb t' w = 0"
    if "current_function_id t' = current_function_id t + 1" for t'
    using inv(1) inj that by (auto intro: past_rounds_later rounds_zero_later)
  show ?thesis
  proof (cases fn)
    case (Timer_start f iv)
    let ?t = "t\<lparr>current_function_id := current_function_id t + 1, timer_function := Some f,
                timer_interval := iv\<rparr>"
    have "timer_inv emb (timer_call_function emb oid src (current_function_id ?t) (?t, w))"
      by (rule timer_call_function_inv) (auto intro: later inj)
    with Timer_start show ?thesis by (simp add: Let_def)
  next
    case Timer_stop
    then show ?thesis by (simp add: timer_inv_def later)
  next
    case (Timer_set_interval iv)
    let ?t = "t\<lparr>current_function_id := current_function_id t + 1, timer_interval := iv\<rparr>"
    have "timer_inv emb (timer_rearm emb oid src (current_function_id ?t) (?t, w))"
      by (rule timer_rearm_inv) (auto intro: later inj)
    with Timer_set_interval inv show ?thesis by (simp add: Let_def timer_inv_def)
  next
    case (Timer_call i)
    show ?thesis
    proof (cases "i = current_function_id t")
      case True
      with ready Timer_call timer_call_function_inv [OF inv(1) _ inj] show ?thesis
        by (simp add: timer_ready_def)
    next
      case False
      with Timer_call inv show ?thesis by (simp add: timer_call_function_def timer_inv_def)
    qed
  next
    case (Timer_user f)
    with inv show ?thesis by (simp add: timer_inv_def)
  qed
qed

section \<open>Stopped timers\<close>

text \<open>
  After the closure of \<open>stop\<close> has run, no queued round has the present id, so none of them calls the
  user's function or goes on.
\<close>

lemma stopped_rounds_inert:
  assumes "timer_inv emb (t, w)" and "inj emb"
    and "run_timer emb oid src Timer_stop (t, w) = (c, (t', w'))"
    and "e \<in> set (queued w')" and "entry_function e = emb (Timer_call i)"
  shows "run_timer emb oid src' (Timer_call i) (t', w'') = (None, (t', w''))"
  using assms by (fastforce simp: timer_inv_def past_rounds_def timer_call_function_def)

text \<open>A round of the present id calls the function and comes back after an interval.\<close>

lemma round_calls_and_rearms:
  assumes "timer_function t = Some f" and "oid \<in> object_ids d" and "\<not> exiting d"
  shows "\<exists>d'. run_timer emb oid src (Timer_call (current_function_id t)) (t, Some d) = (None, (t, Some d'))
    \<and> set (queue d') = set (queue d) \<union>
        {\<lparr>object_id_value = oid, entry_function = emb (Timer_user f), entry_when = when_immediately\<rparr>,
         \<lparr>object_id_value = oid, entry_function = emb (Timer_call (current_function_id t)),
          entry_when = when_now src (Some d) + timer_interval t\<rparr>}"
proof -
  let ?n = "when_now src (Some d) + timer_interval t"
  obtain d1 where e1: "enqueue oid (emb (Timer_user f)) when_immediately d = (True, d1)"
    using assms(2,3) enqueue_accepted [of oid "emb (Timer_user f)" when_immediately d]
    by (metis prod.collapse)
  have d1: "oid \<in> object_ids d1" "\<not> exiting d1" "set (queue d1) = insert
      \<lparr>object_id_value = oid, entry_function = emb (Timer_user f), entry_when = when_immediately\<rparr>
      (set (queue d))"
    using assms(2,3) enqueue_fields [of oid "emb (Timer_user f)" when_immediately d] e1
      set_queue_enqueue [OF assms(2,3), of "emb (Timer_user f)" when_immediately] by simp_all
  obtain d2 where e2: "enqueue oid (emb (Timer_call (current_function_id t))) ?n d1 = (True, d2)"
    using d1 enqueue_accepted [of oid "emb (Timer_call (current_function_id t))" ?n d1]
    by (metis prod.collapse)
  have "when_now src (Some d1) = when_now src (Some d)"
    by (simp add: when_now_def)
  then have "run_timer emb oid src (Timer_call (current_function_id t)) (t, Some d)
      = (None, (t, Some d2))"
    using assms(1) e1 e2
    by (simp add: timer_call_function_def timer_rearm_def timer_enqueue_def enqueue_to_dispatcher_def)
  moreover have "set (queue d2) = set (queue d) \<union>
        {\<lparr>object_id_value = oid, entry_function = emb (Timer_user f), entry_when = when_immediately\<rparr>,
         \<lparr>object_id_value = oid, entry_function = emb (Timer_call (current_function_id t)),
          entry_when = ?n\<rparr>}"
    using set_queue_enqueue [OF d1(1,2), of "emb (Timer_call (current_function_id t))" ?n] e2 d1(3)
    by auto
  ultimately show ?thesis by blast
qed

end
