(* ===== verification/Dispatcher_Properties.thy ===== *)
theory Dispatcher_Properties
  imports Dispatcher_Cleanup Debounced_Task Dispatcher_Timer
begin

text \<open>
  The properties of the dispatcher and of the classes built on it, each with an application to a
  concrete state.
\<close>

section \<open>A dispatcher with one object\<close>

text \<open>The states the applications use: own id 1, an attached object 2, functions are numbers.\<close>

definition sample :: "nat dispatcher" where
  "sample = snd (attach 2 (initial_dispatcher 1))"

lemma sample_simps [simp]:
  "queue sample = []" "exiting sample = False" "object_ids sample = {1, 2}"
  "running_function_object_id sample = None" "own_object_id sample = 1"
  by (auto simp: sample_def initial_dispatcher_def attach_def)

lemma sample_sorted [simp]: "queue_sorted sample"
  by (simp add: queue_sorted_def)

section \<open>The queue\<close>



text \<open>The worker takes the head of the queue, never before its time, and nothing left is due earlier.\<close>

lemma worker_runs_due_in_order:
  assumes "queue_sorted d" and "worker_take src d = (Worker_run e, d')"
  shows "queue d = e # queue d' \<and>
    entry_when e \<le> (case src of None \<Rightarrow> when_immediately | Some n \<Rightarrow> max when_immediately n) \<and>
    (\<forall>e' \<in> set (queue d'). entry_when e \<le> entry_when e')"
  using worker_take_due [OF assms] assms(2) by (simp add: worker_take_run)

text \<open>
  C23. Functions enqueued without a delay run in the order in which they were enqueued, behind those
  that were due already and before all later ones.
\<close>

theorem immediate_functions_in_order:
  assumes "accepts_now oid d" and "length (pending_now d) + length fs \<le> n"
  shows "drain (take_now src) n (fold (enqueue_now oid) fs d) = pending_now d @ fs"
  using assms by (rule dispatch.drain_push_all)

theorem immediate_functions_in_order_witness:
  "drain (take_now None) 3 (fold (enqueue_now 2) [10, 20, 30] sample) = [10, 20, 30]"
  using immediate_functions_in_order [of 2 sample "[10, 20, 30]" 3 None]
  by (simp add: accepts_now_def pending_now_def)

section \<open>Detaching\<close>

text \<open>
  C6. Once \<open>detach\<close> has returned in a thread other than the worker, no function of the object is
  running, none is queued, and one that the worker took before is not called.
\<close>

theorem detached_object_is_quiet:
  assumes "reachable own s" and "oid \<in> gone s"
  shows "\<not> executes (worker s) oid \<and> (\<forall>e \<in> set (queue (disp s)). object_id_value e \<noteq> oid) \<and>
    (\<forall>e. object_id_value e = oid \<longrightarrow> call_function e (disp s) = None)"
  using gone_is_quiet [OF reachable_inv [OF assms(1)] assms(2)] by blast

text \<open>The object 2 attaches, enqueues a function, and detaches.\<close>

lemma sample_reachable: "reachable 1 \<lparr>disp = sample, worker = Idle, detaching = {}, gone = {}\<rparr>"
proof -
  have "client_step (initial_threads 1)
    (initial_threads 1\<lparr>disp := sample, gone := gone (initial_threads 1) - {2}\<rparr>)"
    using client_step.attaches [of 2 "initial_threads 1 :: nat threads" sample]
    by (simp add: sample_def initial_threads_def initial_dispatcher_def attach_def)
  from reachable.client [OF reachable.start this] show ?thesis
    by (simp add: initial_threads_def)
qed

theorem detached_object_is_quiet_witness:
  "\<exists>s :: nat threads. reachable 1 s \<and> 2 \<in> gone s \<and> \<not> executes (worker s) 2 \<and>
     (\<forall>e \<in> set (queue (disp s)). object_id_value e \<noteq> 2)"
proof -
  let ?s1 = "\<lparr>disp = sample, worker = Idle :: nat worker_pc, detaching = {}, gone = {}\<rparr>"
  let ?d = "snd (detach 2 sample)"
  let ?s2 = "?s1\<lparr>disp := ?d, detaching := insert 2 {}\<rparr>"
  let ?s3 = "?s2\<lparr>detaching := {2} - {2}, gone := {2}\<rparr>"
  have "client_step ?s1 ?s2"
    using client_step.detach_begins [of 2 ?s1 ?d] by (simp add: detach_def)
  moreover have "client_step ?s2 ?s3"
    using client_step.detach_returns [of 2 ?s2]
    by (simp add: detach_wait_over_def detach_def attached_def)
  ultimately have r: "reachable 1 ?s3"
    using sample_reachable by (blast intro: reachable.client)
  moreover have "2 \<in> gone ?s3" by simp
  ultimately have "reachable 1 ?s3 \<and> 2 \<in> gone ?s3 \<and> \<not> executes (worker ?s3) 2 \<and>
     (\<forall>e \<in> set (queue (disp ?s3)). object_id_value e \<noteq> 2)"
    using detached_object_is_quiet [of 1 ?s3 2] by blast
  then show ?thesis by blast
qed

text \<open>
  C24. A detach with a cleanup function comes to its end by steps of the worker alone.  From every
  reachable state the worker ends the wait for the function that is running; and from every reachable
  state in which a cleanup is queued and the dispatcher does not exit, whatever the worker is doing and
  however many cleanups are queued before it, the worker calls it.
\<close>

theorem detach_comes_to_an_end:
  assumes "reachable own s"
  shows "(\<exists>t. worker_step\<^sup>*\<^sup>* s t \<and> detach_wait_over False oid (disp t)) \<and>
    (\<forall>e \<in> set (queue (disp s)). entry_when e = when_internal_detached \<and> object_id_value e = own \<and>
       own \<in> object_ids (disp s) \<and> queue_sorted (disp s) \<and> \<not> exiting (disp s) \<longrightarrow>
       (\<exists>t. worker_step\<^sup>*\<^sup>* s t \<and> worker t = Executing e))"
proof (intro conjI ballI impI)
  show "\<exists>t. worker_step\<^sup>*\<^sup>* s t \<and> detach_wait_over False oid (disp t)"
  proof (cases "running_function_object_id (disp s)")
    case None
    then show ?thesis by (auto simp: detach_wait_over_def)
  next
    case (Some x)
    with worker_unmarks [OF reachable_inv [OF assms] this] show ?thesis
      by (auto simp: detach_wait_over_def)
  qed
next
  fix e
  assume e: "e \<in> set (queue (disp s))" and p: "entry_when e = when_internal_detached \<and> object_id_value e = own \<and>
       own \<in> object_ids (disp s) \<and> queue_sorted (disp s) \<and> \<not> exiting (disp s)"
  have "worker s \<noteq> Exited" using reachable_exited [OF assms] p by (auto simp: exited_inv_def)
  moreover have "entry_when e \<le> when_immediately" using p by (simp add: when_immediately_def when_internal_detached_def)
  ultimately obtain t where "worker_step\<^sup>*\<^sup>* s t" "worker t = Executing e"
    using immediate_executes [of s e] e p by blast
  then show "\<exists>t. worker_step\<^sup>*\<^sup>* s t \<and> worker t = Executing e" by blast
qed

text \<open>The object 2 detaches with the cleanup function 10 while its function 20 is queued.\<close>

definition sample_cleanup :: "nat threads" where
  "sample_cleanup = \<lparr>disp = snd (detach_with False 2 10 (snd (enqueue 2 20 when_immediately sample))),
     worker = Idle, detaching = {}, gone = {2}\<rparr>"

lemma sample_cleanup_queue:
  "disp sample_cleanup = sample\<lparr>object_ids := {1}, queue := [\<lparr>object_id_value = 1, entry_function = 10,
     entry_when = when_internal_detached\<rparr>]\<rparr>"
  by (simp add: sample_cleanup_def detach_with_def detach_def enqueue_def Let_def insert_Diff_if
      when_immediately_def when_internal_detached_def)

lemma sample_cleanup_reachable: "reachable 1 sample_cleanup"
proof -
  let ?s0 = "\<lparr>disp = sample, worker = Idle :: nat worker_pc, detaching = {}, gone = {}\<rparr>"
  let ?d1 = "snd (enqueue 2 20 when_immediately sample)"
  let ?s1 = "?s0\<lparr>disp := ?d1\<rparr>"
  let ?s2 = "?s1\<lparr>disp := snd (detach 2 ?d1), detaching := insert 2 (detaching ?s1)\<rparr>"
  let ?s3 = "?s2\<lparr>detaching := detaching ?s2 - {2},
    gone := (if attached 2 (disp ?s2) then gone ?s2 else insert 2 (gone ?s2))\<rparr>"
  let ?s4 = "?s3\<lparr>disp := snd (enqueue 1 10 when_internal_detached (disp ?s3))\<rparr>"
  have "client_step ?s0 ?s1"
    by (rule client_step.enqueues [of 2 20 when_immediately]) (simp add: enqueue_def Let_def)
  moreover have "client_step ?s1 ?s2"
    by (rule client_step.detach_begins [of 2]) (simp add: enqueue_def detach_def Let_def)
  moreover have "client_step ?s2 ?s3"
    by (rule client_step.detach_returns) (simp_all add: detach_wait_over_def enqueue_def detach_def Let_def)
  moreover have "client_step ?s3 ?s4"
    by (rule client_step.enqueues [of 1 10 when_internal_detached]) (simp add: enqueue_def detach_def Let_def)
  ultimately have "reachable 1 ?s4" using sample_reachable by (meson reachable.client)
  moreover have "?s4 = sample_cleanup"
    by (simp add: sample_cleanup_def attached_def detach_with_def detach_def enqueue_def Let_def)
  ultimately show ?thesis by simp
qed

theorem detach_comes_to_an_end_witness:
  "\<exists>t. worker_step\<^sup>*\<^sup>* sample_cleanup t \<and>
     worker t = Executing \<lparr>object_id_value = 1, entry_function = 10, entry_when = when_internal_detached\<rparr>"
  using detach_comes_to_an_end [OF sample_cleanup_reachable, of 2, THEN conjunct2]
  by (simp add: sample_cleanup_queue queue_sorted_def)

text \<open>
  C21. A \<open>terminate\<close> in another thread that comes between the two leaves the cleanup behind: once the
  dispatcher exits, the worker never again takes a function it is not at already, whatever it and any
  other threads do, and no function is accepted any more.  The thread in \<open>detach\<close>, which waits for its
  cleanup to notify it, waits forever.
\<close>

theorem terminate_strands_cleanup:
  assumes "exiting (disp s)" and "\<not> busy_with (worker s) e"
    and "(\<lambda>v w. worker_step v w \<or> client_step v w)\<^sup>*\<^sup>* s t"
  shows "\<not> busy_with (worker t) e \<and> \<not> fst (enqueue oid f when (disp t))"
  using exiting_steps [OF assms(3,1,2)] by (simp add: enqueue_accepted)

theorem terminate_strands_cleanup_witness:
  "\<exists>s e. reachable 1 (s :: nat threads) \<and> object_id_value e = 1 \<and> e \<in> set (queue (disp s)) \<and> 2 \<in> gone s \<and>
     (\<forall>t. (\<lambda>v w. worker_step v w \<or> client_step v w)\<^sup>*\<^sup>* s t \<longrightarrow> worker t \<noteq> Executing e)"
proof -
  let ?s = "sample_cleanup\<lparr>disp := terminate (disp sample_cleanup)\<rparr>"
  let ?e = "\<lparr>object_id_value = 1, entry_function = 10, entry_when = when_internal_detached\<rparr>"
  have "reachable 1 ?s" using sample_cleanup_reachable client_step.terminates by (rule reachable.client)
  moreover have "?e \<in> set (queue (disp ?s))" by (simp add: terminate_def sample_cleanup_queue)
  moreover have "worker t \<noteq> Executing ?e" if "(\<lambda>v w. worker_step v w \<or> client_step v w)\<^sup>*\<^sup>* ?s t" for t
    using terminate_strands_cleanup [of ?s ?e t 0 0 0] that
    by (auto simp: terminate_def sample_cleanup_def)
  moreover have "2 \<in> gone ?s" by (simp add: sample_cleanup_def)
  ultimately show ?thesis by (intro exI [of _ ?s] exI [of _ ?e]) auto
qed

section \<open>Object ids\<close>


section \<open>Debounced tasks\<close>

text \<open>
  Running a closure of a debounced task keeps at most one queued call armed, and disarms the one
  that was armed when a later request or a cancellation runs (as long as the 64-bit generation does
  not wrap around).
\<close>

lemma debounce_keeps_one_armed:
  assumes "debounce_inv emb (t, w)" and "inj emb"
    and "task_generation t + 1 \<noteq> 0" and "task_generation t + 2 \<noteq> 0"
    and "run_debounce emb oid fn (t, w) = (called, (t', w'))"
  shows "debounce_inv emb (t', w') \<and>
    (\<forall>f. (fn = Debounce_cancel \<or> (\<exists>g when. fn = Debounce_in_dispatcher g when)) \<longrightarrow>
       fst (run_debounce emb oid (Debounce_fire f (task_generation t)) (t', w')) = None)"
proof -
  have "task_generation t' \<noteq> task_generation t"
    if "fn = Debounce_cancel \<or> (\<exists>g when. fn = Debounce_in_dispatcher g when)"
    using that assms(5)
    by (auto simp: debounce_in_dispatcher_def Let_def split: prod.splits bool.splits)
  with run_debounce_inv [OF assms] show ?thesis by simp
qed

section \<open>Timers\<close>

text \<open>
  A timer has at most one chain of rounds: whatever closure of the timer the dispatcher runs, at most
  one queued round has the present function id.
\<close>

lemma timer_has_one_chain:
  assumes "timer_ready emb fn (t, w)" and "inj emb"
  shows "timer_inv emb (snd (run_timer emb oid src fn (t, w)))"
  using assms by (rule run_timer_inv)

text \<open>
  After the stop of a timer has run, the rounds still queued do nothing: no call of the user's
  function, and no next round.
\<close>

lemma stopped_timer_is_inert:
  assumes "timer_inv emb (t, w)" and "inj emb"
    and "run_timer emb oid src Timer_stop (t, w) = (c, (t', w'))"
    and "e \<in> set (queued w')" and "entry_function e = emb (Timer_call i)"
  shows "run_timer emb oid src' (Timer_call i) (t', w'') = (None, (t', w''))"
  using assms by (rule stopped_rounds_inert)

end
