(* ===== verification/Endpoint.thy ===== *)
theory Endpoint
  imports Prelude
begin

text \<open>
  \<open>helper.hpp\<close>: when the path of a local datagram endpoint names a file.  An endpoint
  (\<open>asio::local::datagram_protocol::endpoint\<close>) is its path: two endpoints are equal when their
  paths are, an unnamed socket has the empty path and an abstract one a path that starts with the
  zero character.
\<close>

datatype endpoint = Endpoint path

fun endpoint_path :: "endpoint \<Rightarrow> path" where
  "endpoint_path (Endpoint p) = p"

text \<open>\<open>non_empty_filesystem_endpoint_path(const std::string&)\<close>.\<close>

definition non_empty_filesystem_path :: "path \<Rightarrow> bool" where
  "non_empty_filesystem_path p =
     (if p = [] then False
      else if p ! 0 = CHR 0x00 then False
      else True)"

text \<open>\<open>non_empty_filesystem_endpoint_path(const endpoint&)\<close>.\<close>

definition non_empty_filesystem_endpoint_path :: "endpoint \<Rightarrow> bool" where
  "non_empty_filesystem_endpoint_path e = non_empty_filesystem_path (endpoint_path e)"

lemma non_empty_filesystem_endpoint_path_iff:
  "non_empty_filesystem_endpoint_path e \<longleftrightarrow>
     (\<exists>c cs. endpoint_path e = c # cs \<and> c \<noteq> CHR 0x00)"
  by (cases "endpoint_path e")
    (auto simp: non_empty_filesystem_endpoint_path_def non_empty_filesystem_path_def)

end
