(* ===== verification/Send_Entry.thy ===== *)
theory Send_Entry
  imports Endpoint Interfaces
begin

text \<open>
  \<open>impl/send_entry.hpp\<close>: one datagram that waits to be sent, with the count of its bytes that
  were transferred already and the count of \<open>no_buffer_space\<close> errors it met.  Its buffer starts
  with the type byte.  The callback \<open>processed\<close> is an opaque number (\<open>nullptr\<close> is \<open>None\<close>).
\<close>

datatype entry_type = Heartbeat | User_data

text \<open>The underlying value of the enumeration, and the value a received byte is read as.\<close>

fun type_byte :: "entry_type \<Rightarrow> u8" where
  "type_byte Heartbeat = 0"
| "type_byte User_data = 1"

definition type_of_byte :: "u8 \<Rightarrow> entry_type option" where
  "type_of_byte b = (if b = 0 then Some Heartbeat else if b = 1 then Some User_data else None)"

lemma type_of_byte_type_byte [simp]: "type_of_byte (type_byte t) = Some t"
  by (cases t) (simp_all add: type_of_byte_def)

type_synonym callback = nat

record send_entry =
  destination_endpoint :: "endpoint option"
  processed :: "callback option"
  bytes_transferred :: size_t
  no_buffer_space_error_count :: size_t
  buffer :: bytes

section \<open>Constructors\<close>

definition send_entry_plain ::
    "entry_type \<Rightarrow> endpoint option \<Rightarrow> callback option \<Rightarrow> send_entry" where
  "send_entry_plain t dest cb =
     \<lparr>destination_endpoint = dest, processed = cb, bytes_transferred = 0,
      no_buffer_space_error_count = 0, buffer = [type_byte t]\<rparr>"

definition send_entry_vector ::
    "entry_type \<Rightarrow> bytes \<Rightarrow> endpoint option \<Rightarrow> callback option \<Rightarrow> send_entry" where
  "send_entry_vector t v dest cb =
     \<lparr>destination_endpoint = dest, processed = cb, bytes_transferred = 0,
      no_buffer_space_error_count = 0, buffer = [type_byte t] @ v\<rparr>"

text \<open>
  The constructor from a pointer and a length.  The pointer is the memory it points at, \<open>None\<close>
  for the null pointer; reading past that memory is the caller's error, so the bytes taken are at
  most those there.
\<close>

definition send_entry_pointer ::
    "entry_type \<Rightarrow> bytes option \<Rightarrow> nat \<Rightarrow> endpoint option \<Rightarrow> callback option \<Rightarrow> send_entry" where
  "send_entry_pointer t p len dest cb =
     \<lparr>destination_endpoint = dest, processed = cb, bytes_transferred = 0,
      no_buffer_space_error_count = 0,
      buffer = [type_byte t] @
        (case p of None \<Rightarrow> [] | Some m \<Rightarrow> if len > 0 then take len m else [])\<rparr>"

section \<open>Operations\<close>

definition set_no_buffer_space_error_count :: "size_t \<Rightarrow> send_entry \<Rightarrow> send_entry" where
  "set_no_buffer_space_error_count n e = e\<lparr>no_buffer_space_error_count := n\<rparr>"

text \<open>The bytes the buffer returned by \<open>make_buffer\<close> designates.\<close>

definition make_buffer :: "send_entry \<Rightarrow> bytes" where
  "make_buffer e =
     (if vec_size (buffer e) \<le> bytes_transferred e then []
      else take (unat (vec_size (buffer e) - bytes_transferred e))
             (drop (unat (bytes_transferred e)) (buffer e)))"

definition add_bytes_transferred :: "size_t \<Rightarrow> send_entry \<Rightarrow> send_entry" where
  "add_bytes_transferred n e = e\<lparr>bytes_transferred := bytes_transferred e + n\<rparr>"

definition rest_bytes :: "send_entry \<Rightarrow> size_t" where
  "rest_bytes e =
     (if vec_size (buffer e) \<le> bytes_transferred e then 0
      else vec_size (buffer e) - bytes_transferred e)"

definition transfer_complete :: "send_entry \<Rightarrow> bool" where
  "transfer_complete e \<longleftrightarrow> vec_size (buffer e) \<le> bytes_transferred e"

section \<open>Well-formed entries\<close>

text \<open>The buffer holds at least the type byte, and fits the address space.\<close>

definition entry_wf :: "send_entry \<Rightarrow> bool" where
  "entry_wf e \<longleftrightarrow> buffer e \<noteq> [] \<and> fits (buffer e)"

lemma entry_wf_constructors:
  "entry_wf (send_entry_plain t d p)"
  "fits (1 # v :: bytes) \<Longrightarrow> entry_wf (send_entry_vector t v d p)"
  "(\<And>v. m = Some v \<Longrightarrow> fits (1 # v :: bytes)) \<Longrightarrow> entry_wf (send_entry_pointer t m n d p)"
  by (auto simp: entry_wf_def fits_def send_entry_plain_def send_entry_vector_def
      send_entry_pointer_def split: option.splits)

lemma add_bytes_transferred_fields [simp, entry_simps]:
  "buffer (add_bytes_transferred n e) = buffer e"
  "processed (add_bytes_transferred n e) = processed e"
  "destination_endpoint (add_bytes_transferred n e) = destination_endpoint e"
  "no_buffer_space_error_count (add_bytes_transferred n e) = no_buffer_space_error_count e"
  "bytes_transferred (add_bytes_transferred n e) = bytes_transferred e + n"
  by (simp_all add: add_bytes_transferred_def)

lemma set_no_buffer_space_error_count_fields [simp, entry_simps]:
  "buffer (set_no_buffer_space_error_count n e) = buffer e"
  "processed (set_no_buffer_space_error_count n e) = processed e"
  "destination_endpoint (set_no_buffer_space_error_count n e) = destination_endpoint e"
  "no_buffer_space_error_count (set_no_buffer_space_error_count n e) = n"
  "bytes_transferred (set_no_buffer_space_error_count n e) = bytes_transferred e"
  by (simp_all add: set_no_buffer_space_error_count_def)

lemma entry_wf_operations [simp]:
  "entry_wf (add_bytes_transferred n e) = entry_wf e"
  "entry_wf (set_no_buffer_space_error_count n e) = entry_wf e"
  by (simp_all add: entry_wf_def)

lemma make_buffer_drop:
  assumes "entry_wf e"
  shows "make_buffer e = drop (unat (bytes_transferred e)) (buffer e)"
proof (cases "vec_size (buffer e) \<le> bytes_transferred e")
  case True
  with assms show ?thesis
    by (simp add: make_buffer_def entry_wf_def vec_size_le_iff)
next
  case False
  then have "unat (vec_size (buffer e) - bytes_transferred e)
      = length (buffer e) - unat (bytes_transferred e)"
    using assms by (simp add: entry_wf_def unat_sub_if_size word_le_nat_alt)
  with False show ?thesis by (simp add: make_buffer_def)
qed

lemma rest_bytes_length:
  "entry_wf e \<Longrightarrow> unat (rest_bytes e) = length (make_buffer e)"
  by (auto simp: make_buffer_drop rest_bytes_def entry_wf_def vec_size_le_iff unat_sub_if_size
      word_le_nat_alt)

lemma transfer_complete_iff:
  "entry_wf e \<Longrightarrow> transfer_complete e \<longleftrightarrow> make_buffer e = []"
  by (simp add: make_buffer_drop transfer_complete_def entry_wf_def vec_size_le_iff)

lemma rest_bytes_completes [simp]:
  "transfer_complete (add_bytes_transferred (rest_bytes e) e)"
  by (simp add: transfer_complete_def rest_bytes_def)

lemma add_bytes_transferred_buffer:
  assumes wf: "entry_wf e" and le: "n \<le> rest_bytes e"
  shows "make_buffer (add_bytes_transferred n e) = drop (unat n) (make_buffer e)"
proof (cases "vec_size (buffer e) \<le> bytes_transferred e")
  case True
  with le have "n = 0" by (simp add: rest_bytes_def)
  then show ?thesis by (simp add: add_bytes_transferred_def)
next
  case False
  have "unat n \<le> unat (rest_bytes e)"
    using le by (simp add: word_le_nat_alt)
  also have "\<dots> = length (buffer e) - unat (bytes_transferred e)"
    using wf by (simp add: rest_bytes_length make_buffer_drop)
  finally have "unat (bytes_transferred e) + unat n \<le> length (buffer e)"
    using False wf by (simp add: vec_size_le_iff entry_wf_def)
  then have "unat (bytes_transferred e + n) = unat (bytes_transferred e) + unat n"
    using wf by (simp add: unat_word_ariths entry_wf_def fits_def)
  with wf show ?thesis
    by (simp add: make_buffer_drop add.commute)
qed

section \<open>An entry as a transfer\<close>

text \<open>What a socket reports as transferred is added to the entry as a \<open>size_t\<close>.\<close>

definition acknowledge :: "nat \<Rightarrow> send_entry \<Rightarrow> send_entry" where
  "acknowledge n e = add_bytes_transferred (of_nat n) e"

lemma acknowledge_buffer:
  assumes "entry_wf e" and "n \<le> length (make_buffer e)"
  shows "make_buffer (acknowledge n e) = drop n (make_buffer e)"
proof -
  have "n < 2 ^ 64"
    using assms by (auto simp: make_buffer_drop entry_wf_def fits_def)
  then have n: "unat (of_nat n :: size_t) = n"
    by (simp add: unat_of_nat)
  then have "(of_nat n :: size_t) \<le> rest_bytes e"
    using assms by (simp add: word_le_nat_alt rest_bytes_length)
  with assms(1) n show ?thesis
    by (simp add: acknowledge_def add_bytes_transferred_buffer)
qed

interpretation entry: transfer make_buffer acknowledge transfer_complete entry_wf
  by unfold_locales (simp_all add: acknowledge_def [symmetric] acknowledge_buffer
      transfer_complete_iff, simp add: acknowledge_def)

end
