(* ===== verification/Io_Context.thy ===== *)
theory Io_Context
  imports Send_Entry Dispatcher_Timer
begin

text \<open>
  What the socket implementations use of asio, and the state they keep.

  An implementation object owns an io context with one thread.  The thread runs the handlers of
  the ready queue in order of arrival (vendored \<open>asio/detail/impl/scheduler.ipp\<close>); a completed or
  cancelled asynchronous operation puts its handler at the end of that queue.  Each C++ lambda given
  to \<open>asio::post\<close> or to an asynchronous operation is a constructor of \<open>io_handler\<close>, with what the
  lambda captures as arguments; each function given to \<open>enqueue_to_dispatcher\<close> is one of
  \<open>impl_task\<close>.  \<open>dispatched\<close> is the sequence of these calls in order, which the dispatcher runs
  in that order (interpretation \<open>dispatch\<close> of \<open>fifo_queue\<close>).
\<close>

section \<open>Handlers and tasks\<close>

text \<open>Send entries are shared by pointer: the queue and a pending operation hold references.\<close>

type_synonym entry_ref = nat

record connect_params =
  server_socket_file_path :: path
  client_socket_file_path :: "path option"
  connect_buffer_size :: size_t
  server_check_interval :: "millis option"
  next_heartbeat_deadline :: "millis option"
  client_socket_check_interval :: "millis option"

datatype io_handler =
    Io_close
  | Io_send entry_ref
  | Io_received error_code size_t
  | Io_sent error_code size_t entry_ref
  | Io_invoker error_code
  | Io_deadline error_code
  | Io_reset_work_guard
  | Io_connect connect_params
  | Io_connected error_code connect_params
  | Io_heartbeat "millis option"
  | Io_check_client_socket path
  | Io_drop_client_socket_probe
  | Io_bind path size_t "millis option"
  | Io_check_server path
  | Io_drop_server_probe

datatype impl_task =
    Warning_reported string
  | Bound
  | Bind_failed error_code
  | Received bytes endpoint
  | Closed
  | Heartbeat_received u64 millis endpoint
  | Error_occurred error_code
  | Processed callback
  | Connected "int option"
  | Connect_failed error_code
  | Server_check_timer "io_handler timer_fun"
  | Client_socket_check_timer "io_handler timer_fun"

section \<open>State\<close>

datatype mode = Server | Client

record socket =
  receive_buffer_size :: size_t
  send_buffer_size :: size_t

text \<open>\<open>asio::steady_timer\<close>: its expiry and the number of waits pending on it.\<close>

record steady_timer =
  expiry :: time_point
  waits :: nat

text \<open>
  \<open>base_impl\<close>.  The fields up to \<open>work_guard\<close> are members of the class, but for the heartbeat timers,
  which belong to the dispatcher's thread (theory \<open>Heartbeat_Timers\<close>).  The others are the state of
  asio and of the environment: the ready queue, the pending operations (a pending send with the bytes and the
  destination it was started with), the shared entries, the files, the steady clock and the calls
  made to the dispatcher.
\<close>

record base_impl =
  impl_mode :: mode
  send_entries :: "entry_ref list"
  impl_socket :: "socket option"
  socket_ready :: bool
  bound_path :: path
  receive_buffer :: bytes
  receive_sender_endpoint :: endpoint
  timers_generation :: u64
  send_invoker :: steady_timer
  send_deadline :: steady_timer
  work_guard :: bool
  io_ready :: "io_handler list"
  receiving :: nat
  sending :: "(entry_ref \<times> bytes \<times> endpoint option) list"
  connecting :: "connect_params list"
  entry_store :: "entry_ref \<Rightarrow> send_entry"
  files :: "path set"
  steady_clock :: int
  dispatched :: "impl_task list"

section \<open>The io context\<close>

definition post :: "io_handler \<Rightarrow> 'z base_impl_scheme \<Rightarrow> 'z base_impl_scheme" where
  "post h s = s\<lparr>io_ready := io_ready s @ [h]\<rparr>"

definition post_all :: "io_handler list \<Rightarrow> 'z base_impl_scheme \<Rightarrow> 'z base_impl_scheme" where
  "post_all hs s = s\<lparr>io_ready := io_ready s @ hs\<rparr>"

definition next_handler :: "'z base_impl_scheme \<Rightarrow> (io_handler \<times> 'z base_impl_scheme) option" where
  "next_handler s = (case io_ready s of [] \<Rightarrow> None | h # hs \<Rightarrow> Some (h, s\<lparr>io_ready := hs\<rparr>))"

interpretation io: fifo_queue post next_handler io_ready "\<lambda>_. True"
  by unfold_locales (simp_all add: post_def next_handler_def)

definition dispatch_task :: "impl_task \<Rightarrow> 'z base_impl_scheme \<Rightarrow> 'z base_impl_scheme" where
  "dispatch_task t s = s\<lparr>dispatched := dispatched s @ [t]\<rparr>"

section \<open>Steady timers\<close>

text \<open>
  Cancelling a timer, and setting its expiry, completes the pending waits with
  \<open>operation_aborted\<close>.
\<close>

definition invoker_cancel :: "'z base_impl_scheme \<Rightarrow> 'z base_impl_scheme" where
  "invoker_cancel s =
     s\<lparr>send_invoker := (send_invoker s)\<lparr>waits := 0\<rparr>,
       io_ready := io_ready s @ replicate (waits (send_invoker s)) (Io_invoker Operation_aborted)\<rparr>"

definition invoker_expires_at :: "time_point \<Rightarrow> 'z base_impl_scheme \<Rightarrow> 'z base_impl_scheme" where
  "invoker_expires_at tp s =
     (let s' = invoker_cancel s in s'\<lparr>send_invoker := (send_invoker s')\<lparr>expiry := tp\<rparr>\<rparr>)"

definition invoker_wait :: "'z base_impl_scheme \<Rightarrow> 'z base_impl_scheme" where
  "invoker_wait s = s\<lparr>send_invoker := (send_invoker s)\<lparr>waits := waits (send_invoker s) + 1\<rparr>\<rparr>"

definition deadline_cancel :: "'z base_impl_scheme \<Rightarrow> 'z base_impl_scheme" where
  "deadline_cancel s =
     s\<lparr>send_deadline := (send_deadline s)\<lparr>waits := 0\<rparr>,
       io_ready := io_ready s @ replicate (waits (send_deadline s)) (Io_deadline Operation_aborted)\<rparr>"

definition deadline_expires_at :: "time_point \<Rightarrow> 'z base_impl_scheme \<Rightarrow> 'z base_impl_scheme" where
  "deadline_expires_at tp s =
     (let s' = deadline_cancel s in s'\<lparr>send_deadline := (send_deadline s')\<lparr>expiry := tp\<rparr>\<rparr>)"

definition deadline_wait :: "'z base_impl_scheme \<Rightarrow> 'z base_impl_scheme" where
  "deadline_wait s = s\<lparr>send_deadline := (send_deadline s)\<lparr>waits := waits (send_deadline s) + 1\<rparr>\<rparr>"

text \<open>\<open>expires_after\<close> counts from the clock.\<close>

definition after :: "millis \<Rightarrow> 'z base_impl_scheme \<Rightarrow> time_point" where
  "after d s = clock_after (steady_clock s) d"

section \<open>Sockets\<close>

text \<open>
  Cancelling the operations of a socket completes the pending ones with \<open>operation_aborted\<close>; a
  handler that is in the ready queue already keeps its result.
\<close>

definition socket_cancel :: "'z base_impl_scheme \<Rightarrow> 'z base_impl_scheme" where
  "socket_cancel s =
     s\<lparr>receiving := 0, sending := [], connecting := [],
       io_ready := io_ready s
         @ replicate (receiving s) (Io_received Operation_aborted 0)
         @ map (Io_connected Operation_aborted) (connecting s)
         @ map (\<lambda>(r, _). Io_sent Operation_aborted 0 r) (sending s)\<rparr>"

text \<open>The object as its constructor leaves it, over a given store, file system and clock.\<close>

definition new_base_impl ::
    "mode \<Rightarrow> entry_ref list \<Rightarrow> (entry_ref \<Rightarrow> send_entry) \<Rightarrow> path set \<Rightarrow> int \<Rightarrow> base_impl" where
  "new_base_impl m entries store fs now =
     \<lparr>impl_mode = m, send_entries = entries, impl_socket = None, socket_ready = False,
      bound_path = [], receive_buffer = [], receive_sender_endpoint = Endpoint [],
      timers_generation = 0,
      send_invoker = \<lparr>expiry = pos_infin, waits = 0\<rparr>,
      send_deadline = \<lparr>expiry = pos_infin, waits = 0\<rparr>,
      work_guard = True, io_ready = [], receiving = 0, sending = [], connecting = [],
      entry_store = store, files = fs, steady_clock = now, dispatched = []\<rparr>"

lemmas io_defs [impl_simps] = post_def post_all_def dispatch_task_def invoker_cancel_def invoker_expires_at_def
  invoker_wait_def deadline_cancel_def deadline_expires_at_def deadline_wait_def after_def
  socket_cancel_def clock_after_def pos_infin_def Let_def

end
