(* ===== verification/Base_Impl.thy ===== *)
theory Base_Impl
  imports Io_Context
begin

text \<open>
  \<open>impl/base_impl.hpp\<close>: opening up, the sender, the receiver and the shutdown of a datagram socket,
  as the handlers of its io context.  The heartbeat timers, which live in the dispatcher's thread,
  are in theory \<open>Heartbeat_Timers\<close>.
\<close>

section \<open>Closing\<close>

definition async_close :: "'z base_impl_scheme \<Rightarrow> 'z base_impl_scheme" where
  "async_close s = post Io_close s"

text \<open>\<open>socket_ && socket_ready_\<close>, the guard of every handler.\<close>

definition live :: "'z base_impl_scheme \<Rightarrow> bool" where
  "live s \<longleftrightarrow> impl_socket s \<noteq> None \<and> socket_ready s"

definition remove_bound_path :: "'z base_impl_scheme \<Rightarrow> 'z base_impl_scheme" where
  "remove_bound_path s =
     (if bound_path s \<noteq> [] then s\<lparr>files := files s - {bound_path s}, bound_path := []\<rparr> else s)"

text \<open>The handler \<open>async_close\<close> posts.\<close>

definition close_handler :: "'z base_impl_scheme \<Rightarrow> 'z base_impl_scheme" where
  "close_handler s =
     (case impl_socket s of
        None \<Rightarrow> s
      | Some _ \<Rightarrow>
          let s1 = (socket_cancel s)\<lparr>impl_socket := None\<rparr>;
              s2 = deadline_cancel (invoker_cancel s1)
          in if socket_ready s2
             then dispatch_task Closed
                    (remove_bound_path
                      (s2\<lparr>socket_ready := False, timers_generation := timers_generation s2 + 1\<rparr>))
             else s2)"

text \<open>\<open>terminate_base_impl\<close> posts the reset of the work guard and joins the thread.\<close>

definition terminate_base_impl :: "'z base_impl_scheme \<Rightarrow> 'z base_impl_scheme" where
  "terminate_base_impl s = post Io_reset_work_guard s"

definition reset_work_guard :: "'z base_impl_scheme \<Rightarrow> 'z base_impl_scheme" where
  "reset_work_guard s = s\<lparr>work_guard := False\<rparr>"

text \<open>The thread leaves \<open>io_context::run\<close> when nothing is left to do.\<close>

definition io_stopped :: "'z base_impl_scheme \<Rightarrow> bool" where
  "io_stopped s \<longleftrightarrow> \<not> work_guard s \<and> io_ready s = [] \<and> receiving s = 0 \<and> sending s = [] \<and>
     connecting s = [] \<and> waits (send_invoker s) = 0 \<and> waits (send_deadline s) = 0"

section \<open>Socket options\<close>

text \<open>
  \<open>set_option\<close> throws when the system refuses the value (\<open>accepted\<close> is \<open>False\<close>): the exception
  leaves the thread's function, which ends the program.
\<close>

datatype io_error = Uncaught_exception

definition buffer_margin :: size_t where
  "buffer_margin = 32"

definition resize :: "size_t \<Rightarrow> bytes \<Rightarrow> bytes" where
  "resize n v = take (unat n) v @ replicate (unat n - length v) 0"

definition set_socket_options ::
    "size_t \<Rightarrow> bool \<Rightarrow> 'z base_impl_scheme \<Rightarrow> io_error + 'z base_impl_scheme" where
  "set_socket_options buffer_size accepted s =
     (case impl_socket s of
        None \<Rightarrow> Inr s
      | Some k \<Rightarrow>
          let buf = resize (buffer_size + buffer_margin) (receive_buffer s) in
          if accepted
          then Inr (s\<lparr>receive_buffer := buf,
                      impl_socket := Some (k\<lparr>receive_buffer_size := vec_size buf,
                                             send_buffer_size := buffer_size + 1\<rparr>)\<rparr>)
          else Inl Uncaught_exception)"

section \<open>The sender\<close>

definition async_send :: "entry_ref \<Rightarrow> 'z base_impl_scheme \<Rightarrow> 'z base_impl_scheme" where
  "async_send r s = post (Io_send r) s"

text \<open>The handler \<open>async_send\<close> posts: append, and wake the sender up.\<close>

definition send_handler :: "entry_ref \<Rightarrow> 'z base_impl_scheme \<Rightarrow> 'z base_impl_scheme" where
  "send_handler r s =
     (let s' = s\<lparr>send_entries := send_entries s @ [r]\<rparr> in invoker_expires_at (after 0 s') s')"

text \<open>
  \<open>async_send_to\<close> with a destination, \<open>async_send\<close> on the connected socket without one; both start one
  operation with the bytes left over.
\<close>

definition start_send :: "entry_ref \<Rightarrow> 'z base_impl_scheme \<Rightarrow> 'z base_impl_scheme" where
  "start_send r s =
     s\<lparr>sending := sending s
         @ [(r, make_buffer (entry_store s r), destination_endpoint (entry_store s r))]\<rparr>"

definition await_send_entry :: "millis option \<Rightarrow> 'z base_impl_scheme \<Rightarrow> 'z base_impl_scheme" where
  "await_send_entry delay s =
     (if \<not> live s then s
      else if delay \<noteq> None \<or> send_entries s = [] then
        invoker_wait
          (case delay of
             Some d \<Rightarrow> invoker_expires_at (after d s) s
           | None \<Rightarrow> invoker_expires_at pos_infin s)
      else start_send (hd (send_entries s)) (deadline_expires_at (after 5000 s) s))"

definition pop_front_send_entry :: "'z base_impl_scheme \<Rightarrow> 'z base_impl_scheme" where
  "pop_front_send_entry s =
     (case send_entries s of
        [] \<Rightarrow> s
      | r # rs \<Rightarrow>
          (case processed (entry_store s r) of
             Some c \<Rightarrow> dispatch_task (Processed c)
           | None \<Rightarrow> id) (s\<lparr>send_entries := rs\<rparr>))"

definition update_entry ::
    "entry_ref \<Rightarrow> (send_entry \<Rightarrow> send_entry) \<Rightarrow> 'z base_impl_scheme \<Rightarrow> 'z base_impl_scheme" where
  "update_entry r f s = s\<lparr>entry_store := (entry_store s)(r := f (entry_store s r))\<rparr>"

text \<open>Drop an entry: count all its bytes as transferred.\<close>

definition drop_entry :: "send_entry \<Rightarrow> send_entry" where
  "drop_entry e = add_bytes_transferred (rest_bytes e) e"

text \<open>
  One more \<open>no_buffer_space\<close> error of an entry: whether it is to be given up.
\<close>

definition count_no_buffer_space :: "send_entry \<Rightarrow> send_entry" where
  "count_no_buffer_space e =
     set_no_buffer_space_error_count (no_buffer_space_error_count e + 1) e"

definition gives_up :: "send_entry \<Rightarrow> bool" where
  "gives_up e \<longleftrightarrow> no_buffer_space_error_count e > 10 \<and>
     (bytes_transferred e = 0 \<or> no_buffer_space_error_count e > 100)"

definition handle_no_buffer_space ::
    "entry_ref \<Rightarrow> 'z base_impl_scheme \<Rightarrow> 'z base_impl_scheme" where
  "handle_no_buffer_space r s =
     (let s' = update_entry r count_no_buffer_space s in
      if gives_up (entry_store s' r)
      then dispatch_task (Error_occurred No_buffer_space) (update_entry r drop_entry s')
      else s')"

text \<open>The end of \<open>handle_send\<close>, which the last kind of error of a client does not reach.\<close>

definition finish_send ::
    "entry_ref \<Rightarrow> millis option \<Rightarrow> 'z base_impl_scheme \<Rightarrow> 'z base_impl_scheme" where
  "finish_send r next_delay s =
     await_send_entry next_delay
       (if transfer_complete (entry_store s r) then pop_front_send_entry s else s)"

definition handle_send ::
    "error_code \<Rightarrow> size_t \<Rightarrow> entry_ref \<Rightarrow> 'z base_impl_scheme \<Rightarrow> 'z base_impl_scheme" where
  "handle_send ec n r s =
     (let s1 = deadline_expires_at pos_infin (update_entry r (add_bytes_transferred n) s) in
      if ec = No_buffer_space then
        finish_send r (Some 100) (handle_no_buffer_space r s1)
      else if ec = Message_size then
        finish_send r None (dispatch_task (Error_occurred ec) (update_entry r drop_entry s1))
      else if is_error ec then
        (if impl_mode s1 = Server then finish_send r None (update_entry r drop_entry s1)
         else async_close (dispatch_task (Error_occurred ec) s1))
      else finish_send r None s1)"

definition check_send_deadline :: "'z base_impl_scheme \<Rightarrow> 'z base_impl_scheme" where
  "check_send_deadline s =
     (if \<not> live s then s
      else if expiry (send_deadline s) < clock_now (steady_clock s) then async_close s
      else deadline_wait s)"

section \<open>The receiver\<close>

definition async_receive :: "'z base_impl_scheme \<Rightarrow> 'z base_impl_scheme" where
  "async_receive s = (if \<not> live s then s else s\<lparr>receiving := receiving s + 1\<rparr>)"

text \<open>
  The received datagram: \<open>n\<close> bytes at the front of the buffer.  \<open>dec\<close> is how \<open>memcpy\<close> reads a
  \<open>uint32_t\<close> on the platform (locale \<open>byte_order\<close>).
\<close>

definition receive_datagram ::
    "(bytes \<Rightarrow> u32) \<Rightarrow> size_t \<Rightarrow> 'z base_impl_scheme \<Rightarrow> 'z base_impl_scheme" where
  "receive_datagram dec n s =
     (case type_of_byte (receive_buffer s ! 0) of
        Some Heartbeat \<Rightarrow>
          if n - 1 \<ge> 4 then
            let deadline = dec (take 4 (drop 1 (receive_buffer s))) in
            if deadline > 0 then
              if \<not> non_empty_filesystem_endpoint_path (receive_sender_endpoint s) then
                dispatch_task (Warning_reported
                  ''sender endpoint is required when next_heartbeat_deadline is specified'') s
              else
                dispatch_task (Heartbeat_received (timers_generation s) (uint deadline)
                  (receive_sender_endpoint s)) s
            else s
          else s
      | Some User_data \<Rightarrow>
          dispatch_task (Received (take (unat (n - 1)) (drop 1 (receive_buffer s)))
            (receive_sender_endpoint s)) s
      | None \<Rightarrow> s)"

definition receive_handler ::
    "(bytes \<Rightarrow> u32) \<Rightarrow> error_code \<Rightarrow> size_t \<Rightarrow> 'z base_impl_scheme \<Rightarrow> 'z base_impl_scheme" where
  "receive_handler dec ec n s =
     (let s' = (if \<not> is_error ec then (if n > 0 then receive_datagram dec n s else s) else s)
      in if socket_ready s' then async_receive s' else s')"

section \<open>Start\<close>

definition start_actors :: "'z base_impl_scheme \<Rightarrow> 'z base_impl_scheme" where
  "start_actors s =
     (let s1 = deadline_expires_at pos_infin (await_send_entry None s);
          s2 = (if impl_mode s1 = Client then check_send_deadline s1 else s1)
      in async_receive s2)"

section \<open>The handlers of the base class\<close>

text \<open>\<open>None\<close>: a handler of a derived class.\<close>

fun run_base_handler ::
    "(bytes \<Rightarrow> u32) \<Rightarrow> io_handler \<Rightarrow> 'z base_impl_scheme \<Rightarrow> 'z base_impl_scheme option" where
  "run_base_handler dec Io_close s = Some (close_handler s)"
| "run_base_handler dec (Io_send r) s = Some (send_handler r s)"
| "run_base_handler dec (Io_received ec n) s = Some (receive_handler dec ec n s)"
| "run_base_handler dec (Io_sent ec n r) s = Some (handle_send ec n r s)"
| "run_base_handler dec (Io_invoker ec) s = Some (await_send_entry None s)"
| "run_base_handler dec (Io_deadline ec) s = Some (check_send_deadline s)"
| "run_base_handler dec Io_reset_work_guard s = Some (reset_work_guard s)"
| "run_base_handler dec _ s = None"

end
