(* ===== verification/Base_Sender.thy ===== *)
theory Base_Sender
  imports Base_Impl
begin

text \<open>
  The sender of \<open>base_impl\<close> as a state machine: the handlers of the io context, interleaved with
  what the socket, the timers and other threads do.  The invariant says that the sender is one
  loop: while the socket is live there is exactly one operation or handler that goes on with it, it
  works on the front of the queue, and it never sleeps without a deadline while something is queued.
\<close>

section \<open>Steps\<close>

fun refers :: "io_handler \<Rightarrow> entry_ref \<Rightarrow> bool" where
  "refers (Io_send r') r = (r' = r)"
| "refers (Io_sent ec n r') r = (r' = r)"
| "refers _ r = False"

text \<open>A new entry is a new object: nothing refers to it yet.\<close>

definition fresh_entry :: "entry_ref \<Rightarrow> 'z base_impl_scheme \<Rightarrow> bool" where
  "fresh_entry r s \<longleftrightarrow> r \<notin> set (send_entries s) \<and> (\<forall>p \<in> set (sending s). fst p \<noteq> r) \<and>
     (\<forall>h \<in> set (io_ready s). \<not> refers h r)"

inductive base_step ::
    "(bytes \<Rightarrow> u32) \<Rightarrow> 'z base_impl_scheme \<Rightarrow> 'z base_impl_scheme \<Rightarrow> bool" for dec where
  handler: "next_handler s = Some (h, s') \<Longrightarrow> run_base_handler dec h s' = Some t \<Longrightarrow>
    base_step dec s t"
| receives: "receiving s > 0 \<Longrightarrow> length v \<le> length (receive_buffer s) \<Longrightarrow>
    base_step dec s (post (Io_received Success (vec_size v))
      (s\<lparr>receiving := receiving s - 1, receive_buffer := v @ drop (length v) (receive_buffer s),
         receive_sender_endpoint := ep\<rparr>))"
| receive_fails: "receiving s > 0 \<Longrightarrow> is_error ec \<Longrightarrow>
    base_step dec s (post (Io_received ec 0) (s\<lparr>receiving := receiving s - 1\<rparr>))"
| sends: "sending s = ps @ (r, v, dest) # qs \<Longrightarrow> n \<le> length v \<Longrightarrow>
    base_step dec s (post (Io_sent ec (of_nat n) r) (s\<lparr>sending := ps @ qs\<rparr>))"
| invoker_fires: "waits (send_invoker s) > 0 \<Longrightarrow>
    expiry (send_invoker s) \<le> clock_now (steady_clock s) \<Longrightarrow>
    base_step dec s (post (Io_invoker Success)
      (s\<lparr>send_invoker := (send_invoker s)\<lparr>waits := waits (send_invoker s) - 1\<rparr>\<rparr>))"
| deadline_fires: "waits (send_deadline s) > 0 \<Longrightarrow>
    expiry (send_deadline s) \<le> clock_now (steady_clock s) \<Longrightarrow>
    base_step dec s (post (Io_deadline Success)
      (s\<lparr>send_deadline := (send_deadline s)\<lparr>waits := waits (send_deadline s) - 1\<rparr>\<rparr>))"
| ticks: "d \<ge> 0 \<Longrightarrow> base_step dec s (s\<lparr>steady_clock := steady_clock s + d\<rparr>)"
| client_sends: "fresh_entry r s \<Longrightarrow> entry_wf e \<Longrightarrow>
    base_step dec s (async_send r (s\<lparr>entry_store := (entry_store s)(r := e)\<rparr>))"
| client_closes: "base_step dec s (async_close s)"
| client_terminates: "base_step dec s (terminate_base_impl s)"

inductive base_steps ::
    "(bytes \<Rightarrow> u32) \<Rightarrow> 'z base_impl_scheme \<Rightarrow> 'z base_impl_scheme \<Rightarrow> bool" for dec where
  none: "base_steps dec s s"
| more: "base_steps dec s t \<Longrightarrow> base_step dec t u \<Longrightarrow> base_steps dec s u"

section \<open>The loop of the sender\<close>

text \<open>The handlers that go on with the sender, and the entries of the posted \<open>async_send\<close>s.\<close>

fun goes_on :: "io_handler \<Rightarrow> bool" where
  "goes_on (Io_sent ec n r) = True"
| "goes_on (Io_invoker ec) = True"
| "goes_on _ = False"

fun posted :: "io_handler list \<Rightarrow> entry_ref list" where
  "posted [] = []"
| "posted (Io_send r # hs) = r # posted hs"
| "posted (_ # hs) = posted hs"

lemma posted_append [simp]: "posted (hs @ hs') = posted hs @ posted hs'"
  by (induction hs rule: posted.induct) simp_all

lemma posted_replicate [simp]:
  "posted (replicate n (Io_invoker ec)) = []" "posted (replicate n (Io_deadline ec)) = []"
  "posted (replicate n (Io_received ec k)) = []"
  by (induction n) simp_all

lemma posted_map [simp]:
  "posted (map (\<lambda>(r, p). Io_sent ec n r) xs) = []" "posted (map (Io_connected ec) cs) = []"
  by (induction xs, simp_all add: split_beta) (induction cs, simp_all)

lemma set_posted: "r \<in> set (posted hs) \<longleftrightarrow> Io_send r \<in> set hs"
  by (induction hs rule: posted.induct) auto

definition loops :: "'z base_impl_scheme \<Rightarrow> nat" where
  "loops s = length (sending s) + waits (send_invoker s) + length (filter goes_on (io_ready s))"

text \<open>The entries queued and about to be queued are distinct objects with a well-formed buffer.\<close>

definition entries_ok :: "'z base_impl_scheme \<Rightarrow> bool" where
  "entries_ok s \<longleftrightarrow> distinct (send_entries s @ posted (io_ready s)) \<and>
     (\<forall>r \<in> set (send_entries s @ posted (io_ready s)). entry_wf (entry_store s r))"

definition at_front :: "entry_ref \<Rightarrow> 'z base_impl_scheme \<Rightarrow> bool" where
  "at_front r s \<longleftrightarrow> send_entries s \<noteq> [] \<and> hd (send_entries s) = r"

text \<open>A pending send carries the bytes left over of the front entry, to its destination.\<close>

definition sends_front :: "'z base_impl_scheme \<Rightarrow> bool" where
  "sends_front s \<longleftrightarrow>
     (\<forall>r v dest. (r, v, dest) \<in> set (sending s) \<longrightarrow>
        at_front r s \<and> v = make_buffer (entry_store s r)
        \<and> dest = destination_endpoint (entry_store s r)) \<and>
     (\<forall>ec n r. Io_sent ec n r \<in> set (io_ready s) \<longrightarrow>
        at_front r s \<and> unat n \<le> length (make_buffer (entry_store s r)))"

definition sender_inv :: "'z base_impl_scheme \<Rightarrow> bool" where
  "sender_inv s \<longleftrightarrow>
     entries_ok s \<and> sends_front s \<and> loops s \<le> 1 \<and>
     (\<not> live s \<longrightarrow> sending s = [] \<and> waits (send_invoker s) = 0) \<and>
     (live s \<longrightarrow> Io_close \<notin> set (io_ready s) \<longrightarrow> loops s = 1) \<and>
     (live s \<longrightarrow> send_entries s \<noteq> [] \<longrightarrow> waits (send_invoker s) > 0 \<longrightarrow>
        expiry (send_invoker s) \<noteq> Pos_infin)"

lemma sender_invD:
  assumes "sender_inv s"
  shows "entries_ok s" and "sends_front s" and "loops s \<le> 1"
    and "\<not> live s \<Longrightarrow> sending s = [] \<and> waits (send_invoker s) = 0"
    and "live s \<Longrightarrow> Io_close \<notin> set (io_ready s) \<Longrightarrow> loops s = 1"
    and "live s \<Longrightarrow> send_entries s \<noteq> [] \<Longrightarrow> waits (send_invoker s) > 0 \<Longrightarrow>
      expiry (send_invoker s) \<noteq> Pos_infin"
  using assms by (auto simp: sender_inv_def)

section \<open>Frames\<close>

text \<open>What leaves the sender alone and at most adds handlers that are not the sender's.\<close>

definition same_sender :: "'z base_impl_scheme \<Rightarrow> 'z base_impl_scheme \<Rightarrow> bool" where
  "same_sender s t \<longleftrightarrow> send_entries t = send_entries s \<and> sending t = sending s \<and>
     send_invoker t = send_invoker s \<and> live t = live s \<and> entry_store t = entry_store s \<and>
     (\<exists>hs. io_ready t = io_ready s @ hs \<and> filter goes_on hs = [] \<and> posted hs = [])"

lemma same_sender_parts:
  assumes "same_sender s t"
  shows "entries_ok t = entries_ok s" and "sends_front t = sends_front s" and "loops t = loops s"
    and "Io_close \<in> set (io_ready s) \<Longrightarrow> Io_close \<in> set (io_ready t)"
proof -
  obtain hs where t: "io_ready t = io_ready s @ hs" "filter goes_on hs = []" "posted hs = []"
    and f: "send_entries t = send_entries s" "sending t = sending s"
      "send_invoker t = send_invoker s" "entry_store t = entry_store s"
    using assms by (auto simp: same_sender_def)
  have n: "Io_sent ec n r \<notin> set hs" for ec n r
    using t(2) by (force simp: filter_empty_conv)
  show "entries_ok t = entries_ok s" "loops t = loops s"
    using t f by (simp_all add: entries_ok_def loops_def)
  show "sends_front t = sends_front s"
    using t f n by (simp add: sends_front_def at_front_def)
  show "Io_close \<in> set (io_ready s) \<Longrightarrow> Io_close \<in> set (io_ready t)"
    using t by simp
qed

lemma sender_inv_frame:
  assumes "sender_inv s" and "same_sender s t"
  shows "sender_inv t"
proof -
  have "live t = live s" "send_entries t = send_entries s" "sending t = sending s"
    "send_invoker t = send_invoker s"
    using assms(2) by (auto simp: same_sender_def)
  with assms(1) same_sender_parts [OF assms(2)] show ?thesis
    by (auto simp: sender_inv_def)
qed

lemma same_sender_refl [simp]: "same_sender s s"
  by (auto simp: same_sender_def)

lemma same_sender_trans: "same_sender s t \<Longrightarrow> same_sender t u \<Longrightarrow> same_sender s u"
  by (auto simp: same_sender_def)

lemma same_sender_post:
  "\<not> goes_on h \<Longrightarrow> posted [h] = [] \<Longrightarrow> same_sender s (post h s)"
  by (auto simp: same_sender_def post_def live_def)

lemma same_sender_deadline [simp]:
  "same_sender s (deadline_expires_at tp s)" "same_sender s (deadline_wait s)"
  by (auto simp: same_sender_def impl_simps live_def)

lemma same_sender_dispatch [simp]: "same_sender s (dispatch_task t s)"
  by (auto simp: same_sender_def dispatch_task_def live_def)

lemma same_sender_check_deadline: "same_sender s (check_send_deadline s)"
  by (simp add: check_send_deadline_def async_close_def same_sender_post)

lemma same_sender_receive: "same_sender s (receive_handler dec ec n s)"
proof -
  have d: "same_sender s (receive_datagram dec n s)"
    by (simp add: receive_datagram_def Let_def split: option.splits entry_type.splits)
  have a: "same_sender t (async_receive t)" for t :: "'a base_impl_scheme"
    by (auto simp: same_sender_def async_receive_def live_def)
  show ?thesis
    using d same_sender_trans [OF d a] a by (simp add: receive_handler_def Let_def)
qed

text \<open>Taking a handler that is neither the sender's nor a close out of the ready queue.\<close>

lemma sender_inv_take:
  assumes "sender_inv s" and "io_ready s = h # hs" and "\<not> goes_on h" and "posted [h] = []"
    and "h \<noteq> Io_close"
  shows "sender_inv (s\<lparr>io_ready := hs\<rparr>)"
proof -
  have "posted (io_ready s) = posted hs"
    using assms(2,4) posted_append [of "[h]" hs] by simp
  with assms show ?thesis
    by (auto simp: sender_inv_def entries_ok_def sends_front_def at_front_def loops_def live_def)
qed

section \<open>Preservation\<close>

text \<open>Between two operations of the loop: nothing of the sender is pending.\<close>

definition between :: "'z base_impl_scheme \<Rightarrow> bool" where
  "between s \<longleftrightarrow> entries_ok s \<and> loops s = 0"

lemma between_iff:
  "between s \<longleftrightarrow> entries_ok s \<and> sending s = [] \<and> waits (send_invoker s) = 0 \<and>
     (\<forall>h \<in> set (io_ready s). \<not> goes_on h)"
  by (auto simp: between_def loops_def filter_empty_conv)

lemma between_take:
  assumes "sender_inv s" and "io_ready s = h # hs" and "goes_on h"
  shows "between (s\<lparr>io_ready := hs\<rparr>)"
proof -
  have "posted (io_ready s) = posted hs"
    using assms(2,3) by (cases h) simp_all
  then show ?thesis
    using assms by (auto simp: between_def sender_inv_def entries_ok_def loops_def)
qed

lemma between_inv:
  "between s \<Longrightarrow> live s \<longrightarrow> Io_close \<in> set (io_ready s) \<Longrightarrow> sender_inv s"
  by (auto simp: between_iff sender_inv_def sends_front_def loops_def filter_empty_conv)

lemma between_frame: "between s \<Longrightarrow> same_sender s t \<Longrightarrow> between t"
  by (simp add: between_def same_sender_parts(1,3) [of s t])

lemma between_update:
  "between s \<Longrightarrow> (\<And>e. entry_wf e \<Longrightarrow> entry_wf (f e)) \<Longrightarrow> between (update_entry r f s)"
  by (auto simp: between_iff entries_ok_def update_entry_def)

lemma between_pop: "between s \<Longrightarrow> between (pop_front_send_entry s)"
  by (auto simp: between_iff entries_ok_def pop_front_send_entry_def dispatch_task_def
      split: list.splits option.splits)

lemma entry_wf_drop [simp]: "entry_wf (drop_entry e) = entry_wf e"
  by (simp add: drop_entry_def)

lemma entry_wf_count [simp]: "entry_wf (count_no_buffer_space e) = entry_wf e"
  by (simp add: count_no_buffer_space_def)

lemma between_no_buffer_space: "between s \<Longrightarrow> between (handle_no_buffer_space r s)"
  by (auto simp: handle_no_buffer_space_def Let_def
      intro!: between_update between_frame [OF _ same_sender_dispatch])

text \<open>Going on with the loop re-establishes the invariant.\<close>

lemma await_inv:
  assumes "between s"
  shows "sender_inv (await_send_entry delay s)"
proof (cases "live s")
  case False
  with assms show ?thesis by (auto simp: await_send_entry_def intro: between_inv)
next
  case live: True
  have facts: "sending s = []" "waits (send_invoker s) = 0" "\<forall>h \<in> set (io_ready s). \<not> goes_on h"
    "entries_ok s"
    using assms by (auto simp: between_iff)
  have none: "filter goes_on (io_ready s) = []" and sent: "Io_sent ec n r \<notin> set (io_ready s)" for ec n r
    using facts(3) by (auto simp: filter_empty_conv)
  show ?thesis
  proof (cases "delay \<noteq> None \<or> send_entries s = []")
    case True
    then show ?thesis
      using live facts none sent
      by (auto simp: await_send_entry_def sender_inv_def sends_front_def loops_def entries_ok_def
          live_def impl_simps split: option.splits)
  next
    case False
    let ?t = "deadline_expires_at (after 5000 s) s"
    have t: "sending ?t = []" "waits (send_invoker ?t) = 0" "filter goes_on (io_ready ?t) = []"
      "live ?t" "send_entries ?t = send_entries s" "entries_ok ?t"
      "\<And>ec n r. Io_sent ec n r \<notin> set (io_ready ?t)"
      using live facts none sent by (auto simp: impl_simps live_def entries_ok_def)
    have "sender_inv (start_send (hd (send_entries s)) ?t)"
      using t False
      by (auto simp: sender_inv_def start_send_def sends_front_def at_front_def loops_def
          entries_ok_def live_def)
    with live False show ?thesis by (simp add: await_send_entry_def)
  qed
qed

lemma finish_send_inv: "between s \<Longrightarrow> sender_inv (finish_send r delay s)"
  by (simp add: finish_send_def await_inv between_pop)

lemma handle_send_inv:
  assumes "between s"
  shows "sender_inv (handle_send ec n r s)"
proof -
  let ?s1 = "deadline_expires_at pos_infin (update_entry r (add_bytes_transferred n) s)"
  have b: "between ?s1"
    using assms by (intro between_frame [OF _ same_sender_deadline(1)] between_update) simp_all
  have "sender_inv (async_close (dispatch_task (Error_occurred ec) ?s1))"
    using between_frame [OF between_frame [OF b same_sender_dispatch] same_sender_post]
    by (intro between_inv) (auto simp: async_close_def post_def)
  moreover have "between (dispatch_task (Error_occurred ec) (update_entry r drop_entry ?s1))"
    and "between (update_entry r drop_entry ?s1)"
    using b by (auto intro!: between_frame [OF _ same_sender_dispatch] between_update)
  ultimately show ?thesis
    using b by (auto simp: handle_send_def Let_def intro!: finish_send_inv between_no_buffer_space)
qed

lemma same_sender_reset: "same_sender s (reset_work_guard s)"
  by (simp add: same_sender_def reset_work_guard_def live_def)

lemma goes_on_replicate [simp]:
  "filter goes_on (replicate n (Io_invoker ec)) = replicate n (Io_invoker ec)"
  "filter goes_on (replicate n (Io_deadline ec)) = []"
  "filter goes_on (replicate n (Io_received ec k)) = []"
  by (induction n) simp_all

lemma goes_on_map [simp]:
  "length (filter (goes_on \<circ> (\<lambda>(r, p). Io_sent ec n r)) xs) = length xs"
  "filter (goes_on \<circ> Io_connected ec) cs = []"
  by (simp_all add: filter_id_conv split_beta filter_empty_conv)

lemma send_handler_inv:
  assumes inv: "sender_inv s" and h: "io_ready s = Io_send r # hs"
  shows "sender_inv (send_handler r (s\<lparr>io_ready := hs\<rparr>))"
proof -
  let ?t = "send_handler r (s\<lparr>io_ready := hs\<rparr>)"
  have fields: "send_entries ?t = send_entries s @ [r]" "sending ?t = sending s"
    "waits (send_invoker ?t) = 0" "live ?t = live s" "entry_store ?t = entry_store s"
    "io_ready ?t = hs @ replicate (waits (send_invoker s)) (Io_invoker Operation_aborted)"
    by (simp_all add: send_handler_def impl_simps live_def)
  have front: "at_front q ?t" if "at_front q s" for q
    using that by (auto simp: at_front_def fields)
  have sent: "Io_sent ec n q \<in> set (io_ready ?t) \<Longrightarrow> Io_sent ec n q \<in> set (io_ready s)" for ec n q
    by (simp add: fields h split: if_splits)
  have "entries_ok ?t"
    using sender_invD(1) [OF inv] by (auto simp: entries_ok_def fields h)
  moreover have "sends_front ?t"
    using sender_invD(2) [OF inv] front sent unfolding sends_front_def fields(2,5) by blast
  moreover have "loops ?t = loops s"
    by (simp add: loops_def fields h)
  moreover have "Io_close \<in> set (io_ready ?t) \<longleftrightarrow> Io_close \<in> set (io_ready s)"
    by (simp add: fields h)
  ultimately show ?thesis
    using inv by (auto simp: sender_inv_def fields)
qed

lemma not_live_inv:
  assumes "entries_ok s" and "sends_front s" and "loops s \<le> 1" and "\<not> live s"
    and "sending s = []" and "waits (send_invoker s) = 0"
  shows "sender_inv s"
  using assms by (simp add: sender_inv_def)

lemma close_handler_fields:
  assumes "impl_socket s = Some k"
  shows "impl_socket (close_handler s) = None" "socket_ready (close_handler s) = False"
    "send_entries (close_handler s) = send_entries s" "sending (close_handler s) = []"
    "connecting (close_handler s) = []" "receiving (close_handler s) = 0"
    "waits (send_invoker (close_handler s)) = 0" "waits (send_deadline (close_handler s)) = 0"
    "entry_store (close_handler s) = entry_store s" "work_guard (close_handler s) = work_guard s"
    "io_ready (close_handler s) = io_ready s
         @ replicate (receiving s) (Io_received Operation_aborted 0)
         @ map (Io_connected Operation_aborted) (connecting s)
         @ map (\<lambda>(r, _). Io_sent Operation_aborted 0 r) (sending s)
         @ replicate (waits (send_invoker s)) (Io_invoker Operation_aborted)
         @ replicate (waits (send_deadline s)) (Io_deadline Operation_aborted)"
  using assms by (simp_all add: close_handler_def impl_simps remove_bound_path_def)

lemma close_handler_inv:
  assumes inv: "sender_inv s" and h: "io_ready s = Io_close # hs"
  shows "sender_inv (close_handler (s\<lparr>io_ready := hs\<rparr>))"
proof (cases "impl_socket s")
  case None
  then have "\<not> live s" by (simp add: live_def)
  with None inv h show ?thesis
    by (intro not_live_inv)
      (auto simp: close_handler_def sender_inv_def entries_ok_def sends_front_def at_front_def
        loops_def live_def)
next
  case (Some k)
  let ?s = "s\<lparr>io_ready := hs\<rparr>" let ?t = "close_handler ?s"
  have "impl_socket ?s = Some k" using Some by simp
  note t = close_handler_fields [OF this]
  have sent: "at_front q s \<and> unat n \<le> length (make_buffer (entry_store s q))"
    if "Io_sent ec n q \<in> set (io_ready ?t)" for ec n q
    using that sender_invD(2) [OF inv]
    by (auto simp: t h sends_front_def split: if_splits)
  show ?thesis
  proof (rule not_live_inv)
    show "entries_ok ?t"
      using sender_invD(1) [OF inv] by (simp add: entries_ok_def t h)
    show "sends_front ?t"
      using sent by (simp add: sends_front_def t(3,4,9) at_front_def)
    show "loops ?t \<le> 1"
      using sender_invD(3) [OF inv] by (simp add: loops_def t h)
  qed (simp_all add: t live_def)
qed

lemma base_handler_inv:
  assumes inv: "sender_inv s" and h: "next_handler s = Some (h, s')"
    and run: "run_base_handler dec h s' = Some t"
  shows "sender_inv t"
proof -
  from h obtain hs where hs: "io_ready s = h # hs" and s': "s' = s\<lparr>io_ready := hs\<rparr>"
    by (auto simp: next_handler_def split: list.splits)
  have other: "sender_inv s'" if "\<not> goes_on h" "posted [h] = []" "h \<noteq> Io_close"
    using sender_inv_take [OF inv hs that] s' by simp
  have loop: "between s'" if "goes_on h"
    using between_take [OF inv hs that] s' by simp
  from run hs s' inv show ?thesis
    using other loop
    by (cases h) (auto intro: close_handler_inv send_handler_inv handle_send_inv await_inv
        sender_inv_frame same_sender_receive same_sender_check_deadline same_sender_reset)
qed

lemma sends_inv:
  assumes inv: "sender_inv s" and p: "sending s = ps @ (r, v, dest) # qs" and n: "n \<le> length v"
  shows "sender_inv (post (Io_sent ec (of_nat n) r) (s\<lparr>sending := ps @ qs\<rparr>))"
proof -
  let ?t = "post (Io_sent ec (of_nat n) r) (s\<lparr>sending := ps @ qs\<rparr>)"
  have pending: "(r, v, dest) \<in> set (sending s)" by (simp add: p)
  have "unat (of_nat n :: size_t) \<le> n" by (simp add: unat_of_nat)
  then have len: "unat (of_nat n :: size_t) \<le> length (make_buffer (entry_store s r))"
    using n pending sender_invD(2) [OF inv] by (fastforce simp: sends_front_def)
  have "ps = [] \<and> qs = []"
    using sender_invD(3) [OF inv] by (simp add: loops_def p)
  moreover have "loops ?t = loops s" by (simp add: loops_def post_def p)
  moreover have "at_front r s" using sender_invD(2) [OF inv] pending by (auto simp: sends_front_def)
  ultimately have "sends_front ?t" "loops ?t = loops s"
    using sender_invD(2) [OF inv] len by (auto simp: sends_front_def at_front_def post_def)
  moreover have "live s" using sender_invD(4) [OF inv] p by auto
  ultimately show ?thesis
    using inv by (simp add: sender_inv_def entries_ok_def post_def live_def)
qed

lemma invoker_fires_inv:
  assumes inv: "sender_inv s" and w: "waits (send_invoker s) > 0"
  shows "sender_inv (post (Io_invoker ec)
    (s\<lparr>send_invoker := (send_invoker s)\<lparr>waits := waits (send_invoker s) - 1\<rparr>\<rparr>))" (is "sender_inv ?t")
proof -
  have one: "loops ?t = loops s" using w by (simp add: loops_def post_def)
  moreover have "sends_front ?t"
    using sender_invD(2) [OF inv] by (auto simp: sends_front_def at_front_def post_def)
  moreover have "live s" using sender_invD(4) [OF inv] w by auto
  moreover have "waits (send_invoker ?t) = 0"
    using sender_invD(3) [OF inv] by (simp add: loops_def post_def)
  ultimately show ?thesis
    using inv by (simp add: sender_inv_def entries_ok_def post_def live_def)
qed

lemma client_sends_inv:
  assumes inv: "sender_inv s" and fresh: "fresh_entry r s" and wf: "entry_wf e"
  shows "sender_inv (async_send r (s\<lparr>entry_store := (entry_store s)(r := e)\<rparr>))" (is "sender_inv ?t")
proof -
  have r: "r \<notin> set (send_entries s)" "r \<notin> set (posted (io_ready s))"
    using fresh by (auto simp: fresh_entry_def set_posted)
  have fields: "send_entries ?t = send_entries s" "sending ?t = sending s"
    "send_invoker ?t = send_invoker s" "live ?t = live s" "io_ready ?t = io_ready s @ [Io_send r]"
    "entry_store ?t = (entry_store s)(r := e)"
    by (simp_all add: async_send_def post_def live_def)
  have "sends_front ?t"
    using sender_invD(2) [OF inv] fresh
    by (fastforce simp: sends_front_def at_front_def fields fresh_entry_def)
  moreover have "entries_ok ?t"
    using sender_invD(1) [OF inv] r wf by (auto simp: entries_ok_def fields)
  moreover have "loops ?t = loops s" by (simp add: loops_def fields)
  ultimately show ?thesis
    using inv by (simp add: sender_inv_def fields)
qed

lemma base_step_inv: "base_step dec s t \<Longrightarrow> sender_inv s \<Longrightarrow> sender_inv t"
proof (induction rule: base_step.induct)
  case (handler s h s' t)
  then show ?case by (blast intro: base_handler_inv)
next
  case (receives s v ep)
  then show ?case by (auto simp: same_sender_def post_def live_def elim!: sender_inv_frame)
next
  case (receive_fails s ec)
  then show ?case by (auto simp: same_sender_def post_def live_def elim!: sender_inv_frame)
next
  case (deadline_fires s)
  then show ?case by (auto simp: same_sender_def post_def live_def elim!: sender_inv_frame)
next
  case (ticks d s)
  then show ?case by (auto simp: same_sender_def post_def live_def elim!: sender_inv_frame)
next
  case (sends s ps r v dest qs n ec)
  then show ?case by (intro sends_inv)
next
  case (invoker_fires s)
  then show ?case by (intro invoker_fires_inv)
next
  case (client_sends r s e)
  then show ?case by (intro client_sends_inv)
next
  case (client_closes s)
  then show ?case by (simp add: async_close_def sender_inv_frame same_sender_post)
next
  case (client_terminates s)
  then show ?case by (simp add: terminate_base_impl_def sender_inv_frame same_sender_post)
qed

lemma base_steps_inv: "base_steps dec s t \<Longrightarrow> sender_inv s \<Longrightarrow> sender_inv t"
  by (induction rule: base_steps.induct) (auto intro: base_step_inv)

text \<open>The actors start the loop.\<close>

lemma start_actors_inv:
  assumes "between s"
  shows "sender_inv (start_actors s)"
proof -
  have r: "same_sender t (async_receive t)" for t :: "'a base_impl_scheme"
    by (auto simp: same_sender_def async_receive_def live_def)
  show ?thesis
    using await_inv [OF assms, of None]
    by (auto simp: start_actors_def Let_def intro!: sender_inv_frame [OF _ r]
        sender_inv_frame [OF _ same_sender_check_deadline] sender_inv_frame [OF _ same_sender_deadline(1)])
qed

end
