(* ===== verification/Base_Shutdown.thy ===== *)
theory Base_Shutdown
  imports Base_Sender
begin

text \<open>
  The destructors post a close and the reset of the work guard, and join the thread of the io
  context.  The thread leaves \<open>io_context::run\<close> once nothing is left to do; this theory shows that
  running the ready handlers gets there.
\<close>

section \<open>Running the ready handlers\<close>

text \<open>At most \<open>n\<close> handlers; a handler of a derived class stops the run.\<close>

fun run_io :: "(bytes \<Rightarrow> u32) \<Rightarrow> nat \<Rightarrow> 'z base_impl_scheme \<Rightarrow> 'z base_impl_scheme" where
  "run_io dec 0 s = s"
| "run_io dec (Suc n) s =
     (case next_handler s of
        None \<Rightarrow> s
      | Some (h, s') \<Rightarrow>
          (case run_base_handler dec h s' of None \<Rightarrow> s | Some t \<Rightarrow> run_io dec n t))"

fun base_handler :: "io_handler \<Rightarrow> bool" where
  "base_handler Io_close = True"
| "base_handler (Io_send r) = True"
| "base_handler (Io_received ec n) = True"
| "base_handler (Io_sent ec n r) = True"
| "base_handler (Io_invoker ec) = True"
| "base_handler (Io_deadline ec) = True"
| "base_handler Io_reset_work_guard = True"
| "base_handler h = False"

lemma run_base_handler_total: "base_handler h \<Longrightarrow> \<exists>t. run_base_handler dec h s = Some t"
  by (cases h) auto

section \<open>Handlers append\<close>

text \<open>Running a handler appends handlers of the base class to the ready queue.\<close>

definition appends :: "'z base_impl_scheme \<Rightarrow> 'z base_impl_scheme \<Rightarrow> bool" where
  "appends s t \<longleftrightarrow> (\<exists>hs. io_ready t = io_ready s @ hs \<and> list_all base_handler hs)"

lemma appends_refl [simp]: "appends s s"
  by (simp add: appends_def)

lemma appends_trans: "appends s t \<Longrightarrow> appends t u \<Longrightarrow> appends s u"
  by (force simp: appends_def)

lemma appends_same: "io_ready t = io_ready s \<Longrightarrow> appends s t"
  by (simp add: appends_def)

lemma list_all_replicate_base [simp]:
  "list_all base_handler (replicate n h) \<longleftrightarrow> n = 0 \<or> base_handler h"
  by (induction n) auto

lemma appends_io [simp]:
  "base_handler h \<Longrightarrow> appends s (post h s)" "appends s (dispatch_task t s)"
  "appends s (invoker_expires_at tp s)" "appends s (invoker_wait s)"
  "appends s (deadline_expires_at tp s)" "appends s (deadline_wait s)"
  "appends s (start_send r s)" "appends s (update_entry r f s)" "appends s (async_receive s)"
  "appends s (reset_work_guard s)" "appends s (pop_front_send_entry s)"
  by (auto simp: appends_def impl_simps start_send_def update_entry_def async_receive_def
      reset_work_guard_def pop_front_send_entry_def split: list.splits option.splits)

lemma appends_await [simp]: "appends s (await_send_entry delay s)"
  by (auto simp: await_send_entry_def intro: appends_trans [OF appends_io(3) appends_io(4)]
      appends_trans [OF appends_io(5) appends_io(7)] split: option.splits)

lemma appends_finish [simp]: "appends s (finish_send r delay s)"
  by (auto simp: finish_send_def intro: appends_trans [OF appends_io(11)])

lemma appends_no_buffer_space [simp]: "appends s (handle_no_buffer_space r s)"
  by (auto simp: handle_no_buffer_space_def appends_def update_entry_def dispatch_task_def Let_def)

lemma appends_report [simp]: "appends s (dispatch_task t (update_entry r f s))"
  by (rule appends_trans [OF appends_io(8) appends_io(2)])

lemma appends_handle_send [simp]: "appends s (handle_send ec n r s)"
proof -
  let ?s1 = "deadline_expires_at pos_infin (update_entry r (add_bytes_transferred n) s)"
  have s1: "appends s ?s1" by (rule appends_trans) (rule appends_io)+
  have "appends ?s1 (handle_send ec n r s)"
    by (auto simp: handle_send_def Let_def async_close_def
        intro: appends_trans [OF _ appends_finish] appends_trans [OF _ appends_io(1)]
          appends_trans [OF _ appends_io(2)])
  with s1 show ?thesis by (rule appends_trans)
qed

lemma appends_receive [simp]: "appends s (receive_handler dec ec n s)"
  by (auto simp: receive_handler_def receive_datagram_def appends_def async_receive_def
      dispatch_task_def Let_def split: option.splits entry_type.splits)

lemma appends_check_deadline [simp]: "appends s (check_send_deadline s)"
  by (simp add: check_send_deadline_def async_close_def)

lemma appends_send_handler [simp]: "appends s (send_handler r s)"
  by (auto simp: appends_def send_handler_def impl_simps)

lemma appends_close: "connecting s = [] \<Longrightarrow> appends s (close_handler s)"
  by (auto simp: appends_def close_handler_def impl_simps remove_bound_path_def list_all_iff
      split: option.splits)

section \<open>A closed object runs dry\<close>

text \<open>No socket, and no operation pending.\<close>

definition closed :: "'z base_impl_scheme \<Rightarrow> bool" where
  "closed s \<longleftrightarrow> impl_socket s = None \<and> receiving s = 0 \<and> sending s = [] \<and> connecting s = [] \<and>
     waits (send_invoker s) = 0 \<and> waits (send_deadline s) = 0"

text \<open>Work left in the ready queue: a failed send of a client may post one more close.\<close>

fun handler_work :: "io_handler \<Rightarrow> nat" where
  "handler_work (Io_sent ec n r) = 2"
| "handler_work h = 1"

definition work :: "io_handler list \<Rightarrow> nat" where
  "work hs = sum_list (map handler_work hs)"

lemma work_simps [simp]:
  "work [] = 0" "work (h # hs) = handler_work h + work hs" "work (hs @ hs') = work hs + work hs'"
  by (simp_all add: work_def)

lemma handler_work_pos: "0 < handler_work h"
  by (cases h) simp_all

lemma closed_not_live: "closed s \<Longrightarrow> \<not> live s"
  by (simp add: closed_def live_def)

lemma closed_finish:
  "closed s \<Longrightarrow> closed (finish_send r delay s) \<and> io_ready (finish_send r delay s) = io_ready s
     \<and> work_guard (finish_send r delay s) = work_guard s"
  by (auto simp: finish_send_def await_send_entry_def closed_def live_def pop_front_send_entry_def
      dispatch_task_def split: list.splits option.splits)

lemma closed_handle_send:
  assumes "closed s"
  shows "closed (handle_send ec n r s)"
    and "work (io_ready (handle_send ec n r s)) \<le> work (io_ready s) + 1"
    and "work_guard (handle_send ec n r s) = work_guard s"
proof -
  let ?s1 = "deadline_expires_at pos_infin (update_entry r (add_bytes_transferred n) s)"
  have s1: "closed ?s1" "io_ready ?s1 = io_ready s" "work_guard ?s1 = work_guard s"
    using assms by (auto simp: closed_def impl_simps update_entry_def)
  have nbs: "closed (handle_no_buffer_space r ?s1)"
    "io_ready (handle_no_buffer_space r ?s1) = io_ready s"
    "work_guard (handle_no_buffer_space r ?s1) = work_guard s"
    using s1 by (auto simp: closed_def handle_no_buffer_space_def update_entry_def dispatch_task_def Let_def)
  have drop: "closed (update_entry r drop_entry ?s1)" "io_ready (update_entry r drop_entry ?s1) = io_ready s"
    "work_guard (update_entry r drop_entry ?s1) = work_guard s"
    using s1 by (auto simp: closed_def update_entry_def)
  have report: "closed (dispatch_task t u)" "io_ready (dispatch_task t u) = io_ready u"
    "work_guard (dispatch_task t u) = work_guard u" if "closed u" for t and u :: "'a base_impl_scheme"
    using that by (auto simp: closed_def dispatch_task_def)
  have post: "closed (async_close u)" "io_ready (async_close u) = io_ready u @ [Io_close]"
    "work_guard (async_close u) = work_guard u" if "closed u" for u :: "'a base_impl_scheme"
    using that by (auto simp: closed_def async_close_def post_def)
  note facts = s1 nbs drop report post closed_finish
  show "closed (handle_send ec n r s)"
    and "work (io_ready (handle_send ec n r s)) \<le> work (io_ready s) + 1"
    and "work_guard (handle_send ec n r s) = work_guard s"
    by (simp_all add: handle_send_def Let_def facts)
qed

lemma closed_run:
  assumes "closed s" and "run_base_handler dec h s = Some t"
  shows "closed t" and "work (io_ready t) + 1 \<le> work (io_ready s) + handler_work h"
    and "work_guard t \<longrightarrow> work_guard s \<and> h \<noteq> Io_reset_work_guard"
proof -
  have rcv: "closed (receive_handler dec ec n s) \<and> io_ready (receive_handler dec ec n s) = io_ready s
      \<and> work_guard (receive_handler dec ec n s) = work_guard s" for ec n
    using assms(1) by (auto simp: receive_handler_def receive_datagram_def closed_def async_receive_def
        live_def dispatch_task_def Let_def split: option.splits entry_type.splits)
  have snd: "closed (send_handler r s) \<and> io_ready (send_handler r s) = io_ready s
      \<and> work_guard (send_handler r s) = work_guard s" for r
    using assms(1) by (auto simp: send_handler_def closed_def impl_simps)
  have "closed t \<and> work (io_ready t) + 1 \<le> work (io_ready s) + handler_work h
      \<and> (work_guard t \<longrightarrow> work_guard s \<and> h \<noteq> Io_reset_work_guard)"
    using assms closed_not_live [OF assms(1)] rcv snd closed_handle_send [OF assms(1)]
    by (cases h) (auto simp: close_handler_def closed_def await_send_entry_def
        check_send_deadline_def reset_work_guard_def)
  then show "closed t" "work (io_ready t) + 1 \<le> work (io_ready s) + handler_work h"
    "work_guard t \<longrightarrow> work_guard s \<and> h \<noteq> Io_reset_work_guard" by simp_all
qed

lemma appends_run:
  "run_base_handler dec h s = Some t \<Longrightarrow> connecting s = [] \<Longrightarrow> appends s t"
  by (cases h) (auto intro: appends_close)

section \<open>The handlers before the close\<close>

definition same_ends :: "'z base_impl_scheme \<Rightarrow> 'z base_impl_scheme \<Rightarrow> bool" where
  "same_ends s t \<longleftrightarrow> work_guard t = work_guard s \<and> connecting t = connecting s \<and>
     impl_socket t = impl_socket s"

lemma same_ends_trans: "same_ends s t \<Longrightarrow> same_ends t u \<Longrightarrow> same_ends s u"
  by (simp add: same_ends_def)

lemma same_ends_io [simp]:
  "same_ends s s" "same_ends s (post h s)" "same_ends s (dispatch_task t s)"
  "same_ends s (invoker_expires_at tp s)" "same_ends s (invoker_wait s)"
  "same_ends s (deadline_expires_at tp s)" "same_ends s (deadline_wait s)"
  "same_ends s (start_send r s)" "same_ends s (update_entry r f s)" "same_ends s (async_receive s)"
  "same_ends s (pop_front_send_entry s)" "same_ends s (send_handler r s)"
  by (auto simp: same_ends_def impl_simps start_send_def update_entry_def async_receive_def
      send_handler_def pop_front_send_entry_def split: list.splits option.splits)

lemma same_ends_await [simp]: "same_ends s (await_send_entry delay s)"
  by (auto simp: same_ends_def await_send_entry_def impl_simps start_send_def split: option.splits)

lemma same_ends_finish [simp]: "same_ends s (finish_send r delay s)"
  by (auto simp: finish_send_def intro: same_ends_trans [OF same_ends_io(11)])

lemma same_ends_handle_send [simp]: "same_ends s (handle_send ec n r s)"
proof -
  have "same_ends s (finish_send r delay t)" if "same_ends s t" for delay t
    using that same_ends_finish by (rule same_ends_trans)
  then show ?thesis
    by (auto simp: handle_send_def handle_no_buffer_space_def Let_def async_close_def same_ends_def
        impl_simps update_entry_def)
qed

lemma same_ends_receive [simp]: "same_ends s (receive_handler dec ec n s)"
  by (auto simp: receive_handler_def receive_datagram_def same_ends_def async_receive_def
      dispatch_task_def Let_def split: option.splits entry_type.splits)

lemma same_ends_check_deadline [simp]: "same_ends s (check_send_deadline s)"
  by (simp add: check_send_deadline_def async_close_def)

lemma same_ends_run:
  "run_base_handler dec h s = Some t \<Longrightarrow> h \<noteq> Io_close \<Longrightarrow> h \<noteq> Io_reset_work_guard \<Longrightarrow> same_ends s t"
  by (cases h) auto

lemma close_handler_closed: "impl_socket s = None \<longrightarrow> closed s \<Longrightarrow> closed (close_handler s)"
  by (cases "impl_socket s") (simp_all add: closed_def close_handler_fields, simp add: close_handler_def)

lemma work_guard_close: "work_guard (close_handler s) = work_guard s"
  by (cases "impl_socket s") (simp_all add: close_handler_fields, simp add: close_handler_def)

section \<open>The end of the thread\<close>

text \<open>Without a socket nothing is pending.\<close>

definition idle_ok :: "'z base_impl_scheme \<Rightarrow> bool" where
  "idle_ok s \<longleftrightarrow> (impl_socket s = None \<longrightarrow> closed s)"

text \<open>What the destructors do before the thread is joined.\<close>

definition destroy_impl :: "'z base_impl_scheme \<Rightarrow> 'z base_impl_scheme" where
  "destroy_impl s = terminate_base_impl (async_close s)"

text \<open>
  At most \<open>n\<close> handlers of a class, the first one being number \<open>i\<close>: \<open>run i\<close> runs a handler with the
  answers the system gives then.  An exception ends the thread.
\<close>

fun run_thread ::
    "(nat \<Rightarrow> io_handler \<Rightarrow> 'z base_impl_scheme \<Rightarrow> (io_error + 'z base_impl_scheme) option)
      \<Rightarrow> nat \<Rightarrow> nat \<Rightarrow> 'z base_impl_scheme \<Rightarrow> io_error + 'z base_impl_scheme" where
  "run_thread run i 0 s = Inr s"
| "run_thread run i (Suc n) s =
     (case next_handler s of
        None \<Rightarrow> Inr s
      | Some (h, s') \<Rightarrow>
          (case run i h s' of
             None \<Rightarrow> Inr s
           | Some (Inl e) \<Rightarrow> Inl e
           | Some (Inr t) \<Rightarrow> run_thread run (i + 1) n t))"

text \<open>The thread has returned from \<open>io_context::run\<close>, or an exception has left it.\<close>

fun thread_ended :: "bool \<Rightarrow> io_error + 'z base_impl_scheme \<Rightarrow> bool" where
  "thread_ended may_throw (Inl e) = may_throw"
| "thread_ended may_throw (Inr t) = io_stopped t"

text \<open>
  The contract of a class of handlers: \<open>own\<close> are the handlers it runs, \<open>opens\<close> those that may open a
  socket, which no handler posts and which alone may throw, \<open>ok\<close> an invariant; a close closes, and
  nothing but such a handler reopens.
\<close>

locale thread_handlers =
  fixes run :: "nat \<Rightarrow> io_handler \<Rightarrow> 'z base_impl_scheme \<Rightarrow> (io_error + 'z base_impl_scheme) option"
    and own :: "io_handler \<Rightarrow> bool"
    and opens :: "io_handler \<Rightarrow> bool"
    and ok :: "'z base_impl_scheme \<Rightarrow> bool"
  assumes ok_frame: "ok (s\<lparr>io_ready := hs\<rparr>) = ok s"
    and closed_ok: "closed s \<Longrightarrow> ok s"
    and runs: "own h \<Longrightarrow> run i h s \<noteq> None"
    and throws: "run i h s = Some (Inl e) \<Longrightarrow> opens h"
    and posts: "ok s \<Longrightarrow> run i h s = Some (Inr t) \<Longrightarrow>
      \<exists>hs. io_ready t = io_ready s @ hs \<and> list_all own hs \<and> \<not> list_ex opens hs"
    and keeps_ok: "ok s \<Longrightarrow> run i h s = Some (Inr t) \<Longrightarrow> ok t"
    and keeps_guard: "ok s \<Longrightarrow> run i h s = Some (Inr t) \<Longrightarrow> work_guard t \<Longrightarrow>
      work_guard s \<and> h \<noteq> Io_reset_work_guard"
    and closes: "ok s \<Longrightarrow> run i Io_close s = Some (Inr t) \<Longrightarrow> closed t"
    and stays_closed: "closed s \<Longrightarrow> \<not> opens h \<Longrightarrow> run i h s = Some (Inr t) \<Longrightarrow>
      closed t \<and> work (io_ready t) + 1 \<le> work (io_ready s) + handler_work h"
    and ends: "own Io_close" "own Io_reset_work_guard" "\<not> opens Io_close" "\<not> opens Io_reset_work_guard"
begin

lemma no_exception:
  assumes "own h" and "\<not> opens h"
  shows "\<exists>t. run i h s = Some (Inr t)"
proof -
  obtain r where r: "run i h s = Some r" using runs [OF assms(1)] by blast
  with throws [of i h s] assms(2) show ?thesis by (cases r) auto
qed

text \<open>
  From a closed object that no handler will reopen, running as many handlers as there is work empties
  the queue; the work guard is gone if its reset was in the queue.
\<close>

lemma runs_dry:
  "closed s \<Longrightarrow> list_all own (io_ready s) \<Longrightarrow> \<not> list_ex opens (io_ready s) \<Longrightarrow>
   work (io_ready s) \<le> n \<Longrightarrow> work_guard s \<longrightarrow> Io_reset_work_guard \<in> set (io_ready s) \<Longrightarrow>
   thread_ended may (run_thread run i n s)"
proof (induction n arbitrary: s i)
  case 0
  have "io_ready s = []"
    using 0(4) handler_work_pos [of "hd (io_ready s)"] by (cases "io_ready s") auto
  with 0 show ?case by (auto simp: io_stopped_def closed_def)
next
  case (Suc n)
  show ?case
  proof (cases "io_ready s")
    case Nil
    with Suc.prems show ?thesis by (auto simp: io_stopped_def closed_def next_handler_def)
  next
    case (Cons h hs)
    let ?s = "s\<lparr>io_ready := hs\<rparr>"
    have c: "closed ?s" "ok ?s" using Suc.prems(1) closed_ok by (simp_all add: closed_def ok_frame)
    have h: "own h" "\<not> opens h" using Suc.prems(2,3) Cons by simp_all
    then obtain t where t: "run i h ?s = Some (Inr t)" using no_exception by blast
    obtain hs' where hs': "io_ready t = hs @ hs'" "list_all own hs'" "\<not> list_ex opens hs'"
      using posts [OF c(2) t] by auto
    have "thread_ended may (run_thread run (i + 1) n t)"
      using stays_closed [OF c(1) h(2) t] keeps_guard [OF c(2) t] hs' Suc.prems(2-5) Cons
      by (intro Suc.IH) auto
    with Cons t show ?thesis by (simp add: next_handler_def)
  qed
qed

text \<open>The handlers in front of the close.\<close>

lemma runs_to_end:
  "io_ready s = pre @ Io_close # rest \<Longrightarrow> list_all own (io_ready s) \<Longrightarrow> \<not> list_ex opens rest \<Longrightarrow>
   ok s \<Longrightarrow> work_guard s \<longrightarrow> Io_reset_work_guard \<in> set (io_ready s) \<Longrightarrow>
   \<exists>n. thread_ended (list_ex opens pre) (run_thread run i n s)"
proof (induction pre arbitrary: s rest i)
  case Nil
  let ?s = "s\<lparr>io_ready := rest\<rparr>"
  have c: "ok ?s" using Nil.prems(4) by (simp add: ok_frame)
  obtain t where t: "run i Io_close ?s = Some (Inr t)" using no_exception ends(1,3) by blast
  obtain hs' where hs': "io_ready t = rest @ hs'" "list_all own hs'" "\<not> list_ex opens hs'"
    using posts [OF c t] by auto
  have "thread_ended False (run_thread run (i + 1) (work (io_ready t)) t)"
    using closes [OF c t] keeps_guard [OF c t] hs' Nil.prems by (intro runs_dry) auto
  then have "thread_ended False (run_thread run i (Suc (work (io_ready t))) s)"
    using Nil.prems(1) t by (simp add: next_handler_def)
  then show ?case by (auto simp del: run_thread.simps)
next
  case (Cons h pre)
  let ?hs = "pre @ Io_close # rest" let ?s = "s\<lparr>io_ready := ?hs\<rparr>"
  have c: "ok ?s" using Cons.prems(4) by (simp add: ok_frame)
  have "own h" using Cons.prems(1,2) by simp
  then obtain r where r: "run i h ?s = Some r" using runs [of h i ?s] by auto
  show ?case
  proof (cases r)
    case (Inl e)
    with r throws have "opens h" by simp
    with Cons.prems(1) r Inl have "thread_ended (list_ex opens (h # pre)) (run_thread run i (Suc 0) s)"
      by (simp add: next_handler_def)
    then show ?thesis by blast
  next
    case (Inr t)
    with r have t: "run i h ?s = Some (Inr t)" by simp
    obtain hs' where hs': "io_ready t = pre @ Io_close # (rest @ hs')" "list_all own hs'"
      "\<not> list_ex opens hs'"
      using posts [OF c t] by auto
    have "\<exists>n. thread_ended (list_ex opens pre) (run_thread run (i + 1) n t)"
      using Cons.prems hs'(2,3) keeps_guard [OF c t] keeps_ok [OF c t]
      by (intro Cons.IH [OF hs'(1)]) (auto simp: hs'(1))
    then obtain n where n: "thread_ended (list_ex opens pre) (run_thread run (i + 1) n t)" ..
    have "thread_ended (list_ex opens (h # pre)) (run_thread run (i + 1) n t)"
      using n by (cases "run_thread run (i + 1) n t") auto
    then have "thread_ended (list_ex opens (h # pre)) (run_thread run i (Suc n) s)"
      using Cons.prems(1) t by (simp add: next_handler_def)
    then show ?thesis by blast
  qed
qed

lemma destructor_ends:
  assumes "ok s" and "list_all own (io_ready s)"
  shows "\<exists>n. thread_ended (list_ex opens (io_ready s)) (run_thread run 0 n (destroy_impl s))"
proof (rule runs_to_end)
  show "io_ready (destroy_impl s) = io_ready s @ Io_close # [Io_reset_work_guard]"
    by (simp add: destroy_impl_def terminate_base_impl_def async_close_def post_def)
  then show "list_all own (io_ready (destroy_impl s))" using assms(2) ends by simp
  show "ok (destroy_impl s)"
    using assms(1) by (simp add: destroy_impl_def terminate_base_impl_def async_close_def post_def ok_frame)
qed (use ends in \<open>simp_all add: destroy_impl_def terminate_base_impl_def async_close_def post_def\<close>)

end

section \<open>The handlers of the base class\<close>

lemma base_own: "run_base_handler dec h s = Some t \<Longrightarrow> base_handler h"
  by (cases h) simp_all

lemma base_keeps_idle:
  assumes "idle_ok s" and "run_base_handler dec h s = Some t"
  shows "idle_ok t"
proof (cases "impl_socket s")
  case None
  with assms show ?thesis using closed_run(1) by (auto simp: idle_ok_def)
next
  case (Some k)
  then show ?thesis
    using assms same_ends_run [OF assms(2)] close_handler_closed [of s]
    by (cases "h = Io_close \<or> h = Io_reset_work_guard")
      (auto simp: idle_ok_def same_ends_def reset_work_guard_def)
qed

lemma base_keeps_guard:
  assumes "run_base_handler dec h s = Some t" and "work_guard t"
  shows "work_guard s \<and> h \<noteq> Io_reset_work_guard"
  using assms same_ends_run [OF assms(1)]
  by (cases h) (auto simp: same_ends_def work_guard_close reset_work_guard_def)

end
