(* ===== verification/Heartbeat.thy ===== *)
theory Heartbeat
  imports Base_Impl
begin

unbundle bit_operations_syntax

text \<open>
  The datagrams of the protocol: the heartbeat a client composes (\<open>client_impl::check_server\<close>) and
  what the receiver of the peer (\<open>base_impl::async_receive\<close>) makes of it and of user data.  The
  deadline travels as the four bytes of a \<open>uint32_t\<close> in the platform's order; the lemmas hold for
  every byte order (locale \<open>byte_order\<close>) and both usual ones are interpretations.
\<close>

section \<open>\<open>memcpy\<close> of a \<open>uint32_t\<close>\<close>

definition byte_of :: "nat \<Rightarrow> u32 \<Rightarrow> u8" where
  "byte_of i w = ucast (drop_bit (8 * i) w)"

definition little_endian_bytes :: "u32 \<Rightarrow> bytes" where
  "little_endian_bytes w = [byte_of 0 w, byte_of 1 w, byte_of 2 w, byte_of 3 w]"

fun of_little_endian :: "bytes \<Rightarrow> u32" where
  "of_little_endian [] = 0"
| "of_little_endian (b # bs) = ucast b OR push_bit 8 (of_little_endian bs)"

definition big_endian_bytes :: "u32 \<Rightarrow> bytes" where
  "big_endian_bytes w = rev (little_endian_bytes w)"

definition of_big_endian :: "bytes \<Rightarrow> u32" where
  "of_big_endian bs = of_little_endian (rev bs)"

lemma of_little_endian_bytes: "of_little_endian (little_endian_bytes w) = w"
proof (rule bit_word_eqI)
  fix n assume "n < LENGTH(32)"
  then have "n < 8 \<or> 8 \<le> n \<and> n < 16 \<or> 16 \<le> n \<and> n < 24 \<or> 24 \<le> n \<and> n < 32" by auto
  then show "bit (of_little_endian (little_endian_bytes w)) n = bit w n"
    by (elim disjE) (auto simp: little_endian_bytes_def byte_of_def bit_simps)
qed

interpretation little: byte_order little_endian_bytes of_little_endian
proof
  show "length (little_endian_bytes w) = 4" for w by (simp add: little_endian_bytes_def)
qed (rule of_little_endian_bytes)

interpretation big: byte_order big_endian_bytes of_big_endian
  by unfold_locales (simp_all add: big_endian_bytes_def of_big_endian_def little.length_to_bytes
      little.of_bytes_to_bytes)

section \<open>The heartbeat of a client\<close>

text \<open>
  The deadline as a \<open>uint32_t\<close>: the assignment from the count of milliseconds, a signed 64-bit
  integer, keeps the low 32 bits.
\<close>

definition heartbeat_deadline_value :: "millis option \<Rightarrow> u32" where
  "heartbeat_deadline_value d = (case d of None \<Rightarrow> 0 | Some ms \<Rightarrow> word_of_int ms)"

definition heartbeat_entry :: "(u32 \<Rightarrow> bytes) \<Rightarrow> millis option \<Rightarrow> send_entry" where
  "heartbeat_entry enc d =
     send_entry_vector Heartbeat (enc (heartbeat_deadline_value d)) None None"

lemma uint_heartbeat_deadline:
  "0 \<le> ms \<Longrightarrow> ms < 2 ^ 32 \<Longrightarrow> uint (heartbeat_deadline_value (Some ms)) = ms"
  by (simp add: heartbeat_deadline_value_def uint_word_of_int)

section \<open>A datagram arrives\<close>

text \<open>
  The socket writes what fits of a datagram to the front of the receive buffer; the rest of a
  longer datagram is lost.
\<close>

definition received_part :: "bytes \<Rightarrow> 'z base_impl_scheme \<Rightarrow> bytes" where
  "received_part v s = take (length (receive_buffer s)) v"

definition arrives :: "bytes \<Rightarrow> endpoint \<Rightarrow> 'z base_impl_scheme \<Rightarrow> 'z base_impl_scheme" where
  "arrives v ep s =
     s\<lparr>receive_buffer :=
         received_part v s @ drop (length (received_part v s)) (receive_buffer s),
       receive_sender_endpoint := ep\<rparr>"

definition on_datagram ::
    "(bytes \<Rightarrow> u32) \<Rightarrow> bytes \<Rightarrow> endpoint \<Rightarrow> 'z base_impl_scheme \<Rightarrow> 'z base_impl_scheme" where
  "on_datagram dec v ep s =
     receive_handler dec Success (vec_size (received_part v s)) (arrives v ep s)"

lemma dispatched_async_receive [simp]: "dispatched (async_receive s) = dispatched s"
  by (simp add: async_receive_def)

lemma receive_handler_dispatched:
  "dispatched (receive_handler dec ec n s) =
     (if is_error ec \<or> n = 0 then dispatched s else dispatched (receive_datagram dec n s))"
  by (auto simp: receive_handler_def Let_def word_gt_0)

text \<open>The first byte decides; the bytes behind it are the payload.\<close>

lemma on_datagram_typed:
  assumes "receive_buffer s \<noteq> []" and "fits (receive_buffer s)"
  shows "dispatched (on_datagram dec (type_byte t # v) ep s) =
    dispatched (receive_datagram dec (1 + vec_size (take (length (receive_buffer s) - 1) v))
      (arrives (type_byte t # v) ep s))"
    and "receive_buffer (arrives (type_byte t # v) ep s) = type_byte t #
      take (length (receive_buffer s) - 1) v
      @ drop (1 + length (take (length (receive_buffer s) - 1) v)) (receive_buffer s)"
proof -
  obtain m where m: "length (receive_buffer s) = Suc m"
    using assms(1) by (cases "receive_buffer s") auto
  have "vec_size (received_part (type_byte t # v) s) = 1 + vec_size (take m v)"
    by (simp add: received_part_def m vec_size_def)
  moreover have "vec_size (received_part (type_byte t # v) s) \<noteq> 0"
  proof -
    have "fits (received_part (type_byte t # v) s)"
      using assms(2) by (auto simp: fits_def received_part_def)
    then have "unat (vec_size (received_part (type_byte t # v) s)) > 0"
      by (simp add: received_part_def m)
    then show ?thesis by (metis unat_0 less_irrefl)
  qed
  ultimately show "dispatched (on_datagram dec (type_byte t # v) ep s) =
    dispatched (receive_datagram dec (1 + vec_size (take (length (receive_buffer s) - 1) v))
      (arrives (type_byte t # v) ep s))"
    by (simp add: on_datagram_def receive_handler_dispatched m)
  show "receive_buffer (arrives (type_byte t # v) ep s) = type_byte t #
      take (length (receive_buffer s) - 1) v
      @ drop (1 + length (take (length (receive_buffer s) - 1) v)) (receive_buffer s)"
    by (simp add: arrives_def received_part_def m)
qed

lemma arrives_fields [simp]:
  "receive_sender_endpoint (arrives v ep s) = ep" "dispatched (arrives v ep s) = dispatched s"
  "timers_generation (arrives v ep s) = timers_generation s"
  by (simp_all add: arrives_def)

lemma unat_payload_size:
  "fits (receive_buffer s) \<Longrightarrow>
   unat (vec_size (take (length (receive_buffer s) - 1) v)) = min (length v) (length (receive_buffer s) - 1)"
  by (subst unat_vec_size) (auto simp: fits_def)

lemma user_data_dispatched:
  assumes "receive_buffer s \<noteq> []" and "fits (receive_buffer s)"
  shows "dispatched (on_datagram dec (type_byte User_data # v) ep s) =
    dispatched s @ [Received (take (length (receive_buffer s) - 1) v) ep]"
  using on_datagram_typed(1) [OF assms, of dec User_data v ep]
    on_datagram_typed(2) [OF assms, of User_data v ep] unat_payload_size [OF assms(2), of v]
  by (simp add: receive_datagram_def dispatch_task_def type_of_byte_def min_def)

lemma make_buffer_vector:
  assumes "length v < 2 ^ 64 - 1"
  shows "make_buffer (send_entry_vector t v d cb) = type_byte t # v"
proof -
  have wf: "entry_wf (send_entry_vector t v d cb)"
    using assms by (intro entry_wf_constructors(2)) (simp add: fits_def)
  show ?thesis using make_buffer_drop [OF wf] by (simp add: send_entry_vector_def)
qed

text \<open>From the entry to the signal: a payload that is too long for the buffer is cut.\<close>

lemma user_data_received:
  assumes "set_socket_options n ok s = Inr t" and "impl_socket s \<noteq> None"
    and "unat n + 32 < 2 ^ 64" and "length v < 2 ^ 64 - 1"
  shows "dispatched (on_datagram dec (make_buffer (send_entry_vector User_data v d cb)) ep t) =
    dispatched t @ [Received (take (unat n + 31) v) ep]"
proof -
  have "receive_buffer t = resize (n + buffer_margin) (receive_buffer s)"
    using assms(1,2) by (auto simp: set_socket_options_def Let_def split: if_splits)
  moreover have "unat (n + buffer_margin) = unat n + 32"
    using assms(3) by (simp add: buffer_margin_def unat_word_ariths)
  ultimately have len: "length (receive_buffer t) = unat n + 32"
    by (simp add: resize_def)
  then have buf: "receive_buffer t \<noteq> []" "fits (receive_buffer t)"
    using assms(3) by (auto simp: fits_def)
  show ?thesis
    using user_data_dispatched [OF buf, of dec v ep] len by (simp add: make_buffer_vector [OF assms(4)] add.commute)
qed

text \<open>A heartbeat with its four bytes of payload, whatever the platform's byte order.\<close>

context byte_order
begin

lemma heartbeat_dispatched:
  assumes len: "5 \<le> length (receive_buffer s)" and fits: "fits (receive_buffer s)"
  shows "dispatched (on_datagram of_bytes (type_byte Heartbeat # to_bytes w) ep s) =
    dispatched s @
      (if w = 0 then []
       else if non_empty_filesystem_endpoint_path ep
         then [Heartbeat_received (timers_generation s) (uint w) ep]
       else [Warning_reported
         ''sender endpoint is required when next_heartbeat_deadline is specified''])"
proof -
  let ?v = "to_bytes w"
  have ne: "receive_buffer s \<noteq> []" using len by auto
  have take: "take (length (receive_buffer s) - 1) ?v = ?v"
    using len by (simp add: length_to_bytes)
  have size: "vec_size ?v = 4" by (simp add: vec_size_def length_to_bytes)
  have buf: "receive_buffer (arrives (type_byte Heartbeat # ?v) ep s)
      = 0 # ?v @ drop 5 (receive_buffer s)"
    using on_datagram_typed(2) [OF ne fits, of Heartbeat ?v ep] take by (simp add: length_to_bytes)
  have "of_bytes (take 4 (drop 1 (receive_buffer (arrives (type_byte Heartbeat # ?v) ep s)))) = w"
    unfolding buf by (simp add: of_bytes_prefix del: take_append)
  then show ?thesis
    using on_datagram_typed(1) [OF ne fits, of of_bytes Heartbeat ?v ep] buf take size
    by (simp add: receive_datagram_def Let_def dispatch_task_def type_of_byte_def word_gt_0)
qed

end

section \<open>The receiver goes on\<close>

text \<open>Whatever arrives, and whatever error, a live receiver waits for the next datagram.\<close>

lemma receive_handler_again:
  assumes "live s"
  shows "receiving (receive_handler dec ec n s) = receiving s + 1"
    and "live (receive_handler dec ec n s)"
  using assms
  by (auto simp: receive_handler_def receive_datagram_def async_receive_def live_def dispatch_task_def
      Let_def split: option.splits entry_type.splits)

end
