(* ===== verification/Client_Impl.thy ===== *)
theory Client_Impl
  imports Base_Shutdown Heartbeat
begin

text \<open>
  \<open>impl/client_impl.hpp\<close>: connecting a socket, the heartbeats and the check of the client's own
  socket file.
\<close>

section \<open>State\<close>

text \<open>
  The check of the socket file connects another \<open>client_impl\<close>, the probe, to that file: \<open>probe\<close> is
  the path it connects to while it exists.  The probe runs on an io context of its own; what the
  client sees of it are its signals \<open>connected\<close> and \<open>connect_failed\<close>.
\<close>

record client_impl = base_impl +
  probe :: "path option"

definition new_client_impl ::
    "entry_ref list \<Rightarrow> (entry_ref \<Rightarrow> send_entry) \<Rightarrow> path set \<Rightarrow> int \<Rightarrow> client_impl" where
  "new_client_impl entries store fs now =
     base_impl.extend (new_base_impl Client entries store fs now) \<lparr>probe = None\<rparr>"

text \<open>
  What the system answers to \<open>open\<close>, \<open>set_option\<close> and \<open>bind\<close>, and the socket as \<open>open\<close> leaves it.
\<close>

record socket_env =
  open_result :: error_code
  options_accepted :: bool
  bind_result :: error_code
  default_socket :: socket

section \<open>Connecting\<close>

definition async_connect :: "connect_params \<Rightarrow> 'z base_impl_scheme \<Rightarrow> 'z base_impl_scheme" where
  "async_connect p s = post (Io_connect p) s"

definition remove_file :: "path \<Rightarrow> 'z base_impl_scheme \<Rightarrow> 'z base_impl_scheme" where
  "remove_file f s = s\<lparr>files := files s - {f}\<rparr>"

text \<open>A successful \<open>bind\<close> creates the socket file.\<close>

definition bind_socket :: "path \<Rightarrow> 'z base_impl_scheme \<Rightarrow> 'z base_impl_scheme" where
  "bind_socket f s = s\<lparr>files := insert f (files s), bound_path := f\<rparr>"

definition start_connect :: "connect_params \<Rightarrow> 'z base_impl_scheme \<Rightarrow> 'z base_impl_scheme" where
  "start_connect p s = s\<lparr>connecting := connecting s @ [p]\<rparr>"

text \<open>The handler \<open>async_connect\<close> posts.\<close>

definition connect_handler ::
    "socket_env \<Rightarrow> connect_params \<Rightarrow> 'z base_impl_scheme \<Rightarrow> io_error + 'z base_impl_scheme" where
  "connect_handler env p s =
     (if impl_socket s \<noteq> None then Inr s
      else
        let s1 = s\<lparr>impl_socket := Some (default_socket env), socket_ready := False\<rparr>;
            s2 = (case client_socket_file_path p of Some f \<Rightarrow> remove_file f s1 | None \<Rightarrow> s1)
        in if is_error (open_result env) then Inr (dispatch_task (Connect_failed (open_result env)) s2)
           else (case set_socket_options (connect_buffer_size p) (options_accepted env) s2 of
                   Inl e \<Rightarrow> Inl e
                 | Inr s3 \<Rightarrow>
                     (case client_socket_file_path p of
                        None \<Rightarrow> Inr (start_connect p s3)
                      | Some f \<Rightarrow>
                          if is_error (bind_result env)
                          then Inr (dispatch_task (Bind_failed (bind_result env)) s3)
                          else Inr (start_connect p (bind_socket f s3)))))"

section \<open>The checks\<close>

definition start_server_check ::
    "millis option \<Rightarrow> millis option \<Rightarrow> 'z base_impl_scheme \<Rightarrow> 'z base_impl_scheme" where
  "start_server_check interval deadline s =
     (case interval of
        Some iv \<Rightarrow> dispatch_task (Server_check_timer (Timer_start (Io_heartbeat deadline) iv)) s
      | None \<Rightarrow> s)"

definition stop_server_check :: "'z base_impl_scheme \<Rightarrow> 'z base_impl_scheme" where
  "stop_server_check s = dispatch_task (Server_check_timer Timer_stop) s"

text \<open>\<open>r\<close> is the reference of the new entry.\<close>

definition check_server ::
    "(u32 \<Rightarrow> bytes) \<Rightarrow> entry_ref \<Rightarrow> millis option \<Rightarrow> 'z base_impl_scheme \<Rightarrow> 'z base_impl_scheme" where
  "check_server enc r deadline s =
     (if \<not> live s then stop_server_check s
      else async_send r (s\<lparr>entry_store := (entry_store s)(r := heartbeat_entry enc deadline)\<rparr>))"

definition start_client_socket_check ::
    "path option \<Rightarrow> millis option \<Rightarrow> 'z client_impl_scheme \<Rightarrow> 'z client_impl_scheme" where
  "start_client_socket_check file interval s =
     (case (file, interval) of
        (Some f, Some iv) \<Rightarrow>
          dispatch_task (Client_socket_check_timer (Timer_start (Io_check_client_socket f) iv)) s
      | _ \<Rightarrow> s)"

definition stop_client_socket_check :: "'z client_impl_scheme \<Rightarrow> 'z client_impl_scheme" where
  "stop_client_socket_check s =
     (dispatch_task (Client_socket_check_timer Timer_stop) s)\<lparr>probe := None\<rparr>"

definition check_client_socket :: "path \<Rightarrow> 'z client_impl_scheme \<Rightarrow> 'z client_impl_scheme" where
  "check_client_socket f s =
     (if \<not> live s then stop_client_socket_check s
      else if probe s = None then s\<lparr>probe := Some f\<rparr>
      else s)"

section \<open>Connected\<close>

text \<open>The completion of the connect; \<open>pid\<close> is what \<open>getsockopt\<close> finds of the peer.\<close>

definition connected_handler ::
    "error_code \<Rightarrow> connect_params \<Rightarrow> int option \<Rightarrow> 'z client_impl_scheme \<Rightarrow> 'z client_impl_scheme" where
  "connected_handler ec p pid s =
     (if is_error ec then dispatch_task (Connect_failed ec) s
      else
        let s1 = s\<lparr>socket_ready := True, timers_generation := timers_generation s + 1\<rparr>;
            s2 = start_server_check (server_check_interval p) (next_heartbeat_deadline p)
                   (stop_server_check s1);
            s3 = start_client_socket_check (client_socket_file_path p)
                   (client_socket_check_interval p) (stop_client_socket_check s2);
            peer_pid = (if impl_socket s3 \<noteq> None then pid else None)
        in start_actors (dispatch_task (Connected peer_pid) s3))"

section \<open>The handlers of a client\<close>

fun run_client_handler ::
    "(u32 \<Rightarrow> bytes) \<Rightarrow> (bytes \<Rightarrow> u32) \<Rightarrow> socket_env \<Rightarrow> int option \<Rightarrow> entry_ref \<Rightarrow> io_handler
      \<Rightarrow> 'z client_impl_scheme \<Rightarrow> (io_error + 'z client_impl_scheme) option" where
  "run_client_handler enc dec env pid r (Io_connect p) s = Some (connect_handler env p s)"
| "run_client_handler enc dec env pid r (Io_connected ec p) s =
     Some (Inr (connected_handler ec p pid s))"
| "run_client_handler enc dec env pid r (Io_heartbeat d) s = Some (Inr (check_server enc r d s))"
| "run_client_handler enc dec env pid r (Io_check_client_socket f) s =
     Some (Inr (check_client_socket f s))"
| "run_client_handler enc dec env pid r Io_drop_client_socket_probe s =
     Some (Inr (s\<lparr>probe := None\<rparr>))"
| "run_client_handler enc dec env pid r h s = map_option Inr (run_base_handler dec h s)"

section \<open>Steps\<close>

text \<open>
  A connect (of a client) that was asked for and whose success may still be reported, or a bind (of
  a server) that was asked for.
\<close>

fun connect_pending :: "io_handler \<Rightarrow> bool" where
  "connect_pending (Io_connect p) = True"
| "connect_pending (Io_bind f n iv) = True"
| "connect_pending (Io_connected ec p) = (\<not> is_error ec)"
| "connect_pending _ = False"

definition connects :: "'z base_impl_scheme \<Rightarrow> nat" where
  "connects s = length (connecting s) + length (filter connect_pending (io_ready s))"

text \<open>
  The handlers, the base class's other events, the completion of the connect, the rounds of the two
  timers, the signals of the probe, and the owner's \<open>async_connect\<close>, which is called when no earlier
  connect is pending.
\<close>

inductive client_step ::
    "(u32 \<Rightarrow> bytes) \<Rightarrow> (bytes \<Rightarrow> u32) \<Rightarrow> client_impl \<Rightarrow> client_impl \<Rightarrow> bool" for enc dec where
  base: "base_step dec s t \<Longrightarrow> client_step enc dec s t"
| runs: "next_handler s = Some (h, s') \<Longrightarrow> fresh_entry r s' \<Longrightarrow>
    run_client_handler enc dec env pid r h s' = Some (Inr t) \<Longrightarrow> client_step enc dec s t"
| connect_ends: "connecting s = ps @ p # qs \<Longrightarrow>
    client_step enc dec s (post (Io_connected ec p) (s\<lparr>connecting := ps @ qs\<rparr>))"
| server_check_round: "client_step enc dec s (post (Io_heartbeat d) s)"
| client_socket_check_round: "client_step enc dec s (post (Io_check_client_socket f) s)"
| probe_connected: "probe s \<noteq> None \<Longrightarrow> client_step enc dec s (post Io_drop_client_socket_probe s)"
| probe_failed: "probe s \<noteq> None \<Longrightarrow> client_step enc dec s (async_close s)"
| connect_called: "connects s = 0 \<Longrightarrow> client_step enc dec s (async_connect p s)"

inductive client_reachable ::
    "(u32 \<Rightarrow> bytes) \<Rightarrow> (bytes \<Rightarrow> u32) \<Rightarrow> client_impl \<Rightarrow> bool" for enc dec where
  new: "client_reachable enc dec (new_client_impl [] store fs now)"
| step: "client_reachable enc dec s \<Longrightarrow> client_step enc dec s t \<Longrightarrow> client_reachable enc dec t"

text \<open>The states reached when the owner may ask for a connect at any time.\<close>

inductive calling_reachable ::
    "(u32 \<Rightarrow> bytes) \<Rightarrow> (bytes \<Rightarrow> u32) \<Rightarrow> client_impl \<Rightarrow> bool" for enc dec where
  new: "calling_reachable enc dec (new_client_impl [] store fs now)"
| step: "calling_reachable enc dec s \<Longrightarrow> client_step enc dec s t \<Longrightarrow> calling_reachable enc dec t"
| call: "calling_reachable enc dec s \<Longrightarrow> calling_reachable enc dec (async_connect p s)"

lemma calling_reachable_of: "client_reachable enc dec s \<Longrightarrow> calling_reachable enc dec s"
  by (induction rule: client_reachable.induct) (auto intro: calling_reachable.intros)

end
