(* ===== verification/Client_Sender.thy ===== *)
theory Client_Sender
  imports Client_Impl
begin

text \<open>
  The sender of a client over all its connections: whatever the order of connects, closes, sends and
  completions, it stays one loop, if the owner asks for a connect only when no earlier one is pending.
\<close>

section \<open>What the base class leaves to the connect\<close>

text \<open>
  The handlers a step appends have nothing to do with connects and, when the socket is not live,
  nothing with the sender's loop.
\<close>

definition adds :: "'z base_impl_scheme \<Rightarrow> io_handler list \<Rightarrow> bool" where
  "adds s hs \<longleftrightarrow> (\<forall>h \<in> set hs. \<not> connect_pending h) \<and> (\<not> live s \<longrightarrow> (\<forall>h \<in> set hs. \<not> goes_on h))"

definition connect_frame :: "'z base_impl_scheme \<Rightarrow> 'z base_impl_scheme \<Rightarrow> bool" where
  "connect_frame s t \<longleftrightarrow> (\<exists>hs. io_ready t = io_ready s @ hs \<and> adds s hs) \<and>
     (connecting t = connecting s \<or> connecting t = []) \<and>
     (socket_ready t \<longrightarrow> socket_ready s) \<and> (live t \<longrightarrow> live s)"

lemma adds_Nil [simp]: "adds s []"
  by (simp add: adds_def)

lemma adds_append [simp]: "adds s (hs @ hs') \<longleftrightarrow> adds s hs \<and> adds s hs'"
  by (auto simp: adds_def)

lemma connect_frame_refl [simp]: "connect_frame s s"
  by (auto simp: connect_frame_def)

lemma connect_frame_trans: "connect_frame s t \<Longrightarrow> connect_frame t u \<Longrightarrow> connect_frame s u"
  unfolding connect_frame_def adds_def by fastforce

lemma base_handler_connect: "base_handler h \<Longrightarrow> \<not> connect_pending h"
  by (cases h) simp_all

text \<open>While the socket is live, appending handlers of the base class is enough.\<close>

lemma connect_frame_live:
  assumes "live s" and "appends s t" and "same_ends s t" and "socket_ready t \<longrightarrow> socket_ready s"
  shows "connect_frame s t"
  using assms base_handler_connect
  by (fastforce simp: connect_frame_def appends_def same_ends_def adds_def list_all_iff live_def)

lemma same_ready_await: "socket_ready (await_send_entry d s) = socket_ready s"
  by (simp add: await_send_entry_def impl_simps start_send_def split: option.splits)

lemma connect_frame_io [simp]:
  "\<not> connect_pending h \<Longrightarrow> \<not> goes_on h \<Longrightarrow> connect_frame s (post h s)"
  "connect_frame s (dispatch_task t s)" "connect_frame s (update_entry r f s)"
  "connect_frame s (deadline_expires_at tp s)" "connect_frame s (deadline_wait s)"
  "connect_frame s (async_receive s)" "connect_frame s (reset_work_guard s)"
  "connect_frame s (pop_front_send_entry s)"
  by (auto simp: connect_frame_def adds_def impl_simps update_entry_def async_receive_def
      reset_work_guard_def pop_front_send_entry_def live_def split: list.splits option.splits)

lemma connect_frame_await [simp]: "connect_frame s (await_send_entry d s)"
proof (cases "live s")
  case True
  then show ?thesis by (intro connect_frame_live) (simp_all add: same_ready_await)
next
  case False
  then show ?thesis by (simp add: await_send_entry_def)
qed

lemma connect_frame_finish: "connect_frame s (finish_send r d s)"
  by (auto simp: finish_send_def intro: connect_frame_trans [OF connect_frame_io(8)])

lemma connect_frame_handle_send: "connect_frame s (handle_send ec n r s)"
proof -
  let ?s1 = "deadline_expires_at pos_infin (update_entry r (add_bytes_transferred n) s)"
  have s1: "connect_frame s ?s1"
    by (rule connect_frame_trans) (rule connect_frame_io)+
  have nbs: "connect_frame ?s1 (handle_no_buffer_space r ?s1)"
    by (auto simp: handle_no_buffer_space_def Let_def
        intro!: connect_frame_trans [OF _ connect_frame_io(2)] connect_frame_trans [OF _ connect_frame_io(3)])
  have report: "connect_frame ?s1 (dispatch_task t (update_entry r drop_entry ?s1))" for t
    by (rule connect_frame_trans [OF connect_frame_io(3) connect_frame_io(2)])
  have close: "connect_frame ?s1 (async_close (dispatch_task t ?s1))" for t
    unfolding async_close_def
    by (rule connect_frame_trans [OF connect_frame_io(2) connect_frame_io(1)]) simp_all
  have "connect_frame ?s1 (handle_send ec n r s)"
    by (auto simp: handle_send_def Let_def close
        intro: connect_frame_trans [OF _ connect_frame_finish] nbs report)
  with s1 show ?thesis by (rule connect_frame_trans)
qed

lemma connect_frame_receive: "connect_frame s (receive_handler dec ec n s)"
proof -
  have d: "connect_frame s (receive_datagram dec n s)"
    by (simp add: receive_datagram_def Let_def split: option.splits entry_type.splits)
  then show ?thesis
    using connect_frame_trans [OF d connect_frame_io(6)] by (simp add: receive_handler_def Let_def)
qed

lemma connect_frame_check_deadline: "connect_frame s (check_send_deadline s)"
  by (simp add: check_send_deadline_def async_close_def)

lemma connect_frame_send_handler:
  assumes "\<not> live s \<longrightarrow> waits (send_invoker s) = 0"
  shows "connect_frame s (send_handler r s)"
  using assms by (auto simp: connect_frame_def adds_def send_handler_def impl_simps live_def)

lemma connect_frame_close:
  assumes "\<not> live s \<longrightarrow> sending s = [] \<and> waits (send_invoker s) = 0"
  shows "connect_frame s (close_handler s)"
proof (cases "impl_socket s")
  case None
  then show ?thesis by (simp add: close_handler_def)
next
  case (Some k)
  from assms show ?thesis
    by (auto simp: connect_frame_def close_handler_fields [OF Some] adds_def live_def)
qed

text \<open>A handler of the base class, without the handler itself.\<close>

lemma connect_frame_run:
  assumes "run_base_handler dec h s = Some t"
    and "\<not> live s \<longrightarrow> sending s = [] \<and> waits (send_invoker s) = 0"
  shows "connect_frame s t"
  using assms
  by (cases h) (auto intro: connect_frame_close connect_frame_send_handler connect_frame_receive
      connect_frame_handle_send connect_frame_check_deadline)

section \<open>One connect at a time\<close>

fun connect_done :: "io_handler \<Rightarrow> bool" where
  "connect_done (Io_connected ec p) = (\<not> is_error ec)"
| "connect_done _ = False"

lemma connect_done_pending: "connect_done h \<Longrightarrow> connect_pending h \<and> \<not> goes_on h \<and> posted [h] = []"
  by (cases h) simp_all

definition completes :: "'z base_impl_scheme \<Rightarrow> bool" where
  "completes s \<longleftrightarrow> connecting s \<noteq> [] \<or> list_ex connect_done (io_ready s)"

text \<open>What is left of an earlier connection's loop runs before the connect completes.\<close>

fun loop_first :: "io_handler list \<Rightarrow> bool" where
  "loop_first [] = True"
| "loop_first (h # hs) = ((connect_done h \<longrightarrow> \<not> list_ex goes_on hs) \<and> loop_first hs)"

lemma loop_first_append [simp]:
  "loop_first (hs @ ks) \<longleftrightarrow> loop_first hs \<and> loop_first ks \<and>
     (list_ex connect_done hs \<longrightarrow> \<not> list_ex goes_on ks)"
  by (induction hs) auto

lemma loop_first_none: "\<not> list_ex connect_done hs \<Longrightarrow> loop_first hs"
  by (induction hs) auto

definition connect_inv :: "'z base_impl_scheme \<Rightarrow> bool" where
  "connect_inv s \<longleftrightarrow> connects s \<le> 1 \<and> (completes s \<longrightarrow> \<not> socket_ready s) \<and> loop_first (io_ready s)"

lemma adds_filter: "adds s hs \<Longrightarrow> filter connect_pending hs = [] \<and> \<not> list_ex connect_done hs"
  using connect_done_pending by (auto simp: adds_def filter_empty_conv list_ex_iff)

lemma connect_inv_frame:
  assumes "connect_inv s" and "connect_frame s t"
  shows "connect_inv t"
proof -
  obtain hs where hs: "io_ready t = io_ready s @ hs" "adds s hs"
    and rest: "connecting t = connecting s \<or> connecting t = []" "socket_ready t \<longrightarrow> socket_ready s"
    using assms(2) by (auto simp: connect_frame_def)
  note none = adds_filter [OF hs(2)]
  have "list_ex connect_done (io_ready s) \<Longrightarrow> \<not> list_ex goes_on hs"
    using assms(1) hs(2) by (auto simp: connect_inv_def completes_def adds_def live_def list_ex_iff)
  with assms(1) hs rest none show ?thesis
    by (auto simp: connect_inv_def connects_def completes_def loop_first_none)
qed

lemma connect_inv_take:
  "connect_inv s \<Longrightarrow> io_ready s = h # hs \<Longrightarrow> connect_inv (s\<lparr>io_ready := hs\<rparr>)"
  by (auto simp: connect_inv_def connects_def completes_def split: if_splits)

lemma base_step_connect:
  assumes "base_step dec s t" and sender: "sender_inv s" and inv: "connect_inv s"
  shows "connect_inv t"
  using assms(1)
proof cases
  case (handler h s')
  then obtain hs where hs: "io_ready s = h # hs" and s': "s' = s\<lparr>io_ready := hs\<rparr>"
    by (auto simp: next_handler_def split: list.splits)
  have "connect_frame s' t"
    using sender_invD(4) [OF sender]
    by (intro connect_frame_run [OF handler(2)]) (auto simp: s' live_def)
  with connect_inv_take [OF inv hs] show ?thesis
    unfolding s' by (rule connect_inv_frame)
next
  case (sends ps r v dest qs n ec)
  have "live s" using sender_invD(4) [OF sender] sends by auto
  then have "connect_frame s t"
    using sends by (auto simp: connect_frame_def adds_def post_def live_def)
  with inv show ?thesis by (rule connect_inv_frame)
next
  case invoker_fires
  have "live s" using sender_invD(4) [OF sender] invoker_fires by auto
  then have "connect_frame s t"
    using invoker_fires by (auto simp: connect_frame_def adds_def post_def live_def)
  with inv show ?thesis by (rule connect_inv_frame)
qed (rule connect_inv_frame [OF inv];
    simp add: connect_frame_def adds_def post_def live_def async_send_def async_close_def
      terminate_base_impl_def)+

section \<open>The invariant of a client\<close>

definition client_inv :: "'z base_impl_scheme \<Rightarrow> bool" where
  "client_inv s \<longleftrightarrow> sender_inv s \<and> connect_inv s"

lemma client_inv_frame:
  "client_inv s \<Longrightarrow> same_sender s t \<Longrightarrow> connect_frame s t \<Longrightarrow> client_inv t"
  by (auto simp: client_inv_def intro: sender_inv_frame connect_inv_frame)

lemma client_inv_take:
  "client_inv s \<Longrightarrow> io_ready s = h # hs \<Longrightarrow> \<not> goes_on h \<Longrightarrow> posted [h] = [] \<Longrightarrow> h \<noteq> Io_close \<Longrightarrow>
   client_inv (s\<lparr>io_ready := hs\<rparr>)"
  by (simp add: client_inv_def sender_inv_take connect_inv_take)

lemma client_inv_base_step: "base_step dec s t \<Longrightarrow> client_inv s \<Longrightarrow> client_inv t"
  by (simp add: client_inv_def base_step_inv base_step_connect)

lemma client_inv_dispatch [simp]: "client_inv s \<Longrightarrow> client_inv (dispatch_task t s)"
  by (erule client_inv_frame) simp_all

lemma client_inv_post:
  "client_inv s \<Longrightarrow> \<not> goes_on h \<Longrightarrow> \<not> connect_pending h \<Longrightarrow> posted [h] = [] \<Longrightarrow> client_inv (post h s)"
  by (erule client_inv_frame) (simp_all add: same_sender_post)

section \<open>The client's own handlers\<close>

text \<open>Opening and binding leave the sender alone; the connect is pending from here on.\<close>

lemma set_socket_options_fields:
  assumes "set_socket_options n ok s = Inr t"
  shows "io_ready t = io_ready s" "connecting t = connecting s" "socket_ready t = socket_ready s"
    "send_entries t = send_entries s" "sending t = sending s" "send_invoker t = send_invoker s"
    "entry_store t = entry_store s" "impl_socket t = None \<longleftrightarrow> impl_socket s = None"
    "files t = files s" "bound_path t = bound_path s" "dispatched t = dispatched s"
    "receiving t = receiving s" "impl_mode t = impl_mode s" "timers_generation t = timers_generation s"
  using assms by (auto simp: set_socket_options_def Let_def split: option.splits if_splits)

lemma connect_handler_cases:
  assumes "connect_handler env p s = Inr t"
  shows "t = s \<or> impl_socket s = None \<and> same_sender s t \<and> \<not> socket_ready t \<and>
    io_ready t = io_ready s \<and> (connecting t = connecting s \<or> connecting t = connecting s @ [p])"
proof (cases "impl_socket s")
  case (Some k)
  with assms show ?thesis by (simp add: connect_handler_def)
next
  case None
  let ?s1 = "s\<lparr>impl_socket := Some (default_socket env), socket_ready := False\<rparr>"
  define s2 where "s2 = (case client_socket_file_path p of Some f \<Rightarrow> remove_file f ?s1 | None \<Rightarrow> ?s1)"
  have s2: "io_ready s2 = io_ready s" "connecting s2 = connecting s" "\<not> socket_ready s2"
    "send_entries s2 = send_entries s" "sending s2 = sending s" "send_invoker s2 = send_invoker s"
    "entry_store s2 = entry_store s"
    by (simp_all add: s2_def remove_file_def split: option.splits)
  show ?thesis
  proof (cases "is_error (open_result env)")
    case True
    with assms None have "t = dispatch_task (Connect_failed (open_result env)) s2"
      by (simp add: connect_handler_def s2_def Let_def)
    with None s2 show ?thesis by (simp add: same_sender_def live_def dispatch_task_def)
  next
    case False
    obtain s3 where s3: "set_socket_options (connect_buffer_size p) (options_accepted env) s2 = Inr s3"
      using assms None False by (auto simp: connect_handler_def s2_def Let_def split: sum.splits)
    note f = set_socket_options_fields [OF s3]
    from assms None False s3 have "t = (case client_socket_file_path p of
        None \<Rightarrow> start_connect p s3
      | Some f \<Rightarrow> if is_error (bind_result env)
          then dispatch_task (Bind_failed (bind_result env)) s3
          else start_connect p (bind_socket f s3))"
      by (auto simp: connect_handler_def s2_def Let_def split: option.splits if_splits)
    with None s2 f show ?thesis
      by (auto simp: same_sender_def live_def dispatch_task_def start_connect_def bind_socket_def
          split: option.splits if_splits)
  qed
qed

lemma client_inv_connect:
  assumes inv: "client_inv s" and h: "io_ready s = Io_connect p # hs"
    and run: "connect_handler env p (s\<lparr>io_ready := hs\<rparr>) = Inr t"
  shows "client_inv t"
proof -
  let ?s = "s\<lparr>io_ready := hs\<rparr>"
  have s: "client_inv ?s" using inv h by (rule client_inv_take) simp_all
  have n: "connects ?s = 0" using inv h by (simp add: client_inv_def connect_inv_def connects_def)
  then have "\<not> completes ?s"
    using connect_done_pending by (auto simp: completes_def connects_def list_ex_iff filter_empty_conv)
  with connect_handler_cases [OF run] s n show ?thesis
    by (auto simp: client_inv_def connect_inv_def connects_def completes_def intro: sender_inv_frame)
qed

text \<open>Telling the dispatcher and counting the generation leave everything in place.\<close>

definition same_core :: "'z base_impl_scheme \<Rightarrow> 'z base_impl_scheme \<Rightarrow> bool" where
  "same_core s t \<longleftrightarrow> send_entries t = send_entries s \<and> sending t = sending s \<and>
     send_invoker t = send_invoker s \<and> entry_store t = entry_store s \<and> io_ready t = io_ready s \<and>
     connecting t = connecting s \<and> impl_socket t = impl_socket s \<and> receiving t = receiving s"

lemma same_core_trans: "same_core s t \<Longrightarrow> same_core t u \<Longrightarrow> same_core s u"
  by (simp add: same_core_def)

lemma same_core_ops [simp]:
  "same_core s s" "same_core s (dispatch_task t s)" "same_core s (start_server_check iv d s)"
  "same_core s (stop_server_check s)" "same_core s (s\<lparr>socket_ready := b, timers_generation := g\<rparr>)"
  by (simp_all add: same_core_def dispatch_task_def start_server_check_def stop_server_check_def
      split: option.splits)

lemma same_core_client_ops [simp]:
  "same_core s (start_client_socket_check f iv s)" "same_core s (stop_client_socket_check s)"
  "same_core s (s\<lparr>probe := p\<rparr>)" for s :: "'z client_impl_scheme"
  by (simp_all add: same_core_def dispatch_task_def start_client_socket_check_def
      stop_client_socket_check_def split: option.splits)

lemma same_core_between: "same_core s t \<Longrightarrow> between s \<Longrightarrow> between t"
  by (simp add: same_core_def between_def entries_ok_def loops_def)

lemma client_inv_core:
  "client_inv s \<Longrightarrow> same_core s t \<Longrightarrow> socket_ready t = socket_ready s \<Longrightarrow> client_inv t"
  by (erule client_inv_frame)
    (auto simp: same_core_def same_sender_def connect_frame_def live_def adds_def)

lemma connect_frame_start_actors: "connect_frame s (start_actors s)"
  by (auto simp: start_actors_def Let_def
      intro!: connect_frame_trans [OF _ connect_frame_io(6)]
        connect_frame_trans [OF _ connect_frame_check_deadline]
        connect_frame_trans [OF _ connect_frame_io(4)])

lemma client_inv_start:
  assumes "between s" and "connects s = 0"
  shows "client_inv (start_actors s)"
proof -
  have none: "\<not> list_ex connect_done (io_ready s)"
    using assms(2) connect_done_pending by (auto simp: connects_def list_ex_iff filter_empty_conv)
  then have "connect_inv s"
    using assms(2) by (simp add: connect_inv_def completes_def connects_def loop_first_none)
  then show ?thesis
    using assms(1)
    by (auto simp: client_inv_def intro: start_actors_inv connect_inv_frame [OF _ connect_frame_start_actors])
qed

lemma between_connected:
  assumes inv: "client_inv s" and h: "io_ready s = Io_connected Success p # hs"
  shows "between (s\<lparr>io_ready := hs\<rparr>)" and "connects (s\<lparr>io_ready := hs\<rparr>) = 0"
proof -
  have "\<not> live s"
    using inv h by (auto simp: client_inv_def connect_inv_def completes_def live_def)
  then have idle: "sending s = []" "waits (send_invoker s) = 0"
    using inv sender_invD(4) by (auto simp: client_inv_def)
  have "\<not> list_ex goes_on hs" and ok: "entries_ok s"
    using inv h by (auto simp: client_inv_def connect_inv_def dest: sender_invD(1))
  with idle show "between (s\<lparr>io_ready := hs\<rparr>)"
    by (auto simp: between_iff entries_ok_def h list_ex_iff)
  show "connects (s\<lparr>io_ready := hs\<rparr>) = 0"
    using inv h by (simp add: client_inv_def connect_inv_def connects_def)
qed

lemma client_inv_connected:
  assumes inv: "client_inv s" and h: "io_ready s = Io_connected ec p # hs"
  shows "client_inv (connected_handler ec p pid (s\<lparr>io_ready := hs\<rparr>))"
proof (cases "is_error ec")
  case True
  have "client_inv (s\<lparr>io_ready := hs\<rparr>)" using inv h by (rule client_inv_take) simp_all
  with True show ?thesis by (simp add: connected_handler_def)
next
  case False
  let ?s = "s\<lparr>io_ready := hs\<rparr>"
  from False h have "io_ready s = Io_connected Success p # hs" by (simp add: is_error_def)
  note b = between_connected [OF inv this]
  obtain u where u: "connected_handler ec p pid ?s = start_actors u" and core: "same_core ?s u"
    using False by (auto simp: connected_handler_def Let_def
        intro!: same_core_trans [OF _ same_core_ops(2)] same_core_trans [OF _ same_core_ops(3)]
          same_core_trans [OF _ same_core_ops(4)] same_core_trans [OF _ same_core_client_ops(1)]
          same_core_trans [OF _ same_core_client_ops(2)] same_core_ops(5))
  have "connects u = connects ?s" using core by (simp add: connects_def same_core_def)
  with b u same_core_between [OF core] show ?thesis by (simp add: client_inv_start)
qed

lemma client_inv_check_server:
  assumes "client_inv s" and "fresh_entry r s" and "entry_wf (heartbeat_entry enc d)"
  shows "client_inv (check_server enc r d s)"
proof (cases "live s")
  case True
  then show ?thesis
    using assms client_inv_base_step [OF base_step.client_sends [OF assms(2,3)]]
    by (simp add: check_server_def)
next
  case False
  with assms(1) show ?thesis by (simp add: check_server_def stop_server_check_def)
qed

section \<open>Preservation\<close>

lemma heartbeat_entry_wf:
  "length (enc (heartbeat_deadline_value d)) < 100 \<Longrightarrow> entry_wf (heartbeat_entry enc d)"
  by (simp add: heartbeat_entry_def entry_wf_constructors fits_def)

context byte_order
begin

lemma heartbeat_entry_wf_bytes: "entry_wf (heartbeat_entry to_bytes d)"
  by (simp add: heartbeat_entry_wf length_to_bytes)

lemma client_inv_runs:
  assumes inv: "client_inv s" and h: "next_handler s = Some (h, s')" and fresh: "fresh_entry r s'"
    and run: "run_client_handler to_bytes of_bytes env pid r h s' = Some (Inr t)"
  shows "client_inv t"
proof -
  from h obtain hs where hs: "io_ready s = h # hs" and s': "s' = s\<lparr>io_ready := hs\<rparr>"
    by (auto simp: next_handler_def split: list.splits)
  have base: "client_inv t" if "run_base_handler of_bytes h s' = Some t"
    using base_step.handler [OF h that] inv by (rule client_inv_base_step)
  have take: "client_inv s'" if "\<not> goes_on h" "posted [h] = []" "h \<noteq> Io_close"
    using client_inv_take [OF inv hs that] s' by simp
  show ?thesis
  proof (cases h)
    case (Io_connect p)
    with run inv hs show ?thesis by (auto simp: s' intro: client_inv_connect)
  next
    case (Io_connected ec p)
    with run inv hs show ?thesis by (auto simp: s' intro: client_inv_connected)
  next
    case (Io_heartbeat d)
    with run take fresh heartbeat_entry_wf_bytes show ?thesis
      by (auto intro: client_inv_check_server)
  next
    case (Io_check_client_socket f)
    have "same_core s' t" "socket_ready t = socket_ready s'"
      using run Io_check_client_socket
      by (auto simp: check_client_socket_def stop_client_socket_check_def dispatch_task_def
          same_core_def split: if_splits)
    with take Io_check_client_socket show ?thesis by (auto intro: client_inv_core)
  next
    case Io_drop_client_socket_probe
    have "same_core s' t" "socket_ready t = socket_ready s'"
      using run Io_drop_client_socket_probe by auto
    with take Io_drop_client_socket_probe show ?thesis by (auto intro: client_inv_core)
  qed (use run base in auto)
qed

lemma client_inv_connect_ends:
  assumes inv: "client_inv s" and p: "connecting s = ps @ p # qs"
  shows "client_inv (post (Io_connected ec p) (s\<lparr>connecting := ps @ qs\<rparr>))" (is "client_inv ?t")
proof -
  have "same_sender s ?t" by (auto simp: same_sender_def post_def live_def)
  then have "sender_inv ?t" using inv by (auto simp: client_inv_def intro: sender_inv_frame)
  moreover have "connect_inv ?t"
    using inv p by (auto simp: client_inv_def connect_inv_def connects_def completes_def post_def)
  ultimately show ?thesis by (simp add: client_inv_def)
qed

lemma client_inv_connect_called:
  assumes "client_inv s" and "connects s = 0"
  shows "client_inv (async_connect p s)"
proof -
  have "same_sender s (async_connect p s)" by (simp add: async_connect_def same_sender_post)
  moreover have "connect_inv (async_connect p s)"
    using assms by (auto simp: client_inv_def connect_inv_def connects_def completes_def
        async_connect_def post_def)
  ultimately show ?thesis
    using assms(1) by (auto simp: client_inv_def intro: sender_inv_frame)
qed

lemma client_inv_step:
  "client_step to_bytes of_bytes s t \<Longrightarrow> client_inv s \<Longrightarrow> client_inv t"
proof (induction rule: client_step.induct)
  case (base s t)
  then show ?case by (rule client_inv_base_step)
next
  case (runs s h s' r env pid t)
  then show ?case by (blast intro: client_inv_runs)
next
  case (connect_ends s ps p qs ec)
  then show ?case by (blast intro: client_inv_connect_ends)
next
  case (probe_failed s)
  then show ?case by (simp add: async_close_def client_inv_post)
next
  case (connect_called s p)
  then show ?case by (blast intro: client_inv_connect_called)
qed (simp_all add: client_inv_post)

lemma client_inv_new: "client_inv (new_client_impl [] store fs now)"
  by (simp add: client_inv_def connect_inv_def connects_def completes_def sender_inv_def
      entries_ok_def sends_front_def loops_def live_def new_client_impl_def new_base_impl_def
      base_impl.defs)

lemma client_reachable_inv: "client_reachable to_bytes of_bytes s \<Longrightarrow> client_inv s"
  by (induction rule: client_reachable.induct) (auto intro: client_inv_new client_inv_step)

end

end
