(* ===== verification/Server_Impl.thy ===== *)
theory Server_Impl
  imports Client_Sender
begin

text \<open>
  \<open>impl/server_impl.hpp\<close>: binding the server's socket and checking that it can be connected to, and
  the sender of a server over the life of its \<open>server_impl\<close>.
\<close>

section \<open>State\<close>

text \<open>\<open>server_probe\<close>: the path the \<open>client_impl\<close> of the check connects to while it exists.\<close>

record server_impl = base_impl +
  server_probe :: "path option"

definition new_server_impl ::
    "entry_ref list \<Rightarrow> (entry_ref \<Rightarrow> send_entry) \<Rightarrow> path set \<Rightarrow> int \<Rightarrow> server_impl" where
  "new_server_impl entries store fs now =
     base_impl.extend (new_base_impl Server entries store fs now) \<lparr>server_probe = None\<rparr>"

section \<open>The check\<close>

definition start_bind_check ::
    "path \<Rightarrow> millis option \<Rightarrow> 'z base_impl_scheme \<Rightarrow> 'z base_impl_scheme" where
  "start_bind_check f interval s =
     (case interval of
        Some iv \<Rightarrow> dispatch_task (Server_check_timer (Timer_start (Io_check_server f) iv)) s
      | None \<Rightarrow> s)"

definition stop_bind_check :: "'z server_impl_scheme \<Rightarrow> 'z server_impl_scheme" where
  "stop_bind_check s = (dispatch_task (Server_check_timer Timer_stop) s)\<lparr>server_probe := None\<rparr>"

definition check_bind :: "path \<Rightarrow> 'z server_impl_scheme \<Rightarrow> 'z server_impl_scheme" where
  "check_bind f s =
     (if \<not> live s then stop_bind_check s
      else if server_probe s = None then s\<lparr>server_probe := Some f\<rparr>
      else s)"

section \<open>Binding\<close>

definition async_bind ::
    "path \<Rightarrow> size_t \<Rightarrow> millis option \<Rightarrow> 'z base_impl_scheme \<Rightarrow> 'z base_impl_scheme" where
  "async_bind f sz interval s = post (Io_bind f sz interval) (async_close s)"

text \<open>A new socket; the destructor of the one it replaces, if any, cancels its operations.\<close>

definition replace_socket :: "socket \<Rightarrow> 'z base_impl_scheme \<Rightarrow> 'z base_impl_scheme" where
  "replace_socket k s =
     (if impl_socket s \<noteq> None then socket_cancel s else s)\<lparr>impl_socket := Some k\<rparr>"

text \<open>The handler \<open>async_bind\<close> posts.\<close>

definition bind_handler ::
    "socket_env \<Rightarrow> path \<Rightarrow> size_t \<Rightarrow> millis option \<Rightarrow> 'z base_impl_scheme
      \<Rightarrow> io_error + 'z base_impl_scheme" where
  "bind_handler env f sz interval s =
     (let s1 = replace_socket (default_socket env) (remove_file f (s\<lparr>socket_ready := False\<rparr>)) in
      if is_error (open_result env) then Inr (dispatch_task (Bind_failed (open_result env)) s1)
      else
        (case set_socket_options sz (options_accepted env) s1 of
           Inl e \<Rightarrow> Inl e
         | Inr s2 \<Rightarrow>
             if is_error (bind_result env) then Inr (dispatch_task (Bind_failed (bind_result env)) s2)
             else
               let s3 = bind_socket f s2;
                   s4 = s3\<lparr>socket_ready := True, timers_generation := timers_generation s3 + 1\<rparr>
               in Inr (start_actors (dispatch_task Bound (start_bind_check f interval s4)))))"

section \<open>The handlers of a server\<close>

fun run_server_handler ::
    "(bytes \<Rightarrow> u32) \<Rightarrow> socket_env \<Rightarrow> io_handler
      \<Rightarrow> 'z server_impl_scheme \<Rightarrow> (io_error + 'z server_impl_scheme) option" where
  "run_server_handler dec env (Io_bind f sz interval) s = Some (bind_handler env f sz interval s)"
| "run_server_handler dec env (Io_check_server f) s = Some (Inr (check_bind f s))"
| "run_server_handler dec env Io_drop_server_probe s = Some (Inr (s\<lparr>server_probe := None\<rparr>))"
| "run_server_handler dec env h s = map_option Inr (run_base_handler dec h s)"

section \<open>Steps\<close>

inductive server_step :: "(bytes \<Rightarrow> u32) \<Rightarrow> server_impl \<Rightarrow> server_impl \<Rightarrow> bool" for dec where
  base: "base_step dec s t \<Longrightarrow> server_step dec s t"
| runs: "next_handler s = Some (h, s') \<Longrightarrow> run_server_handler dec env h s' = Some (Inr t) \<Longrightarrow>
    server_step dec s t"
| check_round: "server_step dec s (post (Io_check_server f) s)"
| probe_connected: "server_probe s \<noteq> None \<Longrightarrow> server_step dec s (post Io_drop_server_probe s)"
| probe_failed: "server_probe s \<noteq> None \<Longrightarrow> server_step dec s (async_close s)"

text \<open>
  The owner (\<open>server::bind\<close>) creates the object over the queue of entries it keeps and binds it once.
\<close>

inductive server_reachable :: "(bytes \<Rightarrow> u32) \<Rightarrow> server_impl \<Rightarrow> bool" for dec where
  bound: "distinct entries \<Longrightarrow> (\<forall>r \<in> set entries. entry_wf (store r)) \<Longrightarrow>
    server_reachable dec (async_bind f sz interval (new_server_impl entries store fs now))"
| step: "server_reachable dec s \<Longrightarrow> server_step dec s t \<Longrightarrow> server_reachable dec t"

section \<open>One bind\<close>

fun is_bind :: "io_handler \<Rightarrow> bool" where
  "is_bind (Io_bind f sz interval) = True"
| "is_bind _ = False"

lemma is_bind_pending: "is_bind h \<Longrightarrow> connect_pending h \<and> \<not> goes_on h \<and> posted [h] = []"
  by (cases h) simp_all

definition bind_inv :: "'z base_impl_scheme \<Rightarrow> bool" where
  "bind_inv s \<longleftrightarrow> connecting s = [] \<and> connects s \<le> 1 \<and>
     (list_ex is_bind (io_ready s) \<longrightarrow> impl_socket s = None \<and> \<not> list_ex goes_on (io_ready s))"

definition server_inv :: "'z base_impl_scheme \<Rightarrow> bool" where
  "server_inv s \<longleftrightarrow> sender_inv s \<and> bind_inv s"

lemma adds_no_bind: "adds s hs \<Longrightarrow> \<not> list_ex is_bind hs"
  using is_bind_pending by (auto simp: adds_def list_ex_iff)

lemma bind_inv_frame:
  assumes "bind_inv s" and "connect_frame s t" and "impl_socket s = None \<longrightarrow> impl_socket t = None"
  shows "bind_inv t"
proof -
  obtain hs where hs: "io_ready t = io_ready s @ hs" "adds s hs"
    and rest: "connecting t = connecting s \<or> connecting t = []"
    using assms(2) by (auto simp: connect_frame_def)
  have "impl_socket s = None \<Longrightarrow> \<not> list_ex goes_on hs"
    using hs(2) by (auto simp: adds_def live_def list_ex_iff)
  with assms(1,3) hs(1) rest adds_filter [OF hs(2)] adds_no_bind [OF hs(2)] show ?thesis
    by (auto simp: bind_inv_def connects_def)
qed

lemma bind_inv_take:
  "bind_inv s \<Longrightarrow> io_ready s = h # hs \<Longrightarrow> bind_inv (s\<lparr>io_ready := hs\<rparr>)"
  by (auto simp: bind_inv_def connects_def split: if_splits)

lemma base_run_socket:
  assumes "run_base_handler dec h s = Some t" and "impl_socket s = None"
  shows "impl_socket t = None"
  using assms same_ends_run [OF assms(1)]
  by (cases h) (auto simp: same_ends_def close_handler_def reset_work_guard_def)

lemma server_inv_base_step:
  assumes step: "base_step dec s t" and inv: "server_inv s"
  shows "server_inv t"
proof -
  from inv have sender: "sender_inv s" and bind: "bind_inv s" by (simp_all add: server_inv_def)
  have "bind_inv t"
    using step
  proof cases
    case (handler h s')
    then obtain hs where hs: "io_ready s = h # hs" and s': "s' = s\<lparr>io_ready := hs\<rparr>"
      by (auto simp: next_handler_def split: list.splits)
    have "connect_frame s' t"
      using sender_invD(4) [OF sender]
      by (intro connect_frame_run [OF handler(2)]) (auto simp: s' live_def)
    with bind_inv_take [OF bind hs] base_run_socket [OF handler(2)] show ?thesis
      unfolding s' by (auto intro: bind_inv_frame)
  next
    case (sends ps r v dest qs n ec)
    have "live s" using sender_invD(4) [OF sender] sends by auto
    then have "connect_frame s t"
      using sends by (auto simp: connect_frame_def adds_def post_def live_def)
    with bind sends show ?thesis by (auto simp: post_def intro: bind_inv_frame)
  next
    case invoker_fires
    have "live s" using sender_invD(4) [OF sender] invoker_fires by auto
    then have "connect_frame s t"
      using invoker_fires by (auto simp: connect_frame_def adds_def post_def live_def)
    with bind invoker_fires show ?thesis by (auto simp: post_def intro: bind_inv_frame)
  qed (rule bind_inv_frame [OF bind];
      simp add: connect_frame_def adds_def post_def live_def async_send_def async_close_def
        terminate_base_impl_def)+
  with step sender show ?thesis by (simp add: server_inv_def base_step_inv)
qed

lemma server_inv_post:
  assumes "server_inv s" and "\<not> goes_on h" and "\<not> connect_pending h" and "posted [h] = []"
  shows "server_inv (post h s)"
proof -
  have "sender_inv s" "bind_inv s" using assms(1) by (simp_all add: server_inv_def)
  then have "sender_inv (post h s)" "bind_inv (post h s)"
    using sender_inv_frame [OF _ same_sender_post [OF assms(2,4)]]
      bind_inv_frame [OF _ connect_frame_io(1) [OF assms(3,2)]] by (simp_all add: post_def)
  then show ?thesis by (simp add: server_inv_def)
qed

section \<open>The server's own handlers\<close>

lemma server_inv_core:
  assumes "server_inv s" and core: "same_core s t" and "socket_ready t = socket_ready s"
  shows "server_inv t"
proof -
  have "same_sender s t" and "connect_frame s t" and "impl_socket t = impl_socket s"
    using assms by (auto simp: same_core_def same_sender_def connect_frame_def live_def)
  with assms(1) show ?thesis
    by (auto simp: server_inv_def intro: sender_inv_frame bind_inv_frame)
qed

lemma server_inv_take:
  "server_inv s \<Longrightarrow> io_ready s = h # hs \<Longrightarrow> \<not> goes_on h \<Longrightarrow> posted [h] = [] \<Longrightarrow> h \<noteq> Io_close \<Longrightarrow>
   server_inv (s\<lparr>io_ready := hs\<rparr>)"
  by (simp add: server_inv_def sender_inv_take bind_inv_take)

lemma start_actors_socket: "impl_socket (start_actors s) = impl_socket s"
  by (simp add: start_actors_def Let_def async_receive_def check_send_deadline_def async_close_def
      await_send_entry_def impl_simps start_send_def split: option.splits)

text \<open>A bind that is reached finds no socket and nothing of the sender in progress.\<close>

lemma bind_handler_parts:
  assumes "bind_handler env f sz interval s = Inr t" and "impl_socket s = None"
  shows "\<not> socket_ready t \<and> same_sender (s\<lparr>socket_ready := False\<rparr>) t \<and> io_ready t = io_ready s
      \<and> connecting t = connecting s \<or>
    (\<exists>u. t = start_actors u \<and> live u \<and> io_ready u = io_ready s \<and> send_entries u = send_entries s \<and>
       sending u = sending s \<and> send_invoker u = send_invoker s \<and> entry_store u = entry_store s \<and>
       connecting u = connecting s \<and> f \<in> files u \<and> bound_path u = f \<and>
       dispatched u = dispatched (start_bind_check f interval s) @ [Bound] \<and>
       impl_mode u = impl_mode s \<and> receiving u = receiving s \<and>
       timers_generation u = timers_generation s + 1)"
proof -
  define s1 where "s1 = replace_socket (default_socket env) (remove_file f (s\<lparr>socket_ready := False\<rparr>))"
  have s1: "io_ready s1 = io_ready s" "connecting s1 = connecting s" "\<not> socket_ready s1"
    "send_entries s1 = send_entries s" "sending s1 = sending s" "send_invoker s1 = send_invoker s"
    "entry_store s1 = entry_store s" "impl_socket s1 \<noteq> None" "dispatched s1 = dispatched s"
    "impl_mode s1 = impl_mode s" "receiving s1 = receiving s" "timers_generation s1 = timers_generation s"
    using assms(2) by (simp_all add: s1_def replace_socket_def remove_file_def)
  note run = assms(1) [unfolded bind_handler_def Let_def, folded s1_def]
  show ?thesis
  proof (cases "is_error (open_result env)")
    case True
    with run s1 show ?thesis by (auto simp: same_sender_def live_def dispatch_task_def)
  next
    case False
    with run obtain s2 where s2: "set_socket_options sz (options_accepted env) s1 = Inr s2"
      by (auto split: sum.splits)
    note g = set_socket_options_fields [OF s2]
    show ?thesis
    proof (cases "is_error (bind_result env)")
      case True
      with run False s2 s1 g show ?thesis
        by (auto simp: same_sender_def live_def dispatch_task_def)
    next
      case ok: False
      let ?s3 = "bind_socket f s2"
      define u where "u = dispatch_task Bound (start_bind_check f interval
        (?s3\<lparr>socket_ready := True, timers_generation := timers_generation ?s3 + 1\<rparr>))"
      have "t = start_actors u" using run False s2 ok by (simp add: u_def Let_def)
      moreover have "live u" "io_ready u = io_ready s" "send_entries u = send_entries s"
        "sending u = sending s" "send_invoker u = send_invoker s" "entry_store u = entry_store s"
        "connecting u = connecting s" "f \<in> files u" "bound_path u = f"
        "dispatched u = dispatched (start_bind_check f interval s) @ [Bound]"
        "impl_mode u = impl_mode s" "receiving u = receiving s"
        "timers_generation u = timers_generation s + 1"
        using s1 g by (cases interval; simp add: u_def live_def dispatch_task_def bind_socket_def
            start_bind_check_def)+
      ultimately show ?thesis by blast
    qed
  qed
qed

lemma server_inv_bind:
  assumes inv: "server_inv s" and h: "io_ready s = Io_bind f sz interval # hs"
    and run: "bind_handler env f sz interval (s\<lparr>io_ready := hs\<rparr>) = Inr t"
  shows "server_inv t"
proof -
  let ?s = "s\<lparr>io_ready := hs\<rparr>"
  have s: "server_inv ?s" using inv h by (rule server_inv_take) simp_all
  have none: "impl_socket s = None" and goes: "\<not> list_ex goes_on hs"
    using inv h by (auto simp: server_inv_def bind_inv_def)
  have n: "connects ?s = 0" "connecting s = []"
    using inv h by (auto simp: server_inv_def bind_inv_def connects_def)
  have idle: "sending s = []" "waits (send_invoker s) = 0"
    using inv none sender_invD(4) [of s] by (auto simp: server_inv_def live_def)
  have entries: "entries_ok ?s" using s sender_invD(1) by (auto simp: server_inv_def)
  have "impl_socket ?s = None" using none by simp
  from bind_handler_parts [OF run this] show ?thesis
  proof (elim disjE exE conjE)
    assume t: "\<not> socket_ready t" "same_sender (?s\<lparr>socket_ready := False\<rparr>) t" "io_ready t = io_ready ?s"
      "connecting t = connecting ?s"
    have "same_sender ?s (?s\<lparr>socket_ready := False\<rparr>)"
      using none by (simp add: same_sender_def live_def)
    from same_sender_trans [OF this t(2)] s have "sender_inv t"
      by (auto simp: server_inv_def intro: sender_inv_frame)
    moreover have "\<not> list_ex is_bind hs"
      using n is_bind_pending by (auto simp: connects_def list_ex_iff filter_empty_conv)
    ultimately show ?thesis
      using t n by (simp add: server_inv_def bind_inv_def connects_def)
  next
    fix u
    assume t: "t = start_actors u" and u: "io_ready u = io_ready ?s" "send_entries u = send_entries ?s"
      "sending u = sending ?s" "send_invoker u = send_invoker ?s" "entry_store u = entry_store ?s"
      "connecting u = connecting ?s"
    have "between u"
      using entries idle goes u by (auto simp: between_iff entries_ok_def list_ex_iff)
    then have "sender_inv t" unfolding t by (rule start_actors_inv)
    moreover have "\<not> list_ex is_bind hs"
      using n is_bind_pending by (auto simp: connects_def list_ex_iff filter_empty_conv)
    then have "bind_inv u" using u n by (simp add: bind_inv_def connects_def)
    then have "bind_inv t"
      unfolding t by (rule bind_inv_frame) (simp_all add: connect_frame_start_actors start_actors_socket)
    ultimately show ?thesis by (simp add: server_inv_def)
  qed
qed

lemma server_inv_runs:
  assumes inv: "server_inv s" and h: "next_handler s = Some (h, s')"
    and run: "run_server_handler dec env h s' = Some (Inr t)"
  shows "server_inv t"
proof -
  from h obtain hs where hs: "io_ready s = h # hs" and s': "s' = s\<lparr>io_ready := hs\<rparr>"
    by (auto simp: next_handler_def split: list.splits)
  have base: "server_inv t" if "run_base_handler dec h s' = Some t"
    using base_step.handler [OF h that] inv by (rule server_inv_base_step)
  have take: "server_inv s'" if "\<not> goes_on h" "posted [h] = []" "h \<noteq> Io_close"
    using server_inv_take [OF inv hs that] s' by simp
  show ?thesis
  proof (cases h)
    case (Io_bind f sz interval)
    with run inv hs show ?thesis by (auto simp: s' intro: server_inv_bind)
  next
    case (Io_check_server f)
    have "same_core s' t" "socket_ready t = socket_ready s'"
      using run Io_check_server
      by (auto simp: check_bind_def stop_bind_check_def dispatch_task_def same_core_def split: if_splits)
    with take Io_check_server show ?thesis by (auto intro: server_inv_core)
  next
    case Io_drop_server_probe
    have "same_core s' t" "socket_ready t = socket_ready s'"
      using run Io_drop_server_probe by (auto simp: same_core_def)
    with take Io_drop_server_probe show ?thesis by (auto intro: server_inv_core)
  qed (use run base in auto)
qed

lemma server_inv_step: "server_step dec s t \<Longrightarrow> server_inv s \<Longrightarrow> server_inv t"
  by (induction rule: server_step.induct)
    (auto intro: server_inv_base_step server_inv_runs server_inv_post simp: async_close_def)

lemma server_inv_new:
  "distinct entries \<Longrightarrow> \<forall>r \<in> set entries. entry_wf (store r) \<Longrightarrow>
   server_inv (async_bind f sz interval (new_server_impl entries store fs now))"
  by (simp add: server_inv_def bind_inv_def connects_def sender_inv_def entries_ok_def sends_front_def
      loops_def live_def new_server_impl_def new_base_impl_def base_impl.defs async_bind_def
      async_close_def post_def)

lemma server_reachable_inv: "server_reachable dec s \<Longrightarrow> server_inv s"
  by (induction rule: server_reachable.induct) (auto intro: server_inv_new server_inv_step)

end
