(* ===== verification/Impl_Shutdown.thy ===== *)
theory Impl_Shutdown
  imports Server_Impl
begin

text \<open>
  The end of a \<open>client_impl\<close> and of a \<open>server_impl\<close>: their destructors post a close and the reset of the
  work guard and join the thread, whatever is queued or pending then.
\<close>

section \<open>What the handlers post\<close>

text \<open>Handlers of the base class and cancelled connects.\<close>

fun harmless :: "io_handler \<Rightarrow> bool" where
  "harmless (Io_connected ec p) = is_error ec"
| "harmless h = base_handler h"

definition posts_harmless :: "'z base_impl_scheme \<Rightarrow> 'z base_impl_scheme \<Rightarrow> bool" where
  "posts_harmless s t \<longleftrightarrow> (\<exists>hs. io_ready t = io_ready s @ hs \<and> list_all harmless hs)"

lemma base_harmless: "base_handler h \<Longrightarrow> harmless h"
  by (cases h) simp_all

lemma posts_harmless_appends: "appends s t \<Longrightarrow> posts_harmless s t"
  using base_harmless by (auto simp: appends_def posts_harmless_def list_all_iff)

lemma posts_harmless_same: "io_ready t = io_ready s \<Longrightarrow> posts_harmless s t"
  by (simp add: posts_harmless_def)

lemma posts_harmless_trans: "posts_harmless s t \<Longrightarrow> posts_harmless t u \<Longrightarrow> posts_harmless s u"
  by (force simp: posts_harmless_def)

lemma list_all_replicate_harmless: "harmless h \<Longrightarrow> list_all harmless (replicate n h)"
  by (induction n) simp_all

lemma posts_harmless_close: "posts_harmless s (close_handler s)"
proof (cases "impl_socket s")
  case None
  then show ?thesis by (simp add: close_handler_def posts_harmless_def)
next
  case (Some k)
  then show ?thesis
    by (auto simp: posts_harmless_def close_handler_fields(11) [OF Some] list_all_replicate_harmless
        list_all_iff is_error_def)
qed

lemma posts_harmless_base:
  assumes "run_base_handler dec h s = Some t"
  shows "posts_harmless s t"
proof (cases "h = Io_close")
  case True
  with assms show ?thesis by (auto intro: posts_harmless_close)
next
  case False
  then have "appends s t" using assms by (cases h) auto
  then show ?thesis by (rule posts_harmless_appends)
qed

lemma appends_start_actors: "appends s (start_actors s)"
  by (auto simp: start_actors_def Let_def intro!: appends_trans [OF _ appends_io(9)]
      appends_trans [OF _ appends_check_deadline] appends_trans [OF _ appends_io(5)] appends_await)

lemma same_ends_start_actors: "same_ends s (start_actors s)"
  by (auto simp: start_actors_def Let_def intro!: same_ends_trans [OF _ same_ends_io(10)]
      same_ends_trans [OF _ same_ends_check_deadline] same_ends_trans [OF _ same_ends_io(6)] same_ends_await)

lemma start_actors_closed:
  assumes "closed s"
  shows "closed (start_actors s)" and "io_ready (start_actors s) = io_ready s"
proof -
  have "\<not> live s" using assms by (rule closed_not_live)
  then have "closed (start_actors s) \<and> io_ready (start_actors s) = io_ready s"
    using assms by (auto simp: start_actors_def await_send_entry_def check_send_deadline_def
        async_receive_def closed_def live_def impl_simps)
  then show "closed (start_actors s)" "io_ready (start_actors s) = io_ready s" by simp_all
qed

section \<open>A client\<close>

fun client_handler :: "io_handler \<Rightarrow> bool" where
  "client_handler (Io_bind f n iv) = False"
| "client_handler (Io_check_server f) = False"
| "client_handler Io_drop_server_probe = False"
| "client_handler h = True"

fun is_connect :: "io_handler \<Rightarrow> bool" where
  "is_connect (Io_connect p) = True"
| "is_connect _ = False"

lemma harmless_client: "harmless h \<Longrightarrow> client_handler h \<and> \<not> is_connect h"
  by (cases h) simp_all

text \<open>The answers of the system to the handler number \<open>i\<close>.\<close>

definition client_thread ::
    "(u32 \<Rightarrow> bytes) \<Rightarrow> (bytes \<Rightarrow> u32) \<Rightarrow> (nat \<Rightarrow> socket_env \<times> int option \<times> entry_ref)
      \<Rightarrow> nat \<Rightarrow> io_handler \<Rightarrow> 'z client_impl_scheme \<Rightarrow> (io_error + 'z client_impl_scheme) option" where
  "client_thread enc dec answers i h s =
     (case answers i of (env, pid, r) \<Rightarrow> run_client_handler enc dec env pid r h s)"

lemma connect_handler_ends:
  assumes "connect_handler env p s = Inr t"
  shows "io_ready t = io_ready s" and "work_guard t = work_guard s"
    and "impl_socket t \<noteq> None"
  using assms
  by (auto simp: connect_handler_def set_socket_options_def start_connect_def bind_socket_def
      remove_file_def dispatch_task_def Let_def split: if_splits option.splits sum.splits)

lemma connected_handler_runs:
  obtains (failed) "connected_handler ec p pid s = dispatch_task (Connect_failed ec) s"
    | (starts) u where "connected_handler ec p pid s = start_actors u" "io_ready u = io_ready s"
        "work_guard u = work_guard s" "impl_socket u = impl_socket s" "closed u = closed s"
proof (cases "is_error ec")
  case True
  then show ?thesis using failed by (simp add: connected_handler_def)
next
  case False
  show ?thesis
    by (rule starts, simp only: connected_handler_def False if_False Let_def)
      (simp_all add: start_server_check_def stop_server_check_def start_client_socket_check_def
        stop_client_socket_check_def dispatch_task_def closed_def split: option.splits)
qed

text \<open>The other handlers of a client.\<close>

lemma client_checks_runs:
  assumes "run_client_handler enc dec env pid r h s = Some (Inr t)"
    and "h = Io_heartbeat d \<or> h = Io_check_client_socket f \<or> h = Io_drop_client_socket_probe"
  shows "work_guard t = work_guard s \<and> impl_socket t = impl_socket s \<and> closed t = closed s \<and>
    (io_ready t = io_ready s \<or> live s \<and> (\<exists>r. io_ready t = io_ready s @ [Io_send r]))"
  using assms
  by (cases "live s"; cases "probe s = None") (auto simp: check_server_def check_client_socket_def stop_server_check_def
      stop_client_socket_check_def dispatch_task_def async_send_def post_def closed_def)

lemma client_handler_cases:
  assumes "run_client_handler enc dec env pid r h s = Some t"
  obtains (connect) p where "h = Io_connect p" "t = connect_handler env p s"
    | (connected) ec p where "h = Io_connected ec p" "t = Inr (connected_handler ec p pid s)"
    | (checks) u where "t = Inr u"
        "\<exists>d f. h = Io_heartbeat d \<or> h = Io_check_client_socket f \<or> h = Io_drop_client_socket_probe"
    | (base) u where "run_base_handler dec h s = Some u" "t = Inr u"
  using assms by (cases h) auto

lemma client_posts:
  assumes "run_client_handler enc dec env pid r h s = Some (Inr t)"
  shows "posts_harmless s t"
  using assms
proof (cases rule: client_handler_cases)
  case (connect p)
  then show ?thesis using connect_handler_ends(1) [of env p s t] by (auto intro: posts_harmless_same)
next
  case (connected ec p)
  show ?thesis
  proof (cases rule: connected_handler_runs [of ec p pid s])
    case (starts u)
    have "posts_harmless s u" using starts(2) by (rule posts_harmless_same)
    moreover have "posts_harmless u (start_actors u)"
      by (rule posts_harmless_appends [OF appends_start_actors])
    ultimately show ?thesis using starts(1) connected(2) by (auto intro: posts_harmless_trans)
  qed (use connected in \<open>simp add: posts_harmless_def dispatch_task_def\<close>)
next
  case (checks u)
  then show ?thesis using client_checks_runs [OF assms] by (auto simp: posts_harmless_def)
next
  case (base u)
  then show ?thesis by (auto intro: posts_harmless_base)
qed

lemma closed_start: "closed u \<Longrightarrow> closed (start_actors u) \<and> io_ready (start_actors u) = io_ready u"
  using start_actors_closed by blast

lemma idle_start: "idle_ok u \<Longrightarrow> idle_ok (start_actors u)"
  using same_ends_start_actors [of u] closed_start [of u] by (auto simp: idle_ok_def same_ends_def)

lemma client_keeps_idle:
  assumes "run_client_handler enc dec env pid r h s = Some (Inr t)" and "idle_ok s"
  shows "idle_ok t"
  using assms(1)
proof (cases rule: client_handler_cases)
  case (connect p)
  then show ?thesis using connect_handler_ends(3) [of env p s t] by (auto simp: idle_ok_def)
next
  case (connected ec p)
  show ?thesis
  proof (cases rule: connected_handler_runs [of ec p pid s])
    case (starts u)
    have "idle_ok u" using starts(4,5) assms(2) by (simp add: idle_ok_def)
    then show ?thesis using starts(1) connected(2) idle_start by simp
  qed (use assms(2) connected in \<open>simp add: idle_ok_def dispatch_task_def closed_def\<close>)
next
  case (checks u)
  then show ?thesis using client_checks_runs [OF assms(1)] assms(2) by (auto simp: idle_ok_def)
next
  case (base u)
  then show ?thesis using base_keeps_idle [OF assms(2)] by simp
qed

lemma client_keeps_guard:
  assumes "run_client_handler enc dec env pid r h s = Some (Inr t)" and "work_guard t"
  shows "work_guard s \<and> h \<noteq> Io_reset_work_guard"
  using assms(1)
proof (cases rule: client_handler_cases)
  case (connect p)
  then show ?thesis using connect_handler_ends(2) [of env p s t] assms(2) by auto
next
  case (connected ec p)
  show ?thesis
  proof (cases rule: connected_handler_runs [of ec p pid s])
    case (starts u)
    then show ?thesis
      using same_ends_start_actors [of u] connected assms(2) by (simp add: same_ends_def)
  qed (use assms(2) connected in \<open>simp add: dispatch_task_def\<close>)
next
  case (checks u)
  then show ?thesis using client_checks_runs [OF assms(1)] assms(2) by auto
next
  case (base u)
  then show ?thesis using base_keeps_guard assms(2) by auto
qed

lemma client_stays_closed:
  assumes "run_client_handler enc dec env pid r h s = Some (Inr t)" and "closed s" and "\<not> is_connect h"
  shows "closed t \<and> work (io_ready t) + 1 \<le> work (io_ready s) + handler_work h"
  using assms(1)
proof (cases rule: client_handler_cases)
  case (connected ec p)
  show ?thesis
  proof (cases rule: connected_handler_runs [of ec p pid s])
    case (starts u)
    then show ?thesis using closed_start [of u] connected assms(2) by simp
  qed (use assms(2) connected in \<open>simp add: dispatch_task_def closed_def\<close>)
next
  case (checks u)
  then have "handler_work h = 1" by auto
  then show ?thesis
    using checks client_checks_runs [OF assms(1)] assms(2) closed_not_live [OF assms(2)] by auto
next
  case (base u)
  then show ?thesis using closed_run(1,2) [OF assms(2)] by auto
qed (use assms(3) in simp)

interpretation client_end: thread_handlers "client_thread enc dec answers" client_handler is_connect idle_ok
  for enc dec answers
proof unfold_locales
  fix h i and s t :: "'z client_impl_scheme" and e
  obtain env pid r where a: "answers i = (env, pid, r)" by (cases "answers i")
  note run = client_thread_def a prod.case
  show "client_handler h \<Longrightarrow> client_thread enc dec answers i h s \<noteq> None"
    by (cases h) (simp_all add: run)
  show "client_thread enc dec answers i h s = Some (Inl e) \<Longrightarrow> is_connect h"
    by (cases h) (simp_all add: run)
  show "idle_ok t" if "idle_ok s" "client_thread enc dec answers i h s = Some (Inr t)"
    using that client_keeps_idle by (simp add: run) blast
  show "work_guard s \<and> h \<noteq> Io_reset_work_guard"
    if "client_thread enc dec answers i h s = Some (Inr t)" "work_guard t"
    using that client_keeps_guard by (simp add: run) blast
  show "closed t" if "idle_ok s" "client_thread enc dec answers i Io_close s = Some (Inr t)"
    using that close_handler_closed [of s] by (auto simp: run idle_ok_def)
  show "closed t \<and> work (io_ready t) + 1 \<le> work (io_ready s) + handler_work h"
    if "closed s" "\<not> is_connect h" "client_thread enc dec answers i h s = Some (Inr t)"
    using that client_stays_closed by (simp add: run) blast
  show "\<exists>hs. io_ready t = io_ready s @ hs \<and> list_all client_handler hs \<and> \<not> list_ex is_connect hs"
    if "client_thread enc dec answers i h s = Some (Inr t)"
  proof -
    have "posts_harmless s t" using that client_posts by (simp add: run) blast
    then show ?thesis
      using harmless_client by (auto simp: posts_harmless_def list_all_iff list_ex_iff)
  qed
qed (simp_all add: idle_ok_def closed_def)

section \<open>A server\<close>

fun server_handler :: "io_handler \<Rightarrow> bool" where
  "server_handler (Io_bind f n iv) = True"
| "server_handler (Io_check_server f) = True"
| "server_handler Io_drop_server_probe = True"
| "server_handler h = base_handler h"

definition server_thread ::
    "(bytes \<Rightarrow> u32) \<Rightarrow> (nat \<Rightarrow> socket_env) \<Rightarrow> nat \<Rightarrow> io_handler \<Rightarrow> 'z server_impl_scheme
      \<Rightarrow> (io_error + 'z server_impl_scheme) option" where
  "server_thread dec answers i h s = run_server_handler dec (answers i) h s"

text \<open>A server never connects its own socket, so no cancelled connect is posted.\<close>

definition server_ok :: "'z base_impl_scheme \<Rightarrow> bool" where
  "server_ok s \<longleftrightarrow> idle_ok s \<and> connecting s = []"

lemma base_server: "base_handler h \<Longrightarrow> server_handler h \<and> \<not> is_bind h"
  by (cases h) simp_all

lemma appends_cancel: "connecting s = [] \<Longrightarrow> appends s (socket_cancel s)"
  by (auto simp: appends_def socket_cancel_def list_all_iff)

lemma set_socket_options_ends:
  assumes "set_socket_options n ok s = Inr t"
  shows "io_ready t = io_ready s" and "work_guard t = work_guard s"
    and "impl_socket s \<noteq> None \<Longrightarrow> impl_socket t \<noteq> None"
    and "connecting t = connecting s"
  using assms by (auto simp: set_socket_options_def Let_def split: option.splits if_splits)

lemma bind_handler_runs:
  assumes "bind_handler env f sz iv s = Inr t" and "connecting s = []"
  shows "appends s t" and "work_guard t = work_guard s" and "impl_socket t \<noteq> None"
    and "connecting t = []"
proof -
  define r where "r = remove_file f (s\<lparr>socket_ready := False\<rparr>)"
  define s1 where "s1 = replace_socket (default_socket env) r"
  have "appends s r" by (rule appends_same) (simp add: r_def remove_file_def)
  moreover have "appends r s1"
    using appends_cancel [of r] assms(2) by (simp add: s1_def r_def replace_socket_def remove_file_def appends_def)
  ultimately have s1: "appends s s1" "work_guard s1 = work_guard s" "impl_socket s1 \<noteq> None" "connecting s1 = []"
    using appends_trans assms(2)
    by (auto simp: r_def s1_def replace_socket_def remove_file_def socket_cancel_def)
  have t: "(if is_error (open_result env) then Inr (dispatch_task (Bind_failed (open_result env)) s1)
      else case set_socket_options sz (options_accepted env) s1 of Inl e \<Rightarrow> Inl e
        | Inr s2 \<Rightarrow> if is_error (bind_result env)
            then Inr (dispatch_task (Bind_failed (bind_result env)) s2)
            else let s3 = bind_socket f s2 in Inr (start_actors (dispatch_task Bound (start_bind_check f iv
              (s3\<lparr>socket_ready := True, timers_generation := timers_generation s3 + 1\<rparr>))))) = Inr t"
    using assms(1) unfolding bind_handler_def r_def s1_def Let_def .
  have "\<exists>u. (t = u \<or> t = start_actors u) \<and> io_ready u = io_ready s1 \<and> work_guard u = work_guard s1 \<and>
    impl_socket u \<noteq> None \<and> connecting u = []"
  proof (cases "is_error (open_result env)")
    case True
    then show ?thesis using t s1(3,4) by (intro exI [of _ t]) (auto simp: dispatch_task_def)
  next
    case False
    then obtain s2 where s2: "set_socket_options sz (options_accepted env) s1 = Inr s2"
      using t by (auto split: sum.splits)
    note e = set_socket_options_ends [OF s2]
    show ?thesis
    proof (cases "is_error (bind_result env)")
      case True
      with False t s2 e s1(3,4) show ?thesis by (intro exI [of _ t]) (auto simp: dispatch_task_def)
    next
      case ok: False
      with False t s2 have "t = start_actors (dispatch_task Bound (start_bind_check f iv
          ((bind_socket f s2)\<lparr>socket_ready := True,
            timers_generation := timers_generation (bind_socket f s2) + 1\<rparr>)))"
        by (simp add: Let_def)
      with e s1(3,4) show ?thesis
        by (intro exI [of _ "dispatch_task Bound (start_bind_check f iv
          ((bind_socket f s2)\<lparr>socket_ready := True,
            timers_generation := timers_generation (bind_socket f s2) + 1\<rparr>))"])
          (auto simp: dispatch_task_def bind_socket_def start_bind_check_def split: option.splits)
    qed
  qed
  then obtain u where u: "t = u \<or> t = start_actors u" "io_ready u = io_ready s1"
    "work_guard u = work_guard s1" "impl_socket u \<noteq> None" "connecting u = []" by blast
  have "appends s u" using s1(1) appends_same [OF u(2)] by (rule appends_trans)
  then show "appends s t"
    using u(1) appends_trans [OF _ appends_start_actors] by auto
  show "work_guard t = work_guard s" "impl_socket t \<noteq> None" "connecting t = []"
    using u s1(2) same_ends_start_actors [of u] by (auto simp: same_ends_def)
qed

lemma server_checks_runs:
  assumes "run_server_handler dec env h s = Some (Inr t)"
    and "h = Io_check_server f \<or> h = Io_drop_server_probe"
  shows "work_guard t = work_guard s \<and> impl_socket t = impl_socket s \<and> closed t = closed s \<and>
    io_ready t = io_ready s \<and> connecting t = connecting s"
  using assms
  by (cases "live s"; cases "server_probe s = None")
    (auto simp: check_bind_def stop_bind_check_def dispatch_task_def closed_def)

lemma server_handler_cases:
  assumes "run_server_handler dec env h s = Some t"
  obtains (bind) f sz iv where "h = Io_bind f sz iv" "t = bind_handler env f sz iv s"
    | (checks) u where "t = Inr u" "\<exists>f. h = Io_check_server f \<or> h = Io_drop_server_probe"
    | (base) u where "run_base_handler dec h s = Some u" "t = Inr u"
  using assms by (cases h) auto

lemma base_keeps_connecting:
  assumes "run_base_handler dec h s = Some t" and "connecting s = []"
  shows "connecting t = []"
  using assms same_ends_run [OF assms(1)]
  by (cases "impl_socket s"; cases "h = Io_close \<or> h = Io_reset_work_guard")
    (auto simp: same_ends_def reset_work_guard_def close_handler_fields, simp add: close_handler_def)

lemma server_runs:
  assumes "run_server_handler dec env h s = Some (Inr t)" and "server_ok s"
  shows "appends s t" and "server_ok t"
    and "closed s \<Longrightarrow> \<not> is_bind h \<Longrightarrow>
      closed t \<and> work (io_ready t) + 1 \<le> work (io_ready s) + handler_work h"
proof -
  have ok: "idle_ok s" "connecting s = []" using assms(2) by (simp_all add: server_ok_def)
  have "appends s t \<and> server_ok t \<and>
    (closed s \<and> \<not> is_bind h \<longrightarrow>
      closed t \<and> work (io_ready t) + 1 \<le> work (io_ready s) + handler_work h)"
    using assms(1)
  proof (cases rule: server_handler_cases)
    case (bind f sz iv)
    then show ?thesis
      using bind_handler_runs [of env f sz iv s t] ok by (auto simp: server_ok_def idle_ok_def)
  next
    case (checks u)
    then have "handler_work h = 1" by auto
    then show ?thesis
      using checks server_checks_runs [OF assms(1)] ok
      by (auto simp: server_ok_def idle_ok_def appends_same)
  next
    case (base u)
    then have h: "run_base_handler dec h s = Some t" by simp
    show ?thesis
      using appends_run [OF h ok(2)] base_keeps_idle [OF ok(1) h] base_keeps_connecting [OF h ok(2)]
        closed_run(1,2) [OF _ h] by (auto simp: server_ok_def)
  qed
  then show "appends s t" "server_ok t"
    "closed s \<Longrightarrow> \<not> is_bind h \<Longrightarrow>
      closed t \<and> work (io_ready t) + 1 \<le> work (io_ready s) + handler_work h" by blast+
qed

lemma server_keeps_guard:
  assumes "run_server_handler dec env h s = Some (Inr t)" and "work_guard t" and "server_ok s"
  shows "work_guard s \<and> h \<noteq> Io_reset_work_guard"
  using assms(1)
proof (cases rule: server_handler_cases)
  case (bind f sz iv)
  then show ?thesis
    using bind_handler_runs(2) [of env f sz iv s t] assms(2,3) by (auto simp: server_ok_def)
next
  case (checks u)
  then show ?thesis using server_checks_runs [OF assms(1)] assms(2) by auto
next
  case (base u)
  then show ?thesis using base_keeps_guard assms(2) by auto
qed

interpretation server_end: thread_handlers "server_thread dec answers" server_handler is_bind server_ok
  for dec answers
proof unfold_locales
  fix h i and s t :: "'z server_impl_scheme" and e
  note run = server_thread_def
  show "server_handler h \<Longrightarrow> server_thread dec answers i h s \<noteq> None"
    by (cases h) (simp_all add: run)
  show "server_thread dec answers i h s = Some (Inl e) \<Longrightarrow> is_bind h"
    by (cases h) (simp_all add: run)
  show "server_ok t" if "server_ok s" "server_thread dec answers i h s = Some (Inr t)"
    using that server_runs(2) by (simp add: run) blast
  show "work_guard s \<and> h \<noteq> Io_reset_work_guard"
    if "server_ok s" "server_thread dec answers i h s = Some (Inr t)" "work_guard t"
    using that server_keeps_guard by (simp add: run) blast
  show "closed t" if "server_ok s" "server_thread dec answers i Io_close s = Some (Inr t)"
    using that close_handler_closed [of s] by (auto simp: run server_ok_def idle_ok_def)
  show "closed t \<and> work (io_ready t) + 1 \<le> work (io_ready s) + handler_work h"
    if "closed s" "\<not> is_bind h" "server_thread dec answers i h s = Some (Inr t)"
  proof -
    have "server_ok s" using that(1) by (simp add: server_ok_def idle_ok_def closed_def)
    then show ?thesis using that server_runs(3) by (simp add: run) blast
  qed
  show "\<exists>hs. io_ready t = io_ready s @ hs \<and> list_all server_handler hs \<and> \<not> list_ex is_bind hs"
    if "server_ok s" "server_thread dec answers i h s = Some (Inr t)"
  proof -
    have "appends s t" using that server_runs(1) by (simp add: run) blast
    then show ?thesis using base_server by (auto simp: appends_def list_all_iff list_ex_iff)
  qed
qed (simp_all add: server_ok_def idle_ok_def closed_def)

section \<open>Every reachable state\<close>

text \<open>What the environment and other threads do: they post handlers of the base class.\<close>

lemma base_step_ends:
  assumes "base_step dec s t" and "idle_ok s"
  shows "idle_ok t \<and> (connecting s = [] \<longrightarrow> connecting t = []) \<and>
    (\<forall>k \<in> set (io_ready t). k \<in> set (io_ready s) \<or> harmless k \<and> (connecting s = [] \<longrightarrow> base_handler k))"
  using assms(1)
proof cases
  case (handler h s')
  then obtain hs where hs: "io_ready s = h # hs" and s': "s' = s\<lparr>io_ready := hs\<rparr>"
    by (auto simp: next_handler_def split: list.splits)
  have "idle_ok s'" using assms(2) by (simp add: s' idle_ok_def closed_def)
  then have "idle_ok t" using base_keeps_idle handler(2) by blast
  moreover obtain ks where "io_ready t = hs @ ks" "list_all harmless ks"
    using posts_harmless_base [OF handler(2)] by (auto simp: posts_harmless_def s')
  moreover have "appends s' t \<and> connecting t = []" if "connecting s = []"
    using appends_run [OF handler(2)] base_keeps_connecting [OF handler(2)] that by (simp add: s')
  ultimately show ?thesis using hs by (fastforce simp: appends_def s' list_all_iff)
qed (use assms(2) in \<open>auto simp: idle_ok_def closed_def post_def async_send_def async_close_def
    terminate_base_impl_def\<close>)

lemma client_reachable_ends:
  "calling_reachable enc dec s \<Longrightarrow> idle_ok s \<and> list_all client_handler (io_ready s)"
proof (induction rule: calling_reachable.induct)
  case (new store fs now)
  then show ?case
    by (simp add: idle_ok_def closed_def new_client_impl_def new_base_impl_def base_impl.defs pos_infin_def)
next
  case (step s t)
  from step.hyps(2) show ?case
  proof cases
    case base
    then show ?thesis
      using base_step_ends [OF base] step.IH harmless_client by (auto simp: list_all_iff)
  next
    case (runs h s' r env pid)
    then obtain hs where hs: "io_ready s = h # hs" and s': "s' = s\<lparr>io_ready := hs\<rparr>"
      by (auto simp: next_handler_def split: list.splits)
    have "idle_ok s'" using step.IH by (simp add: s' idle_ok_def closed_def)
    with client_keeps_idle [OF runs(3)] client_posts [OF runs(3)] step.IH harmless_client
    show ?thesis by (auto simp: posts_harmless_def s' hs list_all_iff)
  qed (use step.IH in \<open>auto simp: idle_ok_def closed_def post_def async_close_def async_connect_def\<close>)
next
  case (call s p)
  then show ?case by (auto simp: idle_ok_def closed_def post_def async_connect_def)
qed

lemma server_reachable_ends:
  "server_reachable dec s \<Longrightarrow> server_ok s \<and> list_all server_handler (io_ready s)"
proof (induction rule: server_reachable.induct)
  case (bound entries store f sz interval fs now)
  then show ?case
    by (simp add: server_ok_def idle_ok_def closed_def new_server_impl_def new_base_impl_def base_impl.defs
        pos_infin_def async_bind_def async_close_def post_def)
next
  case (step s t)
  then have ok: "idle_ok s" "connecting s = []" by (simp_all add: server_ok_def)
  from step.hyps(2) show ?case
  proof cases
    case base
    then show ?thesis
      using base_step_ends [OF base ok(1)] ok(2) step.IH base_server
      by (auto simp: server_ok_def list_all_iff)
  next
    case (runs h s' env)
    then obtain hs where hs: "io_ready s = h # hs" and s': "s' = s\<lparr>io_ready := hs\<rparr>"
      by (auto simp: next_handler_def split: list.splits)
    have "server_ok s'" using step.IH by (simp add: s' server_ok_def idle_ok_def closed_def)
    with server_runs(1,2) [OF runs(2)] step.IH base_server
    show ?thesis by (auto simp: appends_def s' hs list_all_iff)
  qed (use step.IH in \<open>auto simp: server_ok_def idle_ok_def closed_def post_def async_close_def\<close>)
qed

end
