(* ===== verification/Base_Delivery.thy ===== *)
theory Base_Delivery
  imports Base_Sender
begin

text \<open>
  What the sender of \<open>base_impl\<close> does to the queue of entries: entries leave it in order, complete,
  with their callback called once; an entry that meets \<open>no_buffer_space\<close> is given up after a bounded
  number of errors.
\<close>

section \<open>Callbacks\<close>

fun processed_calls :: "impl_task list \<Rightarrow> callback list" where
  "processed_calls [] = []"
| "processed_calls (Processed c # ts) = c # processed_calls ts"
| "processed_calls (_ # ts) = processed_calls ts"

lemma processed_calls_append [simp]:
  "processed_calls (ts @ us) = processed_calls ts @ processed_calls us"
  by (induction ts rule: processed_calls.induct) simp_all

definition called :: "'z base_impl_scheme \<Rightarrow> callback list" where
  "called s = processed_calls (dispatched s)"

definition callback_of :: "send_entry \<Rightarrow> callback list" where
  "callback_of e = (case processed e of None \<Rightarrow> [] | Some c \<Rightarrow> [c])"

section \<open>Operations that leave the queue alone\<close>

definition keeps_queue :: "'z base_impl_scheme \<Rightarrow> 'z base_impl_scheme \<Rightarrow> bool" where
  "keeps_queue s t \<longleftrightarrow> send_entries t = send_entries s \<and> called t = called s \<and>
     entry_store t = entry_store s"

lemma keeps_queue_refl [simp]: "keeps_queue s s"
  by (simp add: keeps_queue_def)

lemma keeps_queue_trans: "keeps_queue s t \<Longrightarrow> keeps_queue t u \<Longrightarrow> keeps_queue s u"
  by (simp add: keeps_queue_def)

lemma keeps_queue_io [simp]:
  "keeps_queue s (post h s)"
  "keeps_queue s (invoker_expires_at tp s)" "keeps_queue s (invoker_cancel s)"
  "keeps_queue s (invoker_wait s)" "keeps_queue s (deadline_expires_at tp s)"
  "keeps_queue s (deadline_cancel s)" "keeps_queue s (deadline_wait s)"
  "keeps_queue s (socket_cancel s)" "keeps_queue s (start_send r s)"
  "keeps_queue s (async_receive s)" "keeps_queue s (reset_work_guard s)"
  by (simp_all add: keeps_queue_def called_def impl_simps start_send_def async_receive_def
      reset_work_guard_def)

lemma keeps_queue_dispatch: "processed_calls [t] = [] \<Longrightarrow> keeps_queue s (dispatch_task t s)"
  by (simp add: keeps_queue_def called_def dispatch_task_def)

lemma keeps_queue_await: "keeps_queue s (await_send_entry delay s)"
  by (simp add: keeps_queue_def called_def await_send_entry_def impl_simps start_send_def
      split: option.splits)

lemma keeps_queue_check_deadline: "keeps_queue s (check_send_deadline s)"
  by (simp add: check_send_deadline_def async_close_def)

lemma keeps_queue_receive: "keeps_queue s (receive_handler dec ec n s)"
proof -
  have "keeps_queue s (receive_datagram dec n s)"
    by (simp add: receive_datagram_def keeps_queue_dispatch Let_def split: option.splits entry_type.splits)
  then show ?thesis
    by (auto simp: receive_handler_def Let_def intro: keeps_queue_trans)
qed

lemma keeps_queue_close: "keeps_queue s (close_handler s)"
  by (auto simp: keeps_queue_def called_def close_handler_def remove_bound_path_def impl_simps
      split: option.splits)

section \<open>The evolution of the queue\<close>

definition queue_step :: "'z base_impl_scheme \<Rightarrow> 'z base_impl_scheme \<Rightarrow> bool" where
  "queue_step s t \<longleftrightarrow>
     (send_entries t = send_entries s \<and> called t = called s) \<or>
     (\<exists>r. send_entries t = send_entries s @ [r] \<and> called t = called s) \<or>
     (\<exists>r. send_entries s = r # send_entries t \<and> transfer_complete (entry_store t r) \<and>
        called t = called s @ callback_of (entry_store t r))"

lemma queue_step_keeps: "keeps_queue s t \<Longrightarrow> queue_step s t"
  by (simp add: queue_step_def keeps_queue_def)

lemma queue_step_finish:
  assumes "at_front r s"
  shows "queue_step s (finish_send r delay s)"
proof (cases "transfer_complete (entry_store s r)")
  case False
  then show ?thesis by (simp add: finish_send_def queue_step_keeps keeps_queue_await)
next
  case True
  from assms obtain rs where rs: "send_entries s = r # rs"
    by (cases "send_entries s") (auto simp: at_front_def)
  let ?p = "pop_front_send_entry s"
  have p: "send_entries ?p = rs" "entry_store ?p = entry_store s"
    "called ?p = called s @ callback_of (entry_store s r)"
    by (simp_all add: pop_front_send_entry_def rs called_def callback_of_def dispatch_task_def
        split: option.splits)
  have "keeps_queue ?p (await_send_entry delay ?p)"
    by (rule keeps_queue_await)
  with True rs p show ?thesis
    by (auto simp: finish_send_def queue_step_def keeps_queue_def)
qed

text \<open>Bookkeeping on the entry before the end of \<open>handle_send\<close> does not change the queue.\<close>

definition same_queue :: "entry_ref \<Rightarrow> 'z base_impl_scheme \<Rightarrow> 'z base_impl_scheme \<Rightarrow> bool" where
  "same_queue r s t \<longleftrightarrow> send_entries t = send_entries s \<and> called t = called s"

lemma same_queue_ops [simp]:
  "same_queue r s (update_entry r f s)" "same_queue r s (deadline_expires_at tp s)"
  "processed_calls [t] = [] \<Longrightarrow> same_queue r s (dispatch_task t s)"
  by (simp_all add: same_queue_def update_entry_def called_def impl_simps)

lemma same_queue_trans: "same_queue r s t \<Longrightarrow> same_queue r t u \<Longrightarrow> same_queue r s u"
  by (simp add: same_queue_def)

lemma queue_step_same:
  "same_queue r s t \<Longrightarrow> queue_step t u \<Longrightarrow> queue_step s u"
  by (simp add: same_queue_def queue_step_def)

lemma at_front_same: "same_queue r s t \<Longrightarrow> at_front r t = at_front r s"
  by (simp add: same_queue_def at_front_def)

lemma same_queue_no_buffer_space: "same_queue r s (handle_no_buffer_space r s)"
  by (simp add: handle_no_buffer_space_def same_queue_def update_entry_def called_def
      dispatch_task_def Let_def)

lemma queue_step_handle_send:
  assumes front: "at_front r s"
  shows "queue_step s (handle_send ec n r s)"
proof -
  let ?s1 = "deadline_expires_at pos_infin (update_entry r (add_bytes_transferred n) s)"
  have s1: "same_queue r s ?s1" by (rule same_queue_trans) (rule same_queue_ops)+
  have fin: "queue_step s (finish_send r d t)" if "same_queue r ?s1 t" for d t
    using queue_step_finish [of r t d] queue_step_same same_queue_trans [OF s1 that]
      at_front_same [of r s t] front by blast
  have err: "queue_step s (async_close (dispatch_task (Error_occurred ec) ?s1))"
    using s1 by (auto simp: queue_step_def same_queue_def called_def async_close_def post_def
        dispatch_task_def)
  have drop: "same_queue r ?s1 (update_entry r drop_entry ?s1)" by simp
  have report: "same_queue r ?s1 (dispatch_task (Error_occurred ec) (update_entry r drop_entry ?s1))"
    by (rule same_queue_trans [OF drop]) simp
  show ?thesis
    using fin [OF report] fin [OF drop] fin [OF same_queue_no_buffer_space] err
      fin [of ?s1] by (auto simp: handle_send_def Let_def same_queue_def)
qed

lemma base_step_queue:
  assumes "base_step dec s t" and "sender_inv s"
  shows "queue_step s t"
  using assms(1)
proof cases
  case (handler h s')
  then obtain hs where hs: "io_ready s = h # hs" and s': "s' = s\<lparr>io_ready := hs\<rparr>"
    by (auto simp: next_handler_def split: list.splits)
  have eq: "queue_step s t = queue_step s' t"
    by (simp add: queue_step_def s' called_def)
  have "at_front r s'" if "h = Io_sent ec n r" for ec n r
    using sender_invD(2) [OF assms(2)] that hs by (auto simp: sends_front_def at_front_def s')
  moreover have "queue_step s' (send_handler r s')" for r
    by (simp add: queue_step_def send_handler_def impl_simps called_def)
  ultimately show ?thesis
    using handler(2) unfolding eq
    by (cases h) (auto intro: queue_step_handle_send queue_step_keeps keeps_queue_await
        keeps_queue_check_deadline keeps_queue_receive keeps_queue_close)
qed (simp_all add: queue_step_def called_def post_def async_send_def async_close_def
    terminate_base_impl_def)

text \<open>Over a run: entries leave at the front and arrive at the end.\<close>

lemma base_steps_fifo:
  "base_steps dec s t \<Longrightarrow> sender_inv s \<Longrightarrow>
   \<exists>n rs. n \<le> length (send_entries s @ rs) \<and> send_entries t = drop n (send_entries s @ rs)"
proof (induction rule: base_steps.induct)
  case (none s)
  show ?case by (rule exI [of _ 0], rule exI [of _ "[]"]) simp
next
  case (more s t u)
  then obtain n rs where n: "n \<le> length (send_entries s @ rs)"
    and t: "send_entries t = drop n (send_entries s @ rs)" by blast
  have "queue_step t u"
    using base_step_queue [OF more.hyps(2)] base_steps_inv [OF more.hyps(1) more.prems] by blast
  then consider "send_entries u = send_entries t" | r where "send_entries u = send_entries t @ [r]"
    | r where "send_entries t = r # send_entries u"
    by (auto simp: queue_step_def)
  then show ?case
  proof cases
    case 1
    with n t show ?thesis by auto
  next
    case 2
    with n t show ?thesis by (intro exI [of _ n] exI [of _ "rs @ [r]"]) auto
  next
    case 3
    then have "n < length (send_entries s @ rs)"
      using t by (metis drop_eq_Nil2 list.distinct(1) not_le)
    moreover have "send_entries u = drop (Suc n) (send_entries s @ rs)"
      using 3 t by (metis drop_Suc list.sel(3) tl_drop)
    ultimately show ?thesis by (intro exI [of _ "Suc n"] exI [of _ rs]) auto
  qed
qed

text \<open>Over a run: each entry of the queue keeps its callback, which is called when the entry leaves.\<close>

definition queue_calls :: "'z base_impl_scheme \<Rightarrow> (entry_ref \<times> callback list) list" where
  "queue_calls s = map (\<lambda>r. (r, callback_of (entry_store s r))) (send_entries s)"

definition keeps_processed :: "'z base_impl_scheme \<Rightarrow> 'z base_impl_scheme \<Rightarrow> bool" where
  "keeps_processed s t \<longleftrightarrow> (\<forall>r. processed (entry_store t r) = processed (entry_store s r))"

lemma keeps_processed_refl [simp]: "keeps_processed s s"
  by (simp add: keeps_processed_def)

lemma keeps_processed_trans: "keeps_processed s t \<Longrightarrow> keeps_processed t u \<Longrightarrow> keeps_processed s u"
  by (simp add: keeps_processed_def)

lemma keeps_processed_queue: "keeps_queue s t \<Longrightarrow> keeps_processed s t"
  by (simp add: keeps_processed_def keeps_queue_def)

lemma keeps_processed_update: "(\<And>e. processed (f e) = processed e) \<Longrightarrow> keeps_processed s (update_entry r f s)"
  by (simp add: keeps_processed_def update_entry_def)

lemma processed_entry_ops [simp]:
  "processed (add_bytes_transferred n e) = processed e" "processed (drop_entry e) = processed e"
  "processed (count_no_buffer_space e) = processed e"
  by (simp_all add: add_bytes_transferred_def drop_entry_def count_no_buffer_space_def
      set_no_buffer_space_error_count_def)

lemma keeps_processed_pop: "keeps_processed s (pop_front_send_entry s)"
  by (simp add: keeps_processed_def pop_front_send_entry_def dispatch_task_def Let_def
      split: list.splits option.splits)

lemma keeps_processed_finish: "keeps_processed s (finish_send r d s)"
  by (auto simp: finish_send_def intro: keeps_processed_queue [OF keeps_queue_await]
      keeps_processed_trans [OF keeps_processed_pop keeps_processed_queue [OF keeps_queue_await]])

lemma keeps_processed_handle_send: "keeps_processed s (handle_send ec n r s)"
proof -
  let ?s1 = "deadline_expires_at pos_infin (update_entry r (add_bytes_transferred n) s)"
  have s1: "keeps_processed s ?s1"
    by (simp add: keeps_processed_def update_entry_def impl_simps)
  have fin: "keeps_processed s (finish_send r d t)" if "keeps_processed ?s1 t" for d t
    using keeps_processed_trans [OF keeps_processed_trans [OF s1 that] keeps_processed_finish] .
  have "keeps_processed ?s1 (handle_no_buffer_space r ?s1)"
    by (simp add: handle_no_buffer_space_def keeps_processed_def update_entry_def dispatch_task_def Let_def)
  moreover have drop: "keeps_processed ?s1 (update_entry r drop_entry ?s1)"
    by (simp add: keeps_processed_update)
  moreover have "keeps_processed ?s1 (dispatch_task (Error_occurred ec) (update_entry r drop_entry ?s1))"
    using drop by (simp add: keeps_processed_def dispatch_task_def)
  moreover have "keeps_processed s (async_close (dispatch_task (Error_occurred ec) ?s1))"
    using s1 by (simp add: keeps_processed_def async_close_def post_def dispatch_task_def)
  ultimately show ?thesis
    using fin fin [of ?s1] by (auto simp: handle_send_def Let_def)
qed

lemma base_step_processed:
  assumes "base_step dec s t" and "r \<in> set (send_entries s)"
  shows "callback_of (entry_store t r) = callback_of (entry_store s r)"
  using assms(1)
proof cases
  case (handler h s')
  have "keeps_processed s' (send_handler r s')" for r
    by (simp add: send_handler_def impl_simps keeps_processed_def)
  then have "keeps_processed s' t"
    using handler(2)
    by (cases h) (auto intro: keeps_processed_handle_send keeps_processed_queue keeps_queue_await
        keeps_queue_check_deadline keeps_queue_receive keeps_queue_close)
  moreover have "entry_store s' = entry_store s"
    using handler(1) by (auto simp: next_handler_def split: list.splits)
  ultimately show ?thesis by (simp add: keeps_processed_def callback_of_def)
next
  case (client_sends x e)
  then have "r \<noteq> x" using assms(2) by (auto simp: fresh_entry_def)
  with client_sends show ?thesis by (simp add: async_send_def post_def)
qed (simp_all add: post_def async_close_def terminate_base_impl_def)

lemma base_steps_calls:
  "base_steps dec s t \<Longrightarrow> sender_inv s \<Longrightarrow>
   \<exists>n cs. n \<le> length (queue_calls s @ cs) \<and> queue_calls t = drop n (queue_calls s @ cs) \<and>
     called t = called s @ concat (map snd (take n (queue_calls s @ cs)))"
proof (induction rule: base_steps.induct)
  case (none s)
  show ?case by (rule exI [of _ 0], rule exI [of _ "[]"]) simp
next
  case (more s t u)
  then obtain n cs where n: "n \<le> length (queue_calls s @ cs)"
    and t: "queue_calls t = drop n (queue_calls s @ cs)"
    and called: "called t = called s @ concat (map snd (take n (queue_calls s @ cs)))" by blast
  let ?c = "\<lambda>v r. (r, callback_of (entry_store v r))"
  have keep: "map (?c u) (send_entries t) = queue_calls t"
    using base_step_processed [OF more.hyps(2)] by (simp add: queue_calls_def)
  have "queue_step t u"
    using base_step_queue [OF more.hyps(2)] base_steps_inv [OF more.hyps(1) more.prems] by blast
  then consider "send_entries u = send_entries t" "called u = called t"
    | r where "send_entries u = send_entries t @ [r]" "called u = called t"
    | r where "send_entries t = r # send_entries u" "called u = called t @ callback_of (entry_store u r)"
    by (auto simp: queue_step_def)
  then show ?case
  proof cases
    case 1
    then have "queue_calls u = queue_calls t" using keep by (simp add: queue_calls_def)
    with n t called 1 show ?thesis by auto
  next
    case (2 r)
    then have "queue_calls u = queue_calls t @ [?c u r]" using keep by (simp add: queue_calls_def)
    with n t called 2 show ?thesis by (intro exI [of _ n] exI [of _ "cs @ [?c u r]"]) auto
  next
    case (3 r)
    have front: "queue_calls t = ?c u r # queue_calls u"
      using keep 3(1) by (simp add: queue_calls_def)
    then have less: "n < length (queue_calls s @ cs)" using t by (metis drop_eq_Nil2 list.distinct(1) not_le)
    then have nth: "(queue_calls s @ cs) ! n = ?c u r"
      using front t by (metis hd_drop_conv_nth list.sel(1))
    have "queue_calls u = drop (Suc n) (queue_calls s @ cs)"
      using front t by (metis drop_Suc list.sel(3) tl_drop)
    moreover have "called u = called s @ concat (map snd (take (Suc n) (queue_calls s @ cs)))"
      unfolding take_Suc_conv_app_nth [OF less] nth using called 3(2) by simp
    ultimately show ?thesis using less by (intro exI [of _ "Suc n"] exI [of _ cs]) auto
  qed
qed

section \<open>Giving up on \<open>no_buffer_space\<close>\<close>

text \<open>What one such error does to the entry it meets.\<close>

definition no_buffer_space_round :: "send_entry \<Rightarrow> send_entry" where
  "no_buffer_space_round e =
     (let e' = count_no_buffer_space e in if gives_up e' then drop_entry e' else e')"

lemma handle_no_buffer_space_entry:
  "entry_store (handle_no_buffer_space r s) r = no_buffer_space_round (entry_store s r)"
  by (simp add: handle_no_buffer_space_def no_buffer_space_round_def update_entry_def
      dispatch_task_def Let_def)

definition give_up_limit :: "send_entry \<Rightarrow> nat" where
  "give_up_limit e = (if bytes_transferred e = 0 then 11 else 101)"

lemma count_fields [simp]:
  "bytes_transferred (count_no_buffer_space e) = bytes_transferred e"
  "buffer (count_no_buffer_space e) = buffer e"
  "no_buffer_space_error_count (count_no_buffer_space e) = no_buffer_space_error_count e + 1"
  by (simp_all add: count_no_buffer_space_def)

lemma of_nat_less_size: "n \<le> 200 \<Longrightarrow> m \<le> 200 \<Longrightarrow> (of_nat n :: size_t) < of_nat m \<longleftrightarrow> n < m"
  by (simp add: word_less_nat_alt unat_of_nat)

lemma gives_up_counts:
  assumes "n \<le> 200"
  shows "gives_up (e\<lparr>no_buffer_space_error_count := of_nat n\<rparr>) \<longleftrightarrow> n \<ge> give_up_limit e"
proof -
  have "(10 :: size_t) < of_nat n \<longleftrightarrow> 10 < n" "(100 :: size_t) < of_nat n \<longleftrightarrow> 100 < n"
    using of_nat_less_size [of 10 n] of_nat_less_size [of 100 n] assms by simp_all
  then show ?thesis by (auto simp: gives_up_def give_up_limit_def)
qed

lemma rounds_before_limit:
  assumes "no_buffer_space_error_count e = 0"
  shows "k < give_up_limit e \<Longrightarrow>
    (no_buffer_space_round ^^ k) e = e\<lparr>no_buffer_space_error_count := of_nat k\<rparr>"
proof (induction k)
  case 0
  with assms show ?case by simp
next
  case (Suc k)
  have c: "count_no_buffer_space (e\<lparr>no_buffer_space_error_count := of_nat k\<rparr>)
      = e\<lparr>no_buffer_space_error_count := of_nat (Suc k)\<rparr>"
    by (simp add: count_no_buffer_space_def set_no_buffer_space_error_count_def add.commute)
  have "\<not> gives_up (e\<lparr>no_buffer_space_error_count := of_nat (Suc k)\<rparr>)"
    using Suc.prems gives_up_counts [of "Suc k" e] by (auto simp: give_up_limit_def split: if_splits)
  with Suc c show ?case by (simp add: no_buffer_space_round_def)
qed

lemma round_at_limit:
  assumes "no_buffer_space_error_count e = 0"
  shows "transfer_complete ((no_buffer_space_round ^^ give_up_limit e) e)"
proof -
  have "give_up_limit e > 0" by (simp add: give_up_limit_def)
  then obtain k where k: "give_up_limit e = Suc k" by (auto simp: gr0_conv_Suc)
  have c: "count_no_buffer_space (e\<lparr>no_buffer_space_error_count := of_nat k\<rparr>)
      = e\<lparr>no_buffer_space_error_count := of_nat (Suc k)\<rparr>"
    by (simp add: count_no_buffer_space_def set_no_buffer_space_error_count_def add.commute)
  have "gives_up (e\<lparr>no_buffer_space_error_count := of_nat (Suc k)\<rparr>)"
    using gives_up_counts [of "Suc k" e] k by (auto simp: give_up_limit_def split: if_splits)
  then show ?thesis
    using rounds_before_limit [OF assms, of k] k c
    by (simp add: no_buffer_space_round_def drop_entry_def Let_def)
qed

lemma round_stays_complete: "transfer_complete e \<Longrightarrow> transfer_complete (no_buffer_space_round e)"
  by (simp add: no_buffer_space_round_def drop_entry_def Let_def transfer_complete_def
      rest_bytes_def)

lemma rounds_complete_iff:
  assumes "no_buffer_space_error_count e = 0" and "\<not> transfer_complete e"
  shows "transfer_complete ((no_buffer_space_round ^^ k) e) \<longleftrightarrow> give_up_limit e \<le> k"
proof (cases "k < give_up_limit e")
  case True
  with assms rounds_before_limit [OF assms(1) True] show ?thesis
    by (simp add: transfer_complete_def)
next
  case False
  then obtain j where "k = give_up_limit e + j" by (auto simp: not_less le_iff_add)
  moreover have "transfer_complete ((no_buffer_space_round ^^ (give_up_limit e + j)) e)"
    by (induction j) (simp_all add: round_at_limit [OF assms(1)] round_stays_complete)
  ultimately show ?thesis by simp
qed

end
