(* ===== verification/Client_Receiver.thy ===== *)
theory Client_Receiver
  imports Client_Sender
begin

text \<open>
  The receiver of a client over all its connections.  A pending receive writes into the member
  \<open>receive_buffer_\<close>, and its handler reads it there: the types of the state do not say that the
  bytes are still those of the datagram when the handler runs, nor that the count it was given lies
  inside the buffer.  Both follow from the receiver being one loop, as the sender is.
\<close>

section \<open>The loop of the receiver\<close>

fun is_received :: "io_handler \<Rightarrow> bool" where
  "is_received (Io_received ec n) = True"
| "is_received _ = False"

definition receivers :: "'z base_impl_scheme \<Rightarrow> nat" where
  "receivers s = receiving s + length (filter is_received (io_ready s))"

text \<open>What is left of an earlier connection's receive runs before the connect completes.\<close>

fun receive_first :: "io_handler list \<Rightarrow> bool" where
  "receive_first [] = True"
| "receive_first (h # hs) = ((connect_done h \<longrightarrow> \<not> list_ex is_received hs) \<and> receive_first hs)"

lemma receive_first_append [simp]:
  "receive_first (hs @ ks) \<longleftrightarrow> receive_first hs \<and> receive_first ks \<and>
     (list_ex connect_done hs \<longrightarrow> \<not> list_ex is_received ks)"
  by (induction hs) auto

lemma receive_first_none: "\<not> list_ex connect_done hs \<Longrightarrow> receive_first hs"
  by (induction hs) auto

definition receiver_inv :: "'z base_impl_scheme \<Rightarrow> bool" where
  "receiver_inv s \<longleftrightarrow>
     receivers s \<le> 1 \<and> (live s \<longrightarrow> receivers s = 1) \<and> (\<not> live s \<longrightarrow> receiving s = 0) \<and>
     receive_first (io_ready s)"

lemma pending_receive:
  assumes "receiver_inv s" and "receiving s > 0"
  shows "live s" "receiving s = 1" "filter is_received (io_ready s) = []"
proof -
  show "live s" using assms by (auto simp: receiver_inv_def)
  have "receiving s + length (filter is_received (io_ready s)) \<le> 1"
    using assms(1) by (simp add: receiver_inv_def receivers_def)
  with assms(2) show "receiving s = 1" and "filter is_received (io_ready s) = []"
    unfolding length_0_conv [symmetric] by linarith+
qed

section \<open>The size of the buffer\<close>

text \<open>
  All connects are for one buffer size, as those of a \<open>client\<close> are; once resized, the buffer has
  room for every count that is reported.
\<close>

definition buffer_typed :: "size_t \<Rightarrow> 'z base_impl_scheme \<Rightarrow> bool" where
  "buffer_typed sz s \<longleftrightarrow>
     length (receive_buffer s) \<in> {0, unat (sz + buffer_margin)} \<and>
     (\<forall>p. Io_connect p \<in> set (io_ready s) \<longrightarrow> connect_buffer_size p = sz) \<and>
     (\<forall>ec n. Io_received ec n \<in> set (io_ready s) \<longrightarrow> unat n \<le> length (receive_buffer s))"

section \<open>Frames\<close>

text \<open>The user data that the tasks report, in order.\<close>

fun received_of :: "impl_task list \<Rightarrow> (bytes \<times> endpoint) list" where
  "received_of [] = []"
| "received_of (Received v ep # ts) = (v, ep) # received_of ts"
| "received_of (_ # ts) = received_of ts"

lemma received_of_append [simp]: "received_of (ts @ us) = received_of ts @ received_of us"
  by (induction ts rule: received_of.induct) simp_all

text \<open>What leaves the receiver alone and at most adds handlers that are not the receiver's.\<close>

definition same_receiver :: "'z base_impl_scheme \<Rightarrow> 'z base_impl_scheme \<Rightarrow> bool" where
  "same_receiver s t \<longleftrightarrow> receiving t = receiving s \<and> receive_buffer t = receive_buffer s \<and>
     receive_sender_endpoint t = receive_sender_endpoint s \<and>
     received_of (dispatched t) = received_of (dispatched s) \<and> live t = live s \<and>
     (\<exists>hs. io_ready t = io_ready s @ hs \<and> \<not> list_ex is_received hs \<and> \<not> list_ex connect_pending hs)"

lemma same_receiver_refl [simp]: "same_receiver s s"
  by (simp add: same_receiver_def)

lemma same_receiver_trans: "same_receiver s t \<Longrightarrow> same_receiver t u \<Longrightarrow> same_receiver s u"
  by (auto simp: same_receiver_def)

lemma same_receiverE:
  assumes "same_receiver s t"
  obtains hs where "io_ready t = io_ready s @ hs" "receiving t = receiving s"
    "filter is_received hs = []" "\<not> list_ex connect_done hs" "\<not> list_ex is_received hs"
proof -
  obtain hs where "io_ready t = io_ready s @ hs" "receiving t = receiving s"
    "\<not> list_ex is_received hs" "\<not> list_ex connect_pending hs"
    using assms by (auto simp: same_receiver_def)
  moreover from this have "filter is_received hs = []" "\<not> list_ex connect_done hs"
    using connect_done_pending by (auto simp: filter_empty_conv list_ex_iff)
  ultimately show ?thesis using that by blast
qed

lemma receiver_inv_frame:
  assumes "receiver_inv s" and "same_receiver s t"
  shows "receiver_inv t"
proof -
  obtain hs where "io_ready t = io_ready s @ hs" "receiving t = receiving s"
    "filter is_received hs = []" "\<not> list_ex connect_done hs" "\<not> list_ex is_received hs"
    using assms(2) by (rule same_receiverE)
  moreover have "live t = live s" using assms(2) by (simp add: same_receiver_def)
  ultimately show ?thesis
    using assms(1) by (simp add: receiver_inv_def receivers_def receive_first_none)
qed

lemma buffer_typed_frame:
  "buffer_typed sz s \<Longrightarrow> same_receiver s t \<Longrightarrow> buffer_typed sz t"
  by (fastforce simp: buffer_typed_def same_receiver_def list_ex_iff)

lemma list_ex_replicate [simp]: "list_ex P (replicate n x) \<longleftrightarrow> 0 < n \<and> P x"
  by (induction n) auto

lemma same_receiver_io [simp]:
  "\<not> is_received h \<Longrightarrow> \<not> connect_pending h \<Longrightarrow> same_receiver s (post h s)"
  "received_of [t] = [] \<Longrightarrow> same_receiver s (dispatch_task t s)" "same_receiver s (update_entry r f s)"
  "same_receiver s (deadline_expires_at tp s)" "same_receiver s (deadline_wait s)"
  "same_receiver s (invoker_expires_at tp s)" "same_receiver s (invoker_wait s)"
  "same_receiver s (reset_work_guard s)" "same_receiver s (start_send r s)"
  "same_receiver s (pop_front_send_entry s)"
  by (auto simp: same_receiver_def impl_simps update_entry_def start_send_def reset_work_guard_def
      pop_front_send_entry_def live_def split: list.splits option.splits)

lemma same_receiver_await [simp]: "same_receiver s (await_send_entry d s)"
  by (auto simp: await_send_entry_def split: option.splits
      intro: same_receiver_trans [OF same_receiver_io(6) same_receiver_io(7)]
        same_receiver_trans [OF same_receiver_io(4) same_receiver_io(9)])

lemma same_receiver_finish: "same_receiver s (finish_send r d s)"
  by (auto simp: finish_send_def intro: same_receiver_trans [OF same_receiver_io(10)])

lemma same_receiver_handle_send: "same_receiver s (handle_send ec n r s)"
proof -
  let ?s1 = "deadline_expires_at pos_infin (update_entry r (add_bytes_transferred n) s)"
  have s1: "same_receiver s ?s1"
    by (rule same_receiver_trans) (rule same_receiver_io)+
  have nbs: "same_receiver ?s1 (handle_no_buffer_space r ?s1)"
    by (auto simp: handle_no_buffer_space_def Let_def
        intro!: same_receiver_trans [OF _ same_receiver_io(2)] same_receiver_trans [OF _ same_receiver_io(3)])
  have report: "same_receiver ?s1 (dispatch_task (Error_occurred e) (update_entry r drop_entry ?s1))" for e
    by (rule same_receiver_trans [OF same_receiver_io(3) same_receiver_io(2)]) simp
  have close: "same_receiver ?s1 (async_close (dispatch_task (Error_occurred e) ?s1))" for e
    unfolding async_close_def
    by (rule same_receiver_trans [OF same_receiver_io(2) same_receiver_io(1)]) simp_all
  have "same_receiver ?s1 (handle_send ec n r s)"
    by (auto simp: handle_send_def Let_def close
        intro: same_receiver_trans [OF _ same_receiver_finish] nbs report)
  with s1 show ?thesis by (rule same_receiver_trans)
qed

lemma same_receiver_check_deadline: "same_receiver s (check_send_deadline s)"
  by (simp add: check_send_deadline_def async_close_def)

lemma same_receiver_send_handler: "same_receiver s (send_handler r s)"
proof -
  have "same_receiver s (s\<lparr>send_entries := send_entries s @ [r]\<rparr>)"
    by (simp add: same_receiver_def live_def)
  then show ?thesis
    unfolding send_handler_def Let_def by (rule same_receiver_trans) simp
qed

section \<open>Preservation by the base class\<close>

definition receiver_typed :: "size_t \<Rightarrow> 'z base_impl_scheme \<Rightarrow> bool" where
  "receiver_typed sz s \<longleftrightarrow> receiver_inv s \<and> buffer_typed sz s"

lemma receiver_typed_frame: "receiver_typed sz s \<Longrightarrow> same_receiver s t \<Longrightarrow> receiver_typed sz t"
  by (auto simp: receiver_typed_def intro: receiver_inv_frame buffer_typed_frame)

text \<open>Taking a handler of another kind out of the ready queue.\<close>

lemma receiver_typed_take:
  assumes "receiver_typed sz s" and "io_ready s = h # hs" and "\<not> is_received h"
  shows "receiver_typed sz (s\<lparr>io_ready := hs\<rparr>)"
  using assms
  by (auto simp: receiver_typed_def receiver_inv_def buffer_typed_def receivers_def live_def)

text \<open>Nothing of the receiver is pending.\<close>

definition receiver_idle :: "'z base_impl_scheme \<Rightarrow> bool" where
  "receiver_idle s \<longleftrightarrow> receivers s = 0 \<and> receive_first (io_ready s)"

lemma receiver_idle_frame:
  assumes "receiver_idle s" and "same_receiver s t"
  shows "receiver_idle t"
proof -
  obtain hs where "io_ready t = io_ready s @ hs" "receiving t = receiving s"
    "filter is_received hs = []" "\<not> list_ex connect_done hs" "\<not> list_ex is_received hs"
    using assms(2) by (rule same_receiverE)
  with assms(1) show ?thesis by (simp add: receiver_idle_def receivers_def receive_first_none)
qed

lemma idle_receives: "receiver_idle s \<Longrightarrow> receiver_inv (async_receive s)"
  by (auto simp: receiver_idle_def receiver_inv_def receivers_def async_receive_def live_def)

lemma idle_stays: "receiver_idle s \<Longrightarrow> \<not> live s \<Longrightarrow> receiver_inv s"
  by (auto simp: receiver_idle_def receiver_inv_def receivers_def)

text \<open>Handing a datagram on only adds to what is dispatched.\<close>

definition same_io :: "'z base_impl_scheme \<Rightarrow> 'z base_impl_scheme \<Rightarrow> bool" where
  "same_io s t \<longleftrightarrow> receiving t = receiving s \<and> receive_buffer t = receive_buffer s \<and>
     io_ready t = io_ready s \<and> live t = live s \<and> socket_ready t = socket_ready s"

lemma same_io_refl [simp]: "same_io s s"
  by (simp add: same_io_def)

lemma same_io_datagram: "same_io s (receive_datagram dec n s)"
  by (simp add: receive_datagram_def dispatch_task_def same_io_def live_def Let_def
      split: option.splits entry_type.splits)

lemma buffer_typed_receive: "buffer_typed sz (async_receive s) = buffer_typed sz s"
  by (simp add: buffer_typed_def async_receive_def)

lemma receiver_typed_receive:
  assumes typed: "receiver_typed sz s" and h: "io_ready s = Io_received ec n # hs"
  shows "receiver_typed sz (receive_handler dec ec n (s\<lparr>io_ready := hs\<rparr>))"
proof -
  let ?s = "s\<lparr>io_ready := hs\<rparr>"
  define u where "u = (if \<not> is_error ec then if n > 0 then receive_datagram dec n ?s else ?s else ?s)"
  have frame: "same_io ?s u" by (simp add: u_def same_io_datagram)
  have "receiver_idle ?s"
    using typed h by (auto simp: receiver_typed_def receiver_inv_def receiver_idle_def receivers_def)
  then have idle: "receiver_idle u" using frame by (simp add: receiver_idle_def receivers_def same_io_def)
  have "buffer_typed sz ?s" using typed h by (auto simp: receiver_typed_def buffer_typed_def)
  then have buf: "buffer_typed sz u" using frame by (simp add: buffer_typed_def same_io_def)
  have "receive_handler dec ec n ?s = (if socket_ready u then async_receive u else u)"
    by (simp add: receive_handler_def u_def Let_def)
  with idle_receives [OF idle] idle_stays [OF idle] buf show ?thesis
    by (auto simp: receiver_typed_def buffer_typed_receive live_def)
qed

lemma receiver_typed_close:
  assumes typed: "receiver_typed sz s" and inv: "connect_inv s" and h: "io_ready s = Io_close # hs"
  shows "receiver_typed sz (close_handler (s\<lparr>io_ready := hs\<rparr>))"
proof (cases "impl_socket s")
  case None
  with receiver_typed_take [OF typed h] show ?thesis by (simp add: close_handler_def)
next
  case (Some k)
  let ?s = "s\<lparr>io_ready := hs\<rparr>" let ?t = "close_handler ?s"
  have "impl_socket ?s = Some k" using Some by simp
  note t = close_handler_fields [OF this]
  have buf: "receive_buffer ?t = receive_buffer s"
    using Some by (simp add: close_handler_def impl_simps remove_bound_path_def)
  have quiet: "list_ex connect_done hs \<Longrightarrow> receiving s = 0"
    using inv typed h
    by (auto simp: connect_inv_def completes_def receiver_typed_def receiver_inv_def live_def)
  have "receivers ?t = receivers s"
    by (simp add: receivers_def t h filter_empty_conv split_beta)
  moreover have "receive_first (io_ready ?t)"
    using typed quiet
    by (auto simp: t h receiver_typed_def receiver_inv_def list_ex_iff split_beta
        intro!: receive_first_none)
  moreover have "\<not> live ?t" by (simp add: live_def t)
  ultimately have "receiver_inv ?t"
    using typed by (simp add: receiver_inv_def receiver_typed_def t)
  moreover have "buffer_typed sz ?t"
    using typed by (auto simp: receiver_typed_def buffer_typed_def t h buf split: if_splits)
  ultimately show ?thesis by (simp add: receiver_typed_def)
qed

lemma receiver_typed_run:
  assumes typed: "receiver_typed sz s" and inv: "connect_inv s" and h: "next_handler s = Some (h, s')"
    and run: "run_base_handler dec h s' = Some t"
  shows "receiver_typed sz t"
proof -
  from h obtain hs where hs: "io_ready s = h # hs" and s': "s' = s\<lparr>io_ready := hs\<rparr>"
    by (auto simp: next_handler_def split: list.splits)
  have take: "receiver_typed sz s'" if "\<not> is_received h"
    using receiver_typed_take [OF typed hs that] s' by simp
  from run hs s' show ?thesis
    using take typed inv
    by (cases h) (auto intro: receiver_typed_close receiver_typed_receive receiver_typed_frame
        same_receiver_send_handler same_receiver_handle_send same_receiver_check_deadline
        same_receiver_await same_receiver_io)
qed

lemma receiver_typed_base_step:
  assumes "base_step dec s t" and typed: "receiver_typed sz s" and inv: "connect_inv s"
  shows "receiver_typed sz t"
  using assms(1)
proof cases
  case (handler h s')
  with typed inv show ?thesis by (blast intro: receiver_typed_run)
next
  case (receives v ep)
  have "receiver_inv s" using typed by (simp add: receiver_typed_def)
  note p = pending_receive [OF this receives(2)]
  then have "\<not> list_ex connect_done (io_ready s)"
    using inv by (auto simp: connect_inv_def completes_def live_def)
  moreover have "unat (vec_size v) \<le> length v" by (simp add: vec_size_def unat_of_nat)
  ultimately show ?thesis
    using receives typed p
    by (auto simp: receiver_typed_def receiver_inv_def buffer_typed_def receivers_def post_def live_def
        intro: receive_first_none)
next
  case (receive_fails ec)
  have "receiver_inv s" using typed by (simp add: receiver_typed_def)
  note p = pending_receive [OF this receive_fails(2)]
  then have "\<not> list_ex connect_done (io_ready s)"
    using inv by (auto simp: connect_inv_def completes_def live_def)
  then show ?thesis
    using receive_fails typed p
    by (auto simp: receiver_typed_def receiver_inv_def buffer_typed_def receivers_def post_def live_def
        intro: receive_first_none)
qed (rule receiver_typed_frame [OF typed];
    simp add: same_receiver_def post_def live_def async_send_def async_close_def
      terminate_base_impl_def)+

section \<open>The client's own handlers\<close>

lemma length_resize [simp]: "length (resize n v) = unat n"
  by (simp add: resize_def)

lemma connect_handler_receiver:
  assumes "connect_handler env p s = Inr t"
  shows "t = s \<or> \<not> live s \<and> \<not> live t \<and> receiving t = receiving s \<and> io_ready t = io_ready s \<and>
    receive_sender_endpoint t = receive_sender_endpoint s \<and>
    received_of (dispatched t) = received_of (dispatched s) \<and>
    (receive_buffer t = receive_buffer s \<or>
     receive_buffer t = resize (connect_buffer_size p + buffer_margin) (receive_buffer s))"
  using assms
  by (auto simp: connect_handler_def set_socket_options_def Let_def remove_file_def dispatch_task_def
      start_connect_def bind_socket_def live_def split: option.splits if_splits)

lemma receiver_typed_resize:
  assumes typed: "receiver_typed sz s" and live: "\<not> live s" "\<not> live t"
    and same: "receiving t = receiving s" "io_ready t = io_ready s"
    and buf: "receive_buffer t = receive_buffer s \<or>
      receive_buffer t = resize (sz + buffer_margin) (receive_buffer s)"
  shows "receiver_typed sz t"
proof -
  have len: "length (receive_buffer s) \<le> length (receive_buffer t)"
    "length (receive_buffer t) \<in> {0, unat (sz + buffer_margin)}"
    using typed buf by (auto simp: receiver_typed_def buffer_typed_def)
  have "unat n \<le> length (receive_buffer t)" if "Io_received ec n \<in> set (io_ready t)" for ec n
    using that typed len(1) unfolding same receiver_typed_def buffer_typed_def
    by (blast intro: order_trans)
  then have "buffer_typed sz t"
    using typed len(2) by (simp add: receiver_typed_def buffer_typed_def same)
  moreover have "receiver_inv t"
    using typed live by (simp add: receiver_typed_def receiver_inv_def receivers_def same)
  ultimately show ?thesis by (simp add: receiver_typed_def)
qed

lemma receiver_typed_connect:
  assumes typed: "receiver_typed sz s" and h: "io_ready s = Io_connect p # hs"
    and run: "connect_handler env p (s\<lparr>io_ready := hs\<rparr>) = Inr t"
  shows "receiver_typed sz t"
proof -
  let ?s = "s\<lparr>io_ready := hs\<rparr>"
  have s: "receiver_typed sz ?s" using typed h by (rule receiver_typed_take) simp
  have "Io_connect p \<in> set (io_ready s)" using h by simp
  then have sz: "connect_buffer_size p = sz"
    using typed by (auto simp only: receiver_typed_def buffer_typed_def)
  show ?thesis
  proof (rule disjE [OF connect_handler_receiver [OF run]])
    assume "t = ?s"
    with s show ?thesis by (simp only:)
  next
    assume t: "\<not> live ?s \<and> \<not> live t \<and> receiving t = receiving ?s \<and> io_ready t = io_ready ?s \<and>
      receive_sender_endpoint t = receive_sender_endpoint ?s \<and>
      received_of (dispatched t) = received_of (dispatched ?s) \<and>
      (receive_buffer t = receive_buffer ?s \<or>
       receive_buffer t = resize (connect_buffer_size p + buffer_margin) (receive_buffer ?s))"
    show ?thesis
      by (rule receiver_typed_resize [OF s]) (use t in \<open>simp_all only: sz simp_thms\<close>)
  qed
qed

lemma start_actors_receiver:
  obtains v where "same_receiver s v" and "start_actors s = async_receive v"
proof -
  define v where "v = (let u = deadline_expires_at pos_infin (await_send_entry None s)
    in if impl_mode u = Client then check_send_deadline u else u)"
  have u: "same_receiver s (deadline_expires_at pos_infin (await_send_entry None s))"
    by (rule same_receiver_trans [OF same_receiver_await same_receiver_io(4)])
  then have v: "same_receiver s v"
    using same_receiver_trans [OF u same_receiver_check_deadline] by (simp add: v_def Let_def)
  have "start_actors s = async_receive v" by (simp add: start_actors_def v_def Let_def)
  with v show ?thesis by (rule that)
qed

lemma receiver_idle_start:
  assumes "receiver_idle s"
  shows "receiver_inv (start_actors s)"
    and "buffer_typed sz s \<Longrightarrow> buffer_typed sz (start_actors s)"
proof -
  obtain v where v: "same_receiver s v" and start: "start_actors s = async_receive v"
    by (rule start_actors_receiver)
  show "receiver_inv (start_actors s)"
    unfolding start using receiver_idle_frame [OF assms v] by (rule idle_receives)
  show "buffer_typed sz s \<Longrightarrow> buffer_typed sz (start_actors s)"
    using buffer_typed_frame [OF _ v] by (simp add: start buffer_typed_receive)
qed

lemma connected_handler_starts:
  assumes "\<not> is_error ec"
  obtains u where "connected_handler ec p pid s = start_actors u" and "receiving u = receiving s"
    "io_ready u = io_ready s" "receive_buffer u = receive_buffer s"
    "receive_sender_endpoint u = receive_sender_endpoint s"
    "received_of (dispatched u) = received_of (dispatched s)"
proof -
  let ?u = "dispatch_task (Connected (if impl_socket s \<noteq> None then pid else None))
    (start_client_socket_check (client_socket_file_path p) (client_socket_check_interval p)
      (stop_client_socket_check (start_server_check (server_check_interval p)
        (next_heartbeat_deadline p) (stop_server_check
          (s\<lparr>socket_ready := True, timers_generation := timers_generation s + 1\<rparr>)))))"
  have "connected_handler ec p pid s = start_actors ?u"
    using assms by (simp add: connected_handler_def Let_def start_server_check_def
        stop_server_check_def start_client_socket_check_def stop_client_socket_check_def
        dispatch_task_def split: option.splits)
  moreover have "receiving ?u = receiving s" "io_ready ?u = io_ready s"
    "receive_buffer ?u = receive_buffer s" "receive_sender_endpoint ?u = receive_sender_endpoint s"
    "received_of (dispatched ?u) = received_of (dispatched s)"
    by (simp_all add: start_server_check_def stop_server_check_def start_client_socket_check_def
        stop_client_socket_check_def dispatch_task_def split: option.splits)
  ultimately show ?thesis using that by blast
qed

lemma receiver_typed_connected:
  assumes typed: "receiver_typed sz s" and inv: "connect_inv s"
    and h: "io_ready s = Io_connected ec p # hs"
  shows "receiver_typed sz (connected_handler ec p pid (s\<lparr>io_ready := hs\<rparr>))"
proof (cases "is_error ec")
  case True
  have "receiver_typed sz (s\<lparr>io_ready := hs\<rparr>)" using typed h by (rule receiver_typed_take) simp
  then have "receiver_typed sz (dispatch_task (Connect_failed ec) (s\<lparr>io_ready := hs\<rparr>))"
    by (rule receiver_typed_frame) simp
  with True show ?thesis by (simp add: connected_handler_def)
next
  case False
  obtain u where u: "connected_handler ec p pid (s\<lparr>io_ready := hs\<rparr>) = start_actors u"
    "receiving u = receiving s" "io_ready u = hs" "receive_buffer u = receive_buffer s"
    by (rule connected_handler_starts [OF False, of p pid "s\<lparr>io_ready := hs\<rparr>"]) simp_all
  have "\<not> live s" using False inv h by (simp add: connect_inv_def completes_def live_def)
  then have "receiver_idle u"
    using typed False h
    by (auto simp: receiver_idle_def receivers_def u receiver_typed_def receiver_inv_def
        list_ex_iff filter_empty_conv)
  moreover have "buffer_typed sz u"
    using typed h by (simp add: receiver_typed_def buffer_typed_def u)
  ultimately show ?thesis by (simp add: u(1) receiver_typed_def receiver_idle_start)
qed

lemma same_receiver_checks:
  "same_receiver s (check_server enc r d s)" "same_receiver s' (check_client_socket f s')"
  "same_receiver s' (s'\<lparr>probe := x\<rparr>)" for s' :: "'z client_impl_scheme"
  by (auto simp: same_receiver_def check_server_def stop_server_check_def async_send_def post_def
      check_client_socket_def stop_client_socket_check_def dispatch_task_def live_def)

lemma receiver_typed_runs:
  assumes typed: "receiver_typed sz s" and inv: "connect_inv s" and h: "next_handler s = Some (h, s')"
    and run: "run_client_handler enc dec env pid r h s' = Some (Inr t)"
  shows "receiver_typed sz t"
proof -
  from h obtain hs where hs: "io_ready s = h # hs" and s': "s' = s\<lparr>io_ready := hs\<rparr>"
    by (auto simp: next_handler_def split: list.splits)
  have base: "receiver_typed sz t" if "run_base_handler dec h s' = Some t"
    using typed inv h that by (rule receiver_typed_run)
  have take: "receiver_typed sz s'" if "\<not> is_received h"
    using receiver_typed_take [OF typed hs that] s' by simp
  show ?thesis
  proof (cases h)
    case (Io_connect p)
    with run typed hs show ?thesis by (auto simp: s' intro: receiver_typed_connect)
  next
    case (Io_connected ec p)
    with run typed inv hs show ?thesis by (auto simp: s' intro: receiver_typed_connected)
  qed (use run base take receiver_typed_frame [OF _ same_receiver_checks(1)]
      receiver_typed_frame [OF _ same_receiver_checks(2)]
      receiver_typed_frame [OF _ same_receiver_checks(3)] in auto)
qed

section \<open>Preservation\<close>

text \<open>The runs of a client whose connects all have one buffer size.\<close>

inductive sized_reachable ::
    "(u32 \<Rightarrow> bytes) \<Rightarrow> (bytes \<Rightarrow> u32) \<Rightarrow> size_t \<Rightarrow> client_impl \<Rightarrow> bool" for enc dec sz where
  new: "sized_reachable enc dec sz (new_client_impl [] store fs now)"
| step: "sized_reachable enc dec sz s \<Longrightarrow> client_step enc dec s t \<Longrightarrow>
    (\<And>p. Io_connect p \<in> set (io_ready t) \<Longrightarrow> connect_buffer_size p = sz) \<Longrightarrow>
    sized_reachable enc dec sz t"

lemma sized_reachable_client: "sized_reachable enc dec sz s \<Longrightarrow> client_reachable enc dec s"
  by (induction rule: sized_reachable.induct) (auto intro: client_reachable.intros)

lemma receiver_typed_step:
  assumes "client_step enc dec s t" and typed: "receiver_typed sz s" and inv: "connect_inv s"
    and sized: "\<And>p. Io_connect p \<in> set (io_ready t) \<Longrightarrow> connect_buffer_size p = sz"
  shows "receiver_typed sz t"
  using assms(1)
proof cases
  case base
  then show ?thesis using typed inv by (rule receiver_typed_base_step)
next
  case (runs h s' r env pid)
  with typed inv show ?thesis by (blast intro: receiver_typed_runs)
next
  case (connect_ends ps p qs ec)
  then show ?thesis
    using typed
    by (auto simp: receiver_typed_def receiver_inv_def buffer_typed_def receivers_def post_def live_def)
next
  case (connect_called p)
  then show ?thesis
    using typed sized
    by (auto simp: receiver_typed_def receiver_inv_def buffer_typed_def receivers_def post_def live_def
        async_connect_def)
qed (rule receiver_typed_frame [OF typed]; simp add: async_close_def)+

context byte_order
begin

lemma sized_reachable_typed: "sized_reachable to_bytes of_bytes sz s \<Longrightarrow> receiver_typed sz s"
proof (induction rule: sized_reachable.induct)
  case (new store fs now)
  then show ?case
    by (simp add: receiver_typed_def receiver_inv_def buffer_typed_def receivers_def live_def
        new_client_impl_def new_base_impl_def base_impl.defs)
next
  case (step s t)
  have "connect_inv s"
    using client_reachable_inv [OF sized_reachable_client [OF step.hyps(1)]] by (simp add: client_inv_def)
  with step show ?case by (blast intro: receiver_typed_step)
qed

end

end
