(* ===== verification/Client_Delivery.thy ===== *)
theory Client_Delivery
  imports Client_Receiver
begin

text \<open>
  What the receiver of a client makes of the datagrams the socket hands to it: user data is reported
  once, in the order of arrival, over all connections and whatever else happens in between.
\<close>

section \<open>Datagrams\<close>

text \<open>What a datagram from an endpoint is to be reported as.\<close>

definition user_data :: "bytes \<times> endpoint \<Rightarrow> (bytes \<times> endpoint) list" where
  "user_data d =
     (case d of
        (b # v, ep) \<Rightarrow> if type_of_byte b = Some User_data then [(v, ep)] else []
      | ([], ep) \<Rightarrow> [])"

text \<open>A datagram that is in the receive buffer while its handler is queued.\<close>

fun held_data :: "bytes \<Rightarrow> endpoint \<Rightarrow> io_handler \<Rightarrow> (bytes \<times> endpoint) list" where
  "held_data buf ep (Io_received ec n) = (if is_error ec then [] else user_data (take (unat n) buf, ep))"
| "held_data buf ep _ = []"

definition in_hand :: "'z base_impl_scheme \<Rightarrow> (bytes \<times> endpoint) list" where
  "in_hand s =
     concat (map (held_data (receive_buffer s) (receive_sender_endpoint s)) (io_ready s))"

definition delivered :: "'z base_impl_scheme \<Rightarrow> (bytes \<times> endpoint) list" where
  "delivered s = received_of (dispatched s) @ in_hand s"

lemma held_data_none: "\<not> is_received h \<Longrightarrow> held_data buf ep h = []"
  by (cases h) simp_all

lemma held_data_all_none: "\<not> list_ex is_received hs \<Longrightarrow> concat (map (held_data buf ep) hs) = []"
  by (induction hs) (simp_all add: held_data_none)

lemma filter_received_none: "filter is_received hs = [] \<Longrightarrow> \<not> list_ex is_received hs"
  by (auto simp: filter_empty_conv list_ex_iff)

lemma in_hand_length:
  assumes "receiver_inv s"
  shows "length (in_hand s) \<le> 1"
proof -
  have held: "length (held_data buf ep h) \<le> (if is_received h then 1 else 0)" for buf ep h
    by (cases h) (auto simp: user_data_def split: list.splits)
  have "length (concat (map (held_data buf ep) hs)) \<le> length (filter is_received hs)" for buf ep hs
    by (induction hs) (auto intro: le_trans [OF add_mono [OF held]] split: if_splits)
  then have "length (in_hand s) \<le> length (filter is_received (io_ready s))"
    by (simp only: in_hand_def)
  also have "\<dots> \<le> 1" using assms by (simp add: receiver_inv_def receivers_def)
  finally show ?thesis .
qed

section \<open>What does not touch the data\<close>

lemma delivered_frame:
  assumes "same_receiver s t"
  shows "delivered t = delivered s"
proof -
  obtain hs where "io_ready t = io_ready s @ hs" "\<not> list_ex is_received hs"
    using assms by (rule same_receiverE)
  moreover have "receive_buffer t = receive_buffer s"
    "receive_sender_endpoint t = receive_sender_endpoint s"
    "received_of (dispatched t) = received_of (dispatched s)"
    using assms by (simp_all add: same_receiver_def)
  ultimately show ?thesis by (simp add: delivered_def in_hand_def held_data_all_none)
qed

lemma delivered_take:
  "io_ready s = h # hs \<Longrightarrow> \<not> is_received h \<Longrightarrow> delivered (s\<lparr>io_ready := hs\<rparr>) = delivered s"
  by (simp add: delivered_def in_hand_def held_data_none)

lemma delivered_receive [simp]: "delivered (async_receive s) = delivered s"
  by (simp add: delivered_def in_hand_def async_receive_def)

lemma delivered_close: "delivered (close_handler s) = delivered s"
proof (cases "impl_socket s")
  case None
  then show ?thesis by (simp add: close_handler_def)
next
  case (Some k)
  have "receive_buffer (close_handler s) = receive_buffer s"
    "receive_sender_endpoint (close_handler s) = receive_sender_endpoint s"
    "received_of (dispatched (close_handler s)) = received_of (dispatched s)"
    using Some by (simp_all add: close_handler_def impl_simps remove_bound_path_def)
  moreover have "concat (map (held_data buf ep) (replicate n (Io_received Operation_aborted 0))) = []"
    for buf ep n
    by (induction n) simp_all
  moreover have "concat (map (held_data buf ep) hs) = []" if "\<forall>h \<in> set hs. \<not> is_received h" for buf ep hs
    using that held_data_none by auto
  ultimately show ?thesis
    by (simp add: delivered_def in_hand_def close_handler_fields(11) [OF Some] split_beta)
qed

section \<open>The handler of a receive\<close>

lemma receive_datagram_delivers:
  assumes "0 < n" and "unat n \<le> length (receive_buffer s)"
  shows "received_of (dispatched (receive_datagram dec n s)) =
    received_of (dispatched s) @ user_data (take (unat n) (receive_buffer s), receive_sender_endpoint s)"
proof -
  obtain b v where buf: "receive_buffer s = b # v"
    using assms by (cases "receive_buffer s") (auto simp: word_gt_0 unat_eq_zero)
  have n: "unat n = Suc (unat (n - 1))"
    using assms(1) by (simp add: unat_minus_one word_gt_0 unat_gt_0)
  show ?thesis
    unfolding n
    by (auto simp: receive_datagram_def buf user_data_def dispatch_task_def Let_def
        split: option.splits entry_type.splits)
qed

lemma delivered_received:
  assumes typed: "receiver_typed sz s" and h: "io_ready s = Io_received ec n # hs"
  shows "delivered (receive_handler dec ec n (s\<lparr>io_ready := hs\<rparr>)) = delivered s"
proof -
  let ?s = "s\<lparr>io_ready := hs\<rparr>"
  define u where "u = (if \<not> is_error ec then if n > 0 then receive_datagram dec n ?s else ?s else ?s)"
  have "filter is_received hs = []"
    using typed h by (simp add: receiver_typed_def receiver_inv_def receivers_def)
  then have none: "\<not> list_ex is_received hs" by (rule filter_received_none)
  have n: "unat n \<le> length (receive_buffer s)"
    using typed h by (auto simp: receiver_typed_def buffer_typed_def)
  have "io_ready u = hs" "receive_buffer u = receive_buffer s"
    using same_io_datagram [of ?s dec n] by (simp_all add: u_def same_io_def)
  moreover have "received_of (dispatched u) = received_of (dispatched s) @
      held_data (receive_buffer s) (receive_sender_endpoint s) (Io_received ec n)"
    using receive_datagram_delivers [of n ?s dec] n
    by (auto simp: u_def word_gt_0 user_data_def)
  ultimately have "delivered u = delivered s"
    by (simp add: delivered_def in_hand_def h held_data_all_none [OF none])
  moreover have "receive_handler dec ec n ?s = (if socket_ready u then async_receive u else u)"
    by (simp add: receive_handler_def u_def Let_def)
  ultimately show ?thesis by simp
qed

section \<open>Preservation\<close>

text \<open>The handlers of the base class and their steps, but for a datagram that arrives.\<close>

lemma delivered_run:
  assumes typed: "receiver_typed sz s" and h: "next_handler s = Some (h, s')"
    and run: "run_base_handler dec h s' = Some t"
  shows "delivered t = delivered s"
proof -
  from h obtain hs where hs: "io_ready s = h # hs" and s': "s' = s\<lparr>io_ready := hs\<rparr>"
    by (auto simp: next_handler_def split: list.splits)
  have take: "delivered s' = delivered s" if "\<not> is_received h"
    using delivered_take [OF hs that] s' by simp
  have frame: "same_receiver s' t \<Longrightarrow> \<not> is_received h \<Longrightarrow> delivered t = delivered s"
    using delivered_frame take by metis
  from run hs s' show ?thesis
    using take typed frame
    by (cases h) (auto simp: delivered_close delivered_received same_receiver_send_handler
        same_receiver_handle_send same_receiver_check_deadline)
qed

fun is_datagram :: "io_handler \<Rightarrow> bool" where
  "is_datagram (Io_received ec n) = (\<not> is_error ec)"
| "is_datagram _ = False"

text \<open>The number of datagrams in hand does not grow: none has arrived.\<close>

definition none_arrives :: "'z base_impl_scheme \<Rightarrow> 'z base_impl_scheme \<Rightarrow> bool" where
  "none_arrives s t \<longleftrightarrow>
     length (filter is_datagram (io_ready t)) \<le> length (filter is_datagram (io_ready s))"

lemma delivered_base_step:
  assumes "base_step dec s t" and typed: "receiver_typed sz s" and none: "none_arrives s t"
  shows "delivered t = delivered s"
  using assms(1)
proof cases
  case (handler h s')
  with typed show ?thesis by (blast intro: delivered_run)
next
  case (receives v ep)
  with none show ?thesis by (simp add: none_arrives_def post_def)
next
  case (receive_fails ec)
  then show ?thesis by (simp add: delivered_def in_hand_def post_def)
qed (rule delivered_frame;
    simp add: same_receiver_def post_def live_def async_send_def async_close_def
      terminate_base_impl_def)+

text \<open>A datagram that arrives is in hand.\<close>

lemma delivered_arrival:
  assumes typed: "receiver_typed sz s" and "receiving s > 0" and len: "length v \<le> length (receive_buffer s)"
  shows "delivered (post (Io_received Success (vec_size v))
      (s\<lparr>receiving := receiving s - 1, receive_buffer := v @ drop (length v) (receive_buffer s),
         receive_sender_endpoint := ep\<rparr>)) = delivered s @ user_data (v, ep)"
proof -
  have "receiver_inv s" using typed by (simp add: receiver_typed_def)
  then have none: "\<not> list_ex is_received (io_ready s)"
    by (rule filter_received_none [OF pending_receive(3)]) (rule assms(2))
  have "unat (sz + buffer_margin) < 2 ^ LENGTH(64)" by (rule unsigned_less)
  then have "length (receive_buffer s) < 2 ^ 64"
    using typed by (auto simp: receiver_typed_def buffer_typed_def)
  then have "unat (vec_size v) = length v" using len by (intro unat_vec_size) (simp add: fits_def)
  then show ?thesis
    by (simp add: delivered_def in_hand_def post_def held_data_all_none [OF none])
qed

lemma resize_same: "length v = unat n \<Longrightarrow> resize n v = v"
  by (simp add: resize_def)

lemma delivered_connect:
  assumes typed: "receiver_typed sz s" and h: "io_ready s = Io_connect p # hs"
    and run: "connect_handler env p (s\<lparr>io_ready := hs\<rparr>) = Inr t"
  shows "delivered t = delivered s"
proof -
  let ?s = "s\<lparr>io_ready := hs\<rparr>"
  have "receiver_typed sz ?s" using typed h by (rule receiver_typed_take) simp
  then have counts: "\<And>ec n. Io_received ec n \<in> set hs \<Longrightarrow> unat n \<le> length (receive_buffer s)"
    and len: "length (receive_buffer s) = 0 \<or> length (receive_buffer s) = unat (sz + buffer_margin)"
    by (auto simp only: receiver_typed_def buffer_typed_def) auto
  have "Io_connect p \<in> set (io_ready s)" using h by simp
  then have sz: "connect_buffer_size p = sz"
    using typed by (auto simp only: receiver_typed_def buffer_typed_def)
  have held: "held_data (resize (sz + buffer_margin) (receive_buffer s)) ep h' =
    held_data (receive_buffer s) ep h'" if "h' \<in> set hs" for h' ep
    using len
  proof
    assume "length (receive_buffer s) = 0"
    then show ?thesis using that counts by (cases h') (auto simp: user_data_def)
  qed (simp add: resize_same)
  have "delivered ?s = delivered s" using delivered_take [OF h] by simp
  moreover have "delivered t = delivered ?s"
    using connect_handler_receiver [OF run] held
    by (auto simp: delivered_def in_hand_def sz cong: map_cong)
  ultimately show ?thesis by simp
qed

lemma delivered_connected:
  assumes h: "io_ready s = Io_connected ec p # hs"
  shows "delivered (connected_handler ec p pid (s\<lparr>io_ready := hs\<rparr>)) = delivered s"
proof (cases "is_error ec")
  case True
  then show ?thesis
    using delivered_take [OF h]
    by (simp add: connected_handler_def delivered_frame [OF same_receiver_io(2)])
next
  case False
  obtain u where u: "connected_handler ec p pid (s\<lparr>io_ready := hs\<rparr>) = start_actors u"
    "io_ready u = hs" "receive_buffer u = receive_buffer s"
    "receive_sender_endpoint u = receive_sender_endpoint s"
    "received_of (dispatched u) = received_of (dispatched s)"
    by (rule connected_handler_starts [OF False, of p pid "s\<lparr>io_ready := hs\<rparr>"]) simp_all
  obtain v where "same_receiver u v" "start_actors u = async_receive v"
    by (rule start_actors_receiver)
  then have "delivered (start_actors u) = delivered u" using delivered_frame by simp
  also have "\<dots> = delivered s" by (simp add: delivered_def in_hand_def u h)
  finally show ?thesis by (simp add: u(1))
qed

lemma delivered_runs:
  assumes typed: "receiver_typed sz s" and h: "next_handler s = Some (h, s')"
    and run: "run_client_handler enc dec env pid r h s' = Some (Inr t)"
  shows "delivered t = delivered s"
proof -
  from h obtain hs where hs: "io_ready s = h # hs" and s': "s' = s\<lparr>io_ready := hs\<rparr>"
    by (auto simp: next_handler_def split: list.splits)
  have base: "delivered t = delivered s" if "run_base_handler dec h s' = Some t"
    using typed h that by (rule delivered_run)
  have take: "delivered s' = delivered s" if "\<not> is_received h"
    using delivered_take [OF hs that] s' by simp
  show ?thesis
  proof (cases h)
    case (Io_connect p)
    with run typed hs show ?thesis by (auto simp: s' intro: delivered_connect)
  next
    case (Io_connected ec p)
    with run hs show ?thesis by (auto simp: s' intro: delivered_connected)
  qed (use run base take in \<open>auto simp: delivered_frame [OF same_receiver_checks(1)]
      delivered_frame [OF same_receiver_checks(2)] delivered_frame [OF same_receiver_checks(3)]\<close>)
qed

lemma delivered_step:
  assumes "client_step enc dec s t" and typed: "receiver_typed sz s" and none: "none_arrives s t"
  shows "delivered t = delivered s"
  using assms(1)
proof cases
  case base
  then show ?thesis using typed none by (rule delivered_base_step)
next
  case (runs h s' r env pid)
  with typed show ?thesis by (blast intro: delivered_runs)
next
  case (connect_ends ps p qs ec)
  then show ?thesis by (simp add: delivered_def in_hand_def post_def)
next
  case (connect_called p)
  then show ?thesis by (simp add: delivered_def in_hand_def post_def async_connect_def)
qed (rule delivered_frame; simp add: async_close_def)+

section \<open>Runs\<close>

text \<open>
  The runs of a client of one buffer size, with the datagrams that have arrived; a datagram is cut to
  the length of the buffer by the socket.
\<close>

inductive receiver_run ::
    "(u32 \<Rightarrow> bytes) \<Rightarrow> (bytes \<Rightarrow> u32) \<Rightarrow> size_t \<Rightarrow> client_impl \<Rightarrow> (bytes \<times> endpoint) list \<Rightarrow> bool"
  for enc dec sz where
  new: "receiver_run enc dec sz (new_client_impl [] store fs now) []"
| arrives: "receiver_run enc dec sz s ds \<Longrightarrow> receiving s > 0 \<Longrightarrow>
    length v \<le> length (receive_buffer s) \<Longrightarrow>
    receiver_run enc dec sz (post (Io_received Success (vec_size v))
      (s\<lparr>receiving := receiving s - 1, receive_buffer := v @ drop (length v) (receive_buffer s),
         receive_sender_endpoint := ep\<rparr>)) (ds @ [(v, ep)])"
| other: "receiver_run enc dec sz s ds \<Longrightarrow> client_step enc dec s t \<Longrightarrow> none_arrives s t \<Longrightarrow>
    (\<And>p. Io_connect p \<in> set (io_ready t) \<Longrightarrow> connect_buffer_size p = sz) \<Longrightarrow>
    receiver_run enc dec sz t ds"

context byte_order
begin

lemma receiver_run_sized: "receiver_run to_bytes of_bytes sz s ds \<Longrightarrow> sized_reachable to_bytes of_bytes sz s"
proof (induction rule: receiver_run.induct)
  case (arrives s ds v ep)
  have "connect_buffer_size p = sz" if "Io_connect p \<in> set (io_ready s)" for p
    using that sized_reachable_typed [OF arrives.IH] by (auto simp only: receiver_typed_def buffer_typed_def)
  then show ?case
    by (intro sized_reachable.step [OF arrives.IH client_step.base [OF base_step.receives [OF arrives.hyps(2,3)]]])
      (auto simp: post_def)
qed (auto intro: sized_reachable.intros)

lemma receiver_run_delivers:
  "receiver_run to_bytes of_bytes sz s ds \<Longrightarrow> delivered s = concat (map user_data ds)"
proof (induction rule: receiver_run.induct)
  case (new store fs now)
  then show ?case
    by (simp add: delivered_def in_hand_def new_client_impl_def new_base_impl_def base_impl.defs)
next
  case (arrives s ds v ep)
  then show ?case
    using delivered_arrival [OF sized_reachable_typed [OF receiver_run_sized [OF arrives.hyps(1)]]]
    by simp
next
  case (other s ds t)
  then show ?case
    using delivered_step [OF _ sized_reachable_typed [OF receiver_run_sized [OF other.hyps(1)]]] by simp
qed

end

end
