(* ===== verification/Repeated_Connects.thy ===== *)
theory Repeated_Connects
  imports Client_Delivery
begin

text \<open>
  A client whose reconnect timer runs asks for connects again and again, before earlier ones have
  completed.  A connect that finds a socket does nothing; here the runs with such connects are reduced to
  runs without them, and so are their invariants.
\<close>

section \<open>Connects that do nothing\<close>

text \<open>
  The ready queue without the connects that will find a socket; \<open>b\<close>: there is one when the queue starts.
\<close>

fun strip :: "bool \<Rightarrow> io_handler list \<Rightarrow> io_handler list" where
  "strip b [] = []"
| "strip b (Io_connect p # hs) = (if b then strip True hs else Io_connect p # strip True hs)"
| "strip b (Io_close # hs) = Io_close # strip False hs"
| "strip b (h # hs) = h # strip b hs"

text \<open>Whether there is a socket when the queue has been worked off.\<close>

fun socket_after :: "bool \<Rightarrow> io_handler list \<Rightarrow> bool" where
  "socket_after b [] = b"
| "socket_after b (Io_connect p # hs) = socket_after True hs"
| "socket_after b (Io_close # hs) = socket_after False hs"
| "socket_after b (h # hs) = socket_after b hs"

definition has_socket :: "'z base_impl_scheme \<Rightarrow> bool" where
  "has_socket s \<longleftrightarrow> impl_socket s \<noteq> None"

definition shed :: "'z base_impl_scheme \<Rightarrow> 'z base_impl_scheme" where
  "shed s = s\<lparr>io_ready := strip (has_socket s) (io_ready s)\<rparr>"

fun not_connect :: "io_handler \<Rightarrow> bool" where
  "not_connect (Io_connect p) = False"
| "not_connect _ = True"

lemma strip_append: "list_all not_connect new \<Longrightarrow> strip b (hs @ new) = strip b hs @ new"
proof (induction b hs rule: strip.induct)
  case (1 b)
  then show ?case
  proof (induction new arbitrary: b)
    case (Cons h new)
    then show ?case by (cases h) auto
  qed simp
qed auto

lemma strip_connect: "socket_after b hs \<Longrightarrow> strip b (hs @ [Io_connect p]) = strip b hs"
  by (induction b hs rule: strip.induct) auto

lemma strip_connect_new: "\<not> socket_after b hs \<Longrightarrow> strip b (hs @ [Io_connect p]) = strip b hs @ [Io_connect p]"
  by (induction b hs rule: strip.induct) auto

lemma set_strip: "set (strip b hs) \<subseteq> set hs"
  by (induction b hs rule: strip.induct) auto

section \<open>Handlers append to the queue\<close>

text \<open>What an operation does, it does for every queue: it appends the same handlers, none of them a connect.\<close>

definition only_appends :: "('z base_impl_scheme \<Rightarrow> 'z base_impl_scheme) \<Rightarrow> 'z base_impl_scheme \<Rightarrow> bool" where
  "only_appends f s \<longleftrightarrow> (\<exists>new. list_all not_connect new \<and> has_socket (f s) = has_socket s \<and>
     (\<forall>q. f (s\<lparr>io_ready := q\<rparr>) = (f s)\<lparr>io_ready := q @ new\<rparr>))"

lemma queuesI:
  "list_all not_connect new \<Longrightarrow> has_socket (f s) = has_socket s \<Longrightarrow>
   (\<And>q. f (s\<lparr>io_ready := q\<rparr>) = (f s)\<lparr>io_ready := q @ new\<rparr>) \<Longrightarrow> only_appends f s"
  by (auto simp: only_appends_def)

lemma queues_then: "only_appends f s \<Longrightarrow> only_appends g (f s) \<Longrightarrow> only_appends (\<lambda>s. g (f s)) s"
proof -
  assume "only_appends f s" "only_appends g (f s)"
  then obtain nf ng where "list_all not_connect nf" "has_socket (f s) = has_socket s"
    "\<And>q. f (s\<lparr>io_ready := q\<rparr>) = (f s)\<lparr>io_ready := q @ nf\<rparr>" "list_all not_connect ng"
    "has_socket (g (f s)) = has_socket (f s)" "\<And>q. g ((f s)\<lparr>io_ready := q\<rparr>) = (g (f s))\<lparr>io_ready := q @ ng\<rparr>"
    unfolding only_appends_def by blast
  then show ?thesis by (intro queuesI [of "nf @ ng"]) simp_all
qed

lemma queues_if:
  assumes "\<And>q. P (s\<lparr>io_ready := q\<rparr>) = P s" and "P s \<Longrightarrow> only_appends f s" and "\<not> P s \<Longrightarrow> only_appends g s"
  shows "only_appends (\<lambda>s. if P s then f s else g s) s"
  using assms by (cases "P s") (simp_all add: only_appends_def)

lemma list_all_replicate [simp]: "list_all P (replicate n x) \<longleftrightarrow> n = 0 \<or> P x"
  by (induction n) auto

lemma list_all_map_true: "(\<And>x. P (f x)) \<Longrightarrow> list_all P (map f xs)"
  by (induction xs) simp_all

lemma queues_post: "not_connect h \<Longrightarrow> only_appends (post h) s"
  by (intro queuesI [of "[h]"]) (simp_all add: post_def has_socket_def)

lemma queues_dispatch: "only_appends (dispatch_task t) s"
  by (intro queuesI [of "[]"]) (simp_all add: dispatch_task_def has_socket_def)

lemma queues_invoker: "only_appends (\<lambda>s. invoker_expires_at (tp s) s) s" if "\<And>q. tp (s\<lparr>io_ready := q\<rparr>) = tp s"
  using that by (intro queuesI [of "replicate (waits (send_invoker s)) (Io_invoker Operation_aborted)"])
    (simp_all add: impl_simps has_socket_def)

lemma queues_deadline: "only_appends (\<lambda>s. deadline_expires_at (tp s) s) s" if "\<And>q. tp (s\<lparr>io_ready := q\<rparr>) = tp s"
  using that by (intro queuesI [of "replicate (waits (send_deadline s)) (Io_deadline Operation_aborted)"])
    (simp_all add: impl_simps has_socket_def)

lemma queues_quiet [simp]:
  "only_appends invoker_wait s" "only_appends deadline_wait s" "only_appends (start_send r) s" "only_appends (update_entry r f) s"
  "only_appends pop_front_send_entry s" "only_appends async_receive s" "only_appends reset_work_guard s" "only_appends (\<lambda>s. s) s"
  by (intro queuesI [of "[]"]; simp add: impl_simps has_socket_def start_send_def update_entry_def
      pop_front_send_entry_def async_receive_def live_def reset_work_guard_def split: list.splits option.splits)+

lemma live_queue [simp]: "live (s\<lparr>io_ready := q\<rparr>) = live s"
  by (simp add: live_def)

lemma after_queue [simp]: "after d (s\<lparr>io_ready := q\<rparr>) = after d s"
  by (simp add: after_def)

lemma queues_async [simp]:
  "only_appends async_close s" "only_appends (async_send r) s"
  unfolding async_close_def async_send_def by (rule queues_post, simp)+

lemma queues_await: "only_appends (await_send_entry delay) s"
proof -
  consider "\<not> live s" | "live s" "delay \<noteq> None \<or> send_entries s = []"
    | "live s" "\<not> (delay \<noteq> None \<or> send_entries s = [])" by blast
  then show ?thesis
  proof cases
    case 1
    then show ?thesis by (intro queuesI [of "[]"]) (simp_all add: await_send_entry_def)
  next
    case 2
    then show ?thesis
      by (intro queuesI [of "replicate (waits (send_invoker s)) (Io_invoker Operation_aborted)"])
        (auto simp: await_send_entry_def impl_simps has_socket_def split: option.splits)
  next
    case 3
    then show ?thesis
      by (intro queuesI [of "replicate (waits (send_deadline s)) (Io_deadline Operation_aborted)"])
        (auto simp: await_send_entry_def start_send_def impl_simps has_socket_def)
  qed
qed

lemma queues_check_deadline: "only_appends check_send_deadline s"
  unfolding check_send_deadline_def by (intro queues_if queues_async queues_quiet) simp_all

lemma queues_send_handler: "only_appends (send_handler r) s"
  by (intro queuesI [of "replicate (waits (send_invoker s)) (Io_invoker Operation_aborted)"])
    (simp_all add: send_handler_def impl_simps has_socket_def)

lemma queues_finish: "only_appends (finish_send r delay) s"
proof -
  have "only_appends (\<lambda>s. if transfer_complete (entry_store s r) then pop_front_send_entry s else s) s"
    by (intro queues_if queues_quiet) simp_all
  from queues_then [OF this queues_await] show ?thesis by (simp add: finish_send_def [abs_def])
qed

lemma queues_no_buffer_space: "only_appends (handle_no_buffer_space r) s"
  by (intro queuesI [of "[]"])
    (simp_all add: handle_no_buffer_space_def update_entry_def dispatch_task_def has_socket_def Let_def)

lemma queues_handle_send: "only_appends (handle_send ec n r) s"
proof -
  have start: "only_appends (\<lambda>s. deadline_expires_at pos_infin (update_entry r (add_bytes_transferred n) s)) s"
    by (rule queues_then [OF queues_quiet(4) queues_deadline]) simp
  have drop: "only_appends (update_entry r drop_entry) s" for s :: "'a base_impl_scheme" by simp
  have report: "only_appends (\<lambda>s. dispatch_task (Error_occurred ec) (update_entry r drop_entry s)) s"
    for s :: "'a base_impl_scheme"
    by (rule queues_then [OF drop queues_dispatch])
  have rest: "only_appends (\<lambda>s1.
      if ec = No_buffer_space then finish_send r (Some 100) (handle_no_buffer_space r s1)
      else if ec = Message_size then finish_send r None (dispatch_task (Error_occurred ec) (update_entry r drop_entry s1))
      else if is_error ec then
        (if impl_mode s1 = Server then finish_send r None (update_entry r drop_entry s1)
         else async_close (dispatch_task (Error_occurred ec) s1))
      else finish_send r None s1) s" for s :: "'a base_impl_scheme"
    by (intro queues_if queues_then [OF queues_no_buffer_space queues_finish]
        queues_then [OF report queues_finish] queues_then [OF drop queues_finish]
        queues_then [OF queues_dispatch queues_async(1)] queues_finish) simp_all
  from queues_then [OF start rest] show ?thesis by (simp add: handle_send_def [abs_def] Let_def)
qed

lemma queues_receive: "only_appends (receive_handler dec ec n) s"
proof -
  have "only_appends (receive_datagram dec n) s"
    by (intro queuesI [of "[]"])
      (auto simp: receive_datagram_def dispatch_task_def has_socket_def Let_def split: option.splits entry_type.splits)
  then have "only_appends (\<lambda>s. if \<not> is_error ec then (if n > 0 then receive_datagram dec n s else s) else s) s"
    by (intro queues_if) simp_all
  moreover have "only_appends (\<lambda>s. if socket_ready s then async_receive s else s) s" for s :: "'a base_impl_scheme"
    by (intro queues_if queues_quiet) simp_all
  ultimately have "only_appends (\<lambda>s. (\<lambda>s'. if socket_ready s' then async_receive s' else s')
      (if \<not> is_error ec then (if n > 0 then receive_datagram dec n s else s) else s)) s"
    by (rule queues_then)
  then show ?thesis by (simp add: receive_handler_def [abs_def] Let_def)
qed

lemma queues_actors: "only_appends start_actors s"
proof -
  have "only_appends (\<lambda>s. deadline_expires_at pos_infin (await_send_entry None s)) s"
    by (rule queues_then [OF queues_await queues_deadline]) simp
  moreover have "only_appends (\<lambda>s. if impl_mode s = Client then check_send_deadline s else s) s" for s :: "'a base_impl_scheme"
    by (intro queues_if queues_quiet queues_check_deadline) simp_all
  ultimately have "only_appends (\<lambda>s. (\<lambda>s1. if impl_mode s1 = Client then check_send_deadline s1 else s1)
      (deadline_expires_at pos_infin (await_send_entry None s))) s"
    by (rule queues_then)
  from queues_then [OF this queues_quiet(6)] show ?thesis by (simp add: start_actors_def [abs_def] Let_def)
qed

lemma queues_checks:
  "only_appends (\<lambda>s. s\<lparr>socket_ready := True, timers_generation := timers_generation s + 1\<rparr>) s"
  "only_appends stop_server_check s" "only_appends (start_server_check iv d) s"
  by (rule queuesI [of "[]"]; cases iv;
      simp add: has_socket_def stop_server_check_def start_server_check_def dispatch_task_def)+

lemma queues_client_checks:
  "only_appends stop_client_socket_check s" "only_appends (start_client_socket_check f iv) s"
  by (rule queuesI [of "[]"]; cases f; cases iv;
      simp add: has_socket_def stop_client_socket_check_def start_client_socket_check_def dispatch_task_def)+

lemma queues_report: "only_appends (\<lambda>s. dispatch_task (Connected (if impl_socket s \<noteq> None then pid else None)) s) s"
  by (rule queuesI [of "[]"]) (simp_all add: has_socket_def dispatch_task_def)

lemma queues_connected: "only_appends (connected_handler ec p pid) s" for s :: "'z client_impl_scheme"
proof (cases "is_error ec")
  case True
  then show ?thesis using queues_dispatch by (simp add: connected_handler_def [abs_def])
next
  case False
  note pieces = queues_then [OF queues_then [OF queues_then [OF queues_then [OF queues_then [OF
    queues_then [OF queues_checks(1) queues_checks(2)] queues_checks(3)] queues_client_checks(1)]
    queues_client_checks(2)] queues_report] queues_actors]
  have "only_appends (\<lambda>s. start_actors ((\<lambda>s. dispatch_task (Connected (if impl_socket s \<noteq> None then pid else None)) s)
      (start_client_socket_check (client_socket_file_path p) (client_socket_check_interval p)
        (stop_client_socket_check (start_server_check (server_check_interval p) (next_heartbeat_deadline p)
          (stop_server_check (s\<lparr>socket_ready := True, timers_generation := timers_generation s + 1\<rparr>))))))) s"
    by (rule pieces)
  with False show ?thesis by (simp add: connected_handler_def [abs_def] Let_def)
qed

lemma queues_check_server: "only_appends (check_server enc r d) s"
proof (cases "live s")
  case True
  then show ?thesis
    by (intro queuesI [of "[Io_send r]"]) (simp_all add: check_server_def async_send_def post_def has_socket_def)
next
  case False
  then show ?thesis
    by (intro queuesI [of "[]"]) (simp_all add: check_server_def stop_server_check_def dispatch_task_def has_socket_def)
qed

lemma queues_check_client_socket: "only_appends (check_client_socket f) s"
  by (intro queuesI [of "[]"])
    (simp_all add: check_client_socket_def stop_client_socket_check_def dispatch_task_def has_socket_def)

section \<open>Close and connect\<close>

lemma close_appends:
  "\<exists>new. list_all not_connect new \<and> \<not> has_socket (close_handler s) \<and>
     (\<forall>q. close_handler (s\<lparr>io_ready := q\<rparr>) = (close_handler s)\<lparr>io_ready := q @ new\<rparr>)"
proof (cases "impl_socket s")
  case None
  then show ?thesis by (intro exI [of _ "[]"]) (simp add: close_handler_def has_socket_def)
next
  case (Some k)
  let ?new = "replicate (receiving s) (Io_received Operation_aborted 0)
    @ map (Io_connected Operation_aborted) (connecting s) @ map (\<lambda>(r, _). Io_sent Operation_aborted 0 r) (sending s)
    @ replicate (waits (send_invoker s)) (Io_invoker Operation_aborted)
    @ replicate (waits (send_deadline s)) (Io_deadline Operation_aborted)"
  have "list_all not_connect ?new"
    by (simp add: list_all_map_true split_beta)
  with Some show ?thesis
    by (intro exI [of _ ?new]) (simp add: close_handler_def remove_bound_path_def impl_simps has_socket_def)
qed

lemma connect_opens:
  assumes "connect_handler env p s = Inr t" and "\<not> has_socket s"
  shows "has_socket t \<and> io_ready t = io_ready s \<and> (\<forall>q. connect_handler env p (s\<lparr>io_ready := q\<rparr>) = Inr (t\<lparr>io_ready := q\<rparr>))"
  using assms
  by (auto simp: connect_handler_def has_socket_def set_socket_options_def start_connect_def bind_socket_def
      remove_file_def dispatch_task_def Let_def split: option.splits if_splits)

lemma connect_finds: "has_socket s \<Longrightarrow> connect_handler env p s = Inr s"
  by (simp add: connect_handler_def has_socket_def)

section \<open>The simulation\<close>

lemma shed_queues: "only_appends f s \<Longrightarrow> shed (f s) = f (shed s)"
proof -
  assume "only_appends f s"
  then obtain new where new: "list_all not_connect new" "has_socket (f s) = has_socket s"
    "\<And>q. f (s\<lparr>io_ready := q\<rparr>) = (f s)\<lparr>io_ready := q @ new\<rparr>"
    unfolding only_appends_def by blast
  have "io_ready (f s) = io_ready s @ new"
    using new(3) [of "io_ready s"] by (metis base_impl.select_convs(12) base_impl.surjective base_impl.update_convs(12))
  with new show ?thesis by (simp add: shed_def strip_append)
qed

lemma shed_post: "not_connect h \<Longrightarrow> shed (post h s) = post h (shed s)"
  by (rule shed_queues [OF queues_post])

lemma shed_fields [simp]:
  "has_socket (shed s) = has_socket s" "receiving (shed s) = receiving s" "sending (shed s) = sending s"
  "connecting (shed s) = connecting s" "send_invoker (shed s) = send_invoker s"
  "send_deadline (shed s) = send_deadline s" "steady_clock (shed s) = steady_clock s"
  "receive_buffer (shed s) = receive_buffer s" "entry_store (shed s) = entry_store s"
  "send_entries (shed s) = send_entries s" "impl_socket (shed s) = impl_socket s"
  "socket_ready (shed s) = socket_ready s"
  by (simp_all add: shed_def has_socket_def)

lemma shed_updates [simp]:
  "shed (s\<lparr>receiving := a\<rparr>) = (shed s)\<lparr>receiving := a\<rparr>" "shed (s\<lparr>sending := b\<rparr>) = (shed s)\<lparr>sending := b\<rparr>"
  "shed (s\<lparr>connecting := c\<rparr>) = (shed s)\<lparr>connecting := c\<rparr>"
  "shed (s\<lparr>receive_buffer := v\<rparr>) = (shed s)\<lparr>receive_buffer := v\<rparr>"
  "shed (s\<lparr>receive_sender_endpoint := ep\<rparr>) = (shed s)\<lparr>receive_sender_endpoint := ep\<rparr>"
  "shed (s\<lparr>send_invoker := t\<rparr>) = (shed s)\<lparr>send_invoker := t\<rparr>"
  "shed (s\<lparr>send_deadline := u\<rparr>) = (shed s)\<lparr>send_deadline := u\<rparr>"
  "shed (s\<lparr>steady_clock := x\<rparr>) = (shed s)\<lparr>steady_clock := x\<rparr>"
  "shed (s\<lparr>entry_store := es\<rparr>) = (shed s)\<lparr>entry_store := es\<rparr>"
  by (simp_all add: shed_def has_socket_def)

lemma fresh_shed: "fresh_entry r s \<Longrightarrow> fresh_entry r (shed s)"
  using set_strip by (fastforce simp: fresh_entry_def shed_def)

lemma next_shed:
  assumes "next_handler s = Some (h, s')" and "not_connect h" and "h \<noteq> Io_close"
  shows "next_handler (shed s) = Some (h, shed s')"
  using assms by (cases h) (auto simp: next_handler_def shed_def has_socket_def split: list.splits)

lemma next_shed_close:
  assumes "next_handler s = Some (Io_close, s')"
  shows "next_handler (shed s) = Some (Io_close, s'\<lparr>io_ready := strip False (io_ready s')\<rparr>)"
  using assms by (auto simp: next_handler_def shed_def has_socket_def split: list.splits)

lemma shed_close: "shed (close_handler s) = close_handler (s\<lparr>io_ready := strip False (io_ready s)\<rparr>)"
proof -
  obtain new where new: "list_all not_connect new" "\<not> has_socket (close_handler s)"
    "\<And>q. close_handler (s\<lparr>io_ready := q\<rparr>) = (close_handler s)\<lparr>io_ready := q @ new\<rparr>"
    using close_appends by blast
  have "io_ready (close_handler s) = io_ready s @ new"
    using new(3) [of "io_ready s"] by (metis base_impl.select_convs(12) base_impl.surjective base_impl.update_convs(12))
  with new show ?thesis by (simp add: shed_def strip_append)
qed

lemma base_handler_function:
  assumes "run_base_handler dec h s = Some t" and "h \<noteq> Io_close"
  shows "\<exists>f. only_appends f s \<and> t = f s \<and> (\<forall>u. run_base_handler dec h u = Some (f u))"
  using assms
  by (cases h) (auto intro: queues_send_handler queues_receive queues_handle_send queues_await
      queues_check_deadline queues_quiet(7))

lemma client_handler_function:
  assumes "run_client_handler enc dec env pid r h s = Some (Inr t)" and "h \<noteq> Io_close" and "not_connect h"
  shows "\<exists>f. only_appends f s \<and> t = f s \<and> (\<forall>u. run_client_handler enc dec env pid r h u = Some (Inr (f u)))"
proof -
  have "only_appends (\<lambda>s. s\<lparr>probe := None\<rparr>) s" by (rule queuesI [of "[]"]) (simp_all add: has_socket_def)
  with assms show ?thesis
    by (cases h) (auto intro: queues_send_handler queues_receive queues_handle_send queues_await
        queues_check_deadline queues_connected queues_check_server queues_check_client_socket
        queues_quiet(7))
qed

text \<open>
  The runs of a client whose owner asks for connects when there are earlier ones, as long as the socket
  will exist when the connect has its turn; the only connects left out are those behind a close that
  itself is behind a pending connect (theory \<open>Overlapping_Connects\<close>).
\<close>

inductive repeating_step ::
    "(u32 \<Rightarrow> bytes) \<Rightarrow> (bytes \<Rightarrow> u32) \<Rightarrow> client_impl \<Rightarrow> client_impl \<Rightarrow> bool" for enc dec where
  as_before: "client_step enc dec s t \<Longrightarrow> repeating_step enc dec s t"
| connect_again: "connects (shed s) = 0 \<or> socket_after (has_socket s) (io_ready s) \<Longrightarrow>
    repeating_step enc dec s (async_connect p s)"

inductive repeating_reachable ::
    "(u32 \<Rightarrow> bytes) \<Rightarrow> (bytes \<Rightarrow> u32) \<Rightarrow> client_impl \<Rightarrow> bool" for enc dec where
  new: "repeating_reachable enc dec (new_client_impl [] store fs now)"
| step: "repeating_reachable enc dec s \<Longrightarrow> repeating_step enc dec s t \<Longrightarrow> repeating_reachable enc dec t"

lemma shed_connect:
  "shed (async_connect p s) =
     (if socket_after (has_socket s) (io_ready s) then shed s else async_connect p (shed s))"
  by (simp add: async_connect_def post_def shed_def has_socket_def strip_connect strip_connect_new)

lemma shed_base_step:
  assumes "base_step dec s t"
  shows "base_step dec (shed s) (shed t)"
  using assms
proof cases
  case (handler h s')
  show ?thesis
  proof (cases "h = Io_close")
    case True
    then have t: "t = close_handler s'" using handler(2) by simp
    have "next_handler (shed s) = Some (Io_close, s'\<lparr>io_ready := strip False (io_ready s')\<rparr>)"
      using next_shed_close handler(1) True by blast
    then show ?thesis by (rule base_step.handler) (simp add: t shed_close)
  next
    case False
    obtain f where f: "only_appends f s'" "t = f s'" "\<And>u. run_base_handler dec h u = Some (f u)"
      using base_handler_function [OF handler(2) False] by blast
    have "not_connect h" using handler(2) by (cases h) simp_all
    from next_shed [OF handler(1) this False] f show ?thesis
      by (intro base_step.handler) (simp_all add: shed_queues)
  qed
next
  case (client_sends r e)
  then show ?thesis
    using base_step.client_sends [OF fresh_shed, of r s e dec] by (simp add: async_send_def shed_post)
next
  case (receives v ep)
  then show ?thesis using base_step.receives [of "shed s" v dec ep] by (simp add: shed_post)
next
  case (receive_fails ec)
  then show ?thesis using base_step.receive_fails [of "shed s" ec dec] by (simp add: shed_post)
next
  case (sends ps r v dest qs n ec)
  then show ?thesis using base_step.sends [of "shed s" ps r v dest qs n dec ec] by (simp add: shed_post)
next
  case invoker_fires
  then show ?thesis using base_step.invoker_fires [of "shed s" dec] by (simp add: shed_post)
next
  case deadline_fires
  then show ?thesis using base_step.deadline_fires [of "shed s" dec] by (simp add: shed_post)
next
  case (ticks d)
  then show ?thesis using base_step.ticks [of d dec "shed s"] by simp
next
  case client_closes
  then show ?thesis using base_step.client_closes [of dec "shed s"] by (simp add: async_close_def shed_post)
next
  case client_terminates
  then show ?thesis using base_step.client_terminates [of dec "shed s"] by (simp add: terminate_base_impl_def shed_post)
qed

lemma connects_shed: "connects (shed s) \<le> connects s"
proof -
  have "length (filter connect_pending (strip b hs)) \<le> length (filter connect_pending hs)" for b hs
    by (induction b hs rule: strip.induct) (auto intro: le_SucI)
  then show ?thesis by (simp add: connects_def shed_def has_socket_def)
qed

lemma shed_probe [simp]: "shed (s\<lparr>probe := x\<rparr>) = (shed s)\<lparr>probe := x\<rparr>" "probe (shed s) = probe s"
  by (simp_all add: shed_def has_socket_def)

lemma shed_connect_called:
  assumes "connects (shed s) = 0 \<or> socket_after (has_socket s) (io_ready s)"
  shows "shed (async_connect p s) = shed s \<or> client_step enc dec (shed s) (shed (async_connect p s))"
  using assms by (auto simp: shed_connect intro: client_step.connect_called)

lemma shed_runs:
  assumes head: "next_handler s = Some (h, s')" and fresh: "fresh_entry r s'"
    and run: "run_client_handler enc dec env pid r h s' = Some (Inr t)"
  shows "shed t = shed s \<or> client_step enc dec (shed s) (shed t)"
proof -
  obtain hs where hs: "io_ready s = h # hs" "s' = s\<lparr>io_ready := hs\<rparr>"
    using head by (auto simp: next_handler_def split: list.splits)
  consider "h = Io_close" | p where "h = Io_connect p" | "h \<noteq> Io_close" "not_connect h"
    by (cases h) auto
  then show ?thesis
  proof cases
    case 1
    then have "base_step dec s t" using run by (intro base_step.handler [OF head]) simp
    then show ?thesis using shed_base_step client_step.base by blast
  next
    case (2 p)
    show ?thesis
    proof (cases "has_socket s")
      case True
      then have "t = s'" using run 2 hs(2) by (simp add: connect_finds has_socket_def connect_handler_def)
      with True hs 2 show ?thesis by (simp add: shed_def has_socket_def)
    next
      case False
      then have t: "has_socket t" "io_ready t = hs"
        "\<And>q. connect_handler env p (s'\<lparr>io_ready := q\<rparr>) = Inr (t\<lparr>io_ready := q\<rparr>)"
        using connect_opens [of env p s' t] run 2 hs(2) by (simp_all add: has_socket_def)
      let ?u = "s'\<lparr>io_ready := strip True hs\<rparr>"
      have "next_handler (shed s) = Some (Io_connect p, ?u)"
        using False hs 2 by (simp add: next_handler_def shed_def)
      moreover have "fresh_entry r ?u"
        using fresh set_strip [of True hs] hs(2) by (auto simp: fresh_entry_def)
      moreover have "run_client_handler enc dec env pid r (Io_connect p) ?u = Some (Inr (shed t))"
        using t by (simp add: shed_def)
      ultimately show ?thesis using client_step.runs by blast
    qed
  next
    case 3
    obtain f where f: "only_appends f s'" "t = f s'"
      "\<And>u. run_client_handler enc dec env pid r h u = Some (Inr (f u))"
      using client_handler_function [OF run 3] by blast
    have "client_step enc dec (shed s) (f (shed s'))"
      using next_shed [OF head 3(2,1)] fresh_shed [OF fresh] f(3) by (rule client_step.runs)
    then show ?thesis using f(1,2) by (simp add: shed_queues)
  qed
qed

lemma shed_step:
  assumes "repeating_step enc dec s t"
  shows "shed t = shed s \<or> client_step enc dec (shed s) (shed t)"
  using assms
proof cases
  case as_before
  then show ?thesis
  proof cases
    case base
    then show ?thesis using shed_base_step client_step.base by blast
  next
    case (runs h s' r env pid)
    then show ?thesis by (rule shed_runs)
  next
    case (connect_ends ps p qs ec)
    then show ?thesis using client_step.connect_ends [of "shed s" ps p qs enc dec ec] by (simp add: shed_post)
  next
    case (server_check_round d)
    then show ?thesis using client_step.server_check_round [of enc dec "shed s" d] by (simp add: shed_post)
  next
    case (client_socket_check_round f)
    then show ?thesis using client_step.client_socket_check_round [of enc dec "shed s" f] by (simp add: shed_post)
  next
    case probe_connected
    then show ?thesis using client_step.probe_connected [of "shed s" enc dec] by (simp add: shed_post)
  next
    case probe_failed
    then show ?thesis using client_step.probe_failed [of "shed s" enc dec] by (simp add: async_close_def shed_post)
  next
    case (connect_called p)
    then have "connects (shed s) = 0" using connects_shed [of s] by simp
    then show ?thesis using shed_connect_called connect_called(1) by blast
  qed
next
  case (connect_again p)
  then show ?thesis using shed_connect_called by blast
qed

lemma shed_reachable: "repeating_reachable enc dec s \<Longrightarrow> client_reachable enc dec (shed s)"
proof (induction rule: repeating_reachable.induct)
  case (new store fs now)
  have "shed (new_client_impl [] store fs now) = new_client_impl [] store fs now"
    by (simp add: shed_def new_client_impl_def new_base_impl_def base_impl.defs client_impl.defs)
  then show ?case using client_reachable.new by metis
next
  case (step s t)
  then show ?case using shed_step client_reachable.step by metis
qed

section \<open>What is left alone\<close>

lemma filter_strip: "(\<And>p. \<not> P (Io_connect p)) \<Longrightarrow> filter P (strip b hs) = filter P hs"
  by (induction b hs rule: strip.induct) auto

lemma in_strip: "not_connect h \<Longrightarrow> h \<in> set (strip b hs) \<longleftrightarrow> h \<in> set hs"
  by (induction b hs rule: strip.induct) auto

lemma held_strip: "concat (map (held_data buf ep) (strip b hs)) = concat (map (held_data buf ep) hs)"
  by (induction b hs rule: strip.induct) auto

lemma shed_handlers:
  "not_connect h \<Longrightarrow> h \<in> set (io_ready (shed s)) \<longleftrightarrow> h \<in> set (io_ready s)"
  "filter is_received (io_ready (shed s)) = filter is_received (io_ready s)"
  "filter is_datagram (io_ready (shed s)) = filter is_datagram (io_ready s)"
  by (simp_all add: shed_def in_strip filter_strip)

lemma shed_loops: "loops (shed s) = loops s"
  by (simp add: loops_def shed_def filter_strip)

lemma shed_delivered: "delivered (shed s) = delivered s" "in_hand (shed s) = in_hand s"
  by (simp_all add: delivered_def in_hand_def shed_def held_strip)

lemma shed_live: "live (shed s) = live s"
  by (simp add: live_def)

section \<open>Runs\<close>

text \<open>
  The runs of one buffer size with the datagrams that arrive, as \<open>receiver_run\<close> has them, and with the
  connects that do nothing.
\<close>

inductive repeating_run ::
    "(u32 \<Rightarrow> bytes) \<Rightarrow> (bytes \<Rightarrow> u32) \<Rightarrow> size_t \<Rightarrow> client_impl \<Rightarrow> (bytes \<times> endpoint) list \<Rightarrow> bool"
  for enc dec sz where
  new: "repeating_run enc dec sz (new_client_impl [] store fs now) []"
| arrives: "repeating_run enc dec sz s ds \<Longrightarrow> receiving s > 0 \<Longrightarrow>
    length v \<le> length (receive_buffer s) \<Longrightarrow>
    repeating_run enc dec sz (post (Io_received Success (vec_size v))
      (s\<lparr>receiving := receiving s - 1, receive_buffer := v @ drop (length v) (receive_buffer s),
         receive_sender_endpoint := ep\<rparr>)) (ds @ [(v, ep)])"
| other: "repeating_run enc dec sz s ds \<Longrightarrow> repeating_step enc dec s t \<Longrightarrow> none_arrives s t \<Longrightarrow>
    (\<And>p. Io_connect p \<in> set (io_ready t) \<Longrightarrow> connect_buffer_size p = sz) \<Longrightarrow>
    repeating_run enc dec sz t ds"

lemma shed_run: "repeating_run enc dec sz s ds \<Longrightarrow> receiver_run enc dec sz (shed s) ds"
proof (induction rule: repeating_run.induct)
  case (new store fs now)
  have "shed (new_client_impl [] store fs now) = new_client_impl [] store fs now"
    by (simp add: shed_def new_client_impl_def new_base_impl_def base_impl.defs client_impl.defs)
  then show ?case using receiver_run.new by metis
next
  case (arrives s ds v ep)
  then show ?case
    using receiver_run.arrives [of enc dec sz "shed s" ds v ep] by (simp add: shed_post)
next
  case (other s ds t)
  then consider "shed t = shed s" | "client_step enc dec (shed s) (shed t)" using shed_step by blast
  then show ?case
  proof cases
    case 1
    with other.IH show ?thesis by simp
  next
    case 2
    have "none_arrives (shed s) (shed t)"
      using other.hyps(3) by (simp add: none_arrives_def shed_handlers(3))
    moreover have "connect_buffer_size p = sz" if "Io_connect p \<in> set (io_ready (shed t))" for p
      using that other.hyps(4) set_strip by (fastforce simp: shed_def)
    ultimately show ?thesis using receiver_run.other [OF other.IH 2] by blast
  qed
qed

lemma repeating_run_of: "receiver_run enc dec sz s ds \<Longrightarrow> repeating_run enc dec sz s ds"
proof (induction rule: receiver_run.induct)
  case (arrives s ds v ep)
  from arrives.IH arrives.hyps(2,3) show ?case by (rule repeating_run.arrives)
qed (auto intro: repeating_run.new repeating_run.other repeating_step.as_before)

lemma repeating_reachable_of: "client_reachable enc dec s \<Longrightarrow> repeating_reachable enc dec s"
  by (induction rule: client_reachable.induct)
    (auto intro: repeating_reachable.intros repeating_step.as_before)

context byte_order
begin

lemma repeating_inv: "repeating_reachable to_bytes of_bytes s \<Longrightarrow> client_inv (shed s)"
  by (rule client_reachable_inv [OF shed_reachable])

lemma repeating_typed: "repeating_run to_bytes of_bytes sz s ds \<Longrightarrow> receiver_typed sz (shed s)"
  by (rule sized_reachable_typed [OF receiver_run_sized [OF shed_run]])

lemma repeating_delivers:
  "repeating_run to_bytes of_bytes sz s ds \<Longrightarrow> delivered s = concat (map user_data ds)"
  using receiver_run_delivers [OF shed_run] by (simp add: shed_delivered)

end

end
