(* ===== verification/Sender_Properties.thy ===== *)
theory Sender_Properties
  imports Server_Impl Base_Delivery Repeated_Connects
begin

text \<open>
  The properties of the sender: one loop over the whole life of a client and of a server, and what
  it does to the queue of entries.
\<close>

section \<open>A connected client and a bound server\<close>

text \<open>The states the applications use.\<close>

definition sample_store :: "entry_ref \<Rightarrow> send_entry" where
  "sample_store = (\<lambda>_. send_entry_vector User_data [7, 8] None (Some 5))"

definition sample_params :: connect_params where
  "sample_params =
     \<lparr>server_socket_file_path = ''s'', client_socket_file_path = Some ''c'',
      connect_buffer_size = 1024, server_check_interval = Some 1000,
      next_heartbeat_deadline = None, client_socket_check_interval = None\<rparr>"

definition sample_env :: socket_env where
  "sample_env = \<lparr>open_result = Success, options_accepted = True, bind_result = Success,
                 default_socket = \<lparr>receive_buffer_size = 0, send_buffer_size = 0\<rparr>\<rparr>"

definition sample_connecting :: client_impl where
  "sample_connecting =
     (new_client_impl [] sample_store {} 0)\<lparr>
       impl_socket := Some \<lparr>receive_buffer_size = 1056, send_buffer_size = 1025\<rparr>,
       receive_buffer := resize 1056 [], bound_path := ''c'', files := {''c''},
       connecting := [sample_params]\<rparr>"

definition sample_connected :: client_impl where
  "sample_connected =
     connected_handler Success sample_params None (sample_connecting\<lparr>connecting := []\<rparr>)"

lemma vec_size_resize [simp]: "vec_size (resize n v) = n"
proof -
  have "length (resize n v) = unat n" by (simp add: resize_def)
  then show ?thesis by (simp add: vec_size_def)
qed

lemma sample_new_simps [simp]:
  "io_ready (new_client_impl es st fs n) = []" "connecting (new_client_impl es st fs n) = []"
  "impl_socket (new_client_impl es st fs n) = None" "send_entries (new_client_impl es st fs n) = es"
  "sending (new_client_impl es st fs n) = []" "receive_buffer (new_client_impl es st fs n) = []"
  "files (new_client_impl es st fs n) = fs" "socket_ready (new_client_impl es st fs n) = False"
  "send_invoker (new_client_impl es st fs n) = \<lparr>expiry = Pos_infin, waits = 0\<rparr>"
  "send_deadline (new_client_impl es st fs n) = \<lparr>expiry = Pos_infin, waits = 0\<rparr>"
  "impl_mode (new_client_impl es st fs n) = Client" "receiving (new_client_impl es st fs n) = 0"
  "entry_store (new_client_impl es st fs n) = st" "steady_clock (new_client_impl es st fs n) = n"
  by (simp_all add: new_client_impl_def new_base_impl_def base_impl.defs pos_infin_def)

text \<open>The steps that connect: the call, the posted handler, the completion and its handler.\<close>

definition sample_new :: client_impl where
  "sample_new = new_client_impl [] sample_store {} 0"

definition sample_completed :: client_impl where
  "sample_completed = post (Io_connected Success sample_params) (sample_connecting\<lparr>connecting := []\<rparr>)"

lemma sample_steps:
  "client_step enc dec sample_new (async_connect sample_params sample_new)"
  "client_step enc dec (async_connect sample_params sample_new) sample_connecting"
  "client_step enc dec sample_connecting sample_completed"
  "client_step enc dec sample_completed sample_connected"
proof -
  show "client_step enc dec sample_new (async_connect sample_params sample_new)"
    by (rule client_step.connect_called) (simp add: connects_def sample_new_def)
  show "client_step enc dec (async_connect sample_params sample_new) sample_connecting"
  proof (rule client_step.runs)
    show "next_handler (async_connect sample_params sample_new) = Some (Io_connect sample_params, sample_new)"
      by (simp add: async_connect_def next_handler_def post_def sample_new_def)
    show "fresh_entry 0 sample_new" by (simp add: fresh_entry_def sample_new_def)
    show "run_client_handler enc dec sample_env None 0 (Io_connect sample_params) sample_new
        = Some (Inr sample_connecting)"
      by (simp add: connect_handler_def set_socket_options_def sample_params_def sample_env_def
          remove_file_def start_connect_def bind_socket_def Let_def sample_connecting_def
          buffer_margin_def sample_new_def)
  qed
  show "client_step enc dec sample_connecting sample_completed"
    using client_step.connect_ends [of sample_connecting "[]" sample_params "[]" enc dec Success]
    by (simp add: sample_connecting_def sample_completed_def)
  show "client_step enc dec sample_completed sample_connected"
  proof (rule client_step.runs)
    let ?s = "sample_connecting\<lparr>connecting := []\<rparr>"
    show "next_handler sample_completed = Some (Io_connected Success sample_params, ?s)"
      by (simp add: next_handler_def post_def sample_connecting_def sample_completed_def)
    show "fresh_entry 0 ?s" by (simp add: fresh_entry_def sample_connecting_def)
    show "run_client_handler enc dec sample_env None 0 (Io_connected Success sample_params) ?s
        = Some (Inr sample_connected)"
      by (simp add: sample_connected_def)
  qed
qed

lemma sample_connected_reachable: "client_reachable enc dec sample_connected"
  by (rule client_reachable.step [OF client_reachable.step [OF client_reachable.step [OF
        client_reachable.step [OF client_reachable.new sample_steps(1) [unfolded sample_new_def]]]]])
    (rule sample_steps [unfolded sample_new_def])+

lemma sample_connected_eq:
  "sample_connected = (new_client_impl [] sample_store {} 0)\<lparr>
     impl_socket := Some \<lparr>receive_buffer_size = 1056, send_buffer_size = 1025\<rparr>, socket_ready := True,
     bound_path := ''c'', receive_buffer := resize 1056 [], timers_generation := 1,
     send_invoker := \<lparr>expiry = Pos_infin, waits = 1\<rparr>,
     send_deadline := \<lparr>expiry = Pos_infin, waits = 1\<rparr>, receiving := 1, files := {''c''},
     dispatched := [Server_check_timer Timer_stop, Server_check_timer (Timer_start (Io_heartbeat None) 1000),
       Client_socket_check_timer Timer_stop, Connected None]\<rparr>"
  by (simp add: sample_connected_def connected_handler_def sample_params_def start_actors_def
      start_server_check_def stop_server_check_def start_client_socket_check_def
      stop_client_socket_check_def await_send_entry_def check_send_deadline_def async_receive_def
      live_def impl_simps sample_connecting_def clock_now_def)
    (simp add: new_client_impl_def new_base_impl_def base_impl.defs)

lemma sample_connected_simps [simp]:
  "impl_socket sample_connected = Some \<lparr>receive_buffer_size = 1056, send_buffer_size = 1025\<rparr>"
  "socket_ready sample_connected" "send_entries sample_connected = []" "io_ready sample_connected = []"
  "sending sample_connected = []" "send_invoker sample_connected = \<lparr>expiry = Pos_infin, waits = 1\<rparr>"
  "receiving sample_connected = 1" "entry_store sample_connected = sample_store"
  "steady_clock sample_connected = 0" "impl_mode sample_connected = Client"
  by (simp_all add: sample_connected_eq)

lemma sample_connected_inv: "sender_inv sample_connected"
  using little.client_reachable_inv [OF sample_connected_reachable] by (simp add: client_inv_def)

section \<open>One loop\<close>



text \<open>C2. The same over the life of a \<open>server_impl\<close>, from its construction over a queue of entries.\<close>

theorem server_sender_is_one_loop:
  assumes "server_reachable dec s"
  shows "loops s \<le> 1 \<and> (live s \<and> Io_close \<notin> set (io_ready s) \<longrightarrow> loops s = 1) \<and>
    (\<forall>r v dest. (r, v, dest) \<in> set (sending s) \<longrightarrow> send_entries s \<noteq> [] \<and> hd (send_entries s) = r \<and>
       v = make_buffer (entry_store s r) \<and> dest = destination_endpoint (entry_store s r)) \<and>
    (live s \<and> send_entries s \<noteq> [] \<and> waits (send_invoker s) > 0 \<longrightarrow> expiry (send_invoker s) \<noteq> Pos_infin)"
proof -
  have "sender_inv s" using server_reachable_inv [OF assms] by (simp add: server_inv_def)
  then show ?thesis
    using sender_invD(2) [of s] by (auto simp: sender_inv_def sends_front_def at_front_def)
qed

definition sample_server :: server_impl where
  "sample_server = new_server_impl [4] sample_store {} 0"

definition sample_bound :: server_impl where
  "sample_bound = projr (bind_handler sample_env ''s'' 1024 None sample_server)"

lemma sample_server_simps [simp]:
  "io_ready sample_server = []" "connecting sample_server = []" "impl_socket sample_server = None"
  "send_entries sample_server = [4]" "sending sample_server = []" "receive_buffer sample_server = []"
  "files sample_server = {}" "socket_ready sample_server = False"
  "send_invoker sample_server = \<lparr>expiry = Pos_infin, waits = 0\<rparr>"
  "send_deadline sample_server = \<lparr>expiry = Pos_infin, waits = 0\<rparr>"
  "impl_mode sample_server = Server" "receiving sample_server = 0"
  "entry_store sample_server = sample_store" "steady_clock sample_server = 0"
  by (simp_all add: sample_server_def new_server_impl_def new_base_impl_def base_impl.defs pos_infin_def)

lemma sample_bound_bind: "bind_handler sample_env ''s'' 1024 None sample_server = Inr sample_bound"
  by (simp add: sample_bound_def bind_handler_def sample_env_def Let_def set_socket_options_def
      replace_socket_def remove_file_def)

lemma sample_bound_eq:
  "sample_bound = sample_server\<lparr>
     impl_socket := Some \<lparr>receive_buffer_size = 1056, send_buffer_size = 1025\<rparr>, socket_ready := True,
     bound_path := ''s'', receive_buffer := resize 1056 [],
     timers_generation := timers_generation sample_server + 1,
     send_deadline := \<lparr>expiry = Pos_infin, waits = 0\<rparr>,
     receiving := 1, sending := [(4, make_buffer (sample_store 4), destination_endpoint (sample_store 4))],
     files := {''s''}, dispatched := dispatched sample_server @ [Bound]\<rparr>"
  by (simp add: sample_bound_def bind_handler_def sample_env_def Let_def set_socket_options_def
      replace_socket_def remove_file_def bind_socket_def start_bind_check_def start_actors_def
      await_send_entry_def async_receive_def live_def impl_simps start_send_def buffer_margin_def)

lemma sample_bound_simps [simp]:
  "live sample_bound" "io_ready sample_bound = []" "impl_mode sample_bound = Server"
  "sending sample_bound = [(4, [1, 7, 8], None)]" "send_invoker sample_bound = \<lparr>expiry = Pos_infin, waits = 0\<rparr>"
  "send_entries sample_bound = [4]" "entry_store sample_bound = sample_store"
  "bound_path sample_bound = ''s''" "files sample_bound = {''s''}"
  by (simp_all add: sample_bound_eq live_def sample_store_def send_entry_vector_def make_buffer_def
      vec_size_def)

lemma sample_bound_reachable: "server_reachable dec sample_bound"
proof -
  let ?b = "async_bind ''s'' 1024 None sample_server"
  have wf: "entry_wf (sample_store r)" for r
    by (simp add: sample_store_def entry_wf_constructors fits_def)
  have "server_reachable dec ?b"
    unfolding sample_server_def by (rule server_reachable.bound) (simp_all add: wf)
  moreover let ?c = "post (Io_bind ''s'' 1024 None) sample_server"
  have "server_step dec ?b ?c"
    by (rule server_step.base, rule base_step.handler [of _ Io_close ?c])
      (simp_all add: next_handler_def async_bind_def async_close_def post_def close_handler_def)
  moreover have "server_step dec ?c sample_bound"
    by (rule server_step.runs [where env = sample_env and h = "Io_bind ''s'' 1024 None"
          and s' = sample_server])
      (simp_all add: next_handler_def post_def sample_bound_bind)
  ultimately show ?thesis by (blast intro: server_reachable.step)
qed

theorem server_sender_is_one_loop_witness:
  "live sample_bound \<and> loops sample_bound = 1 \<and> sending sample_bound = [(4, [1, 7, 8], None)]"
  using server_sender_is_one_loop [OF sample_bound_reachable] by simp

section \<open>The queue of entries\<close>

text \<open>
  C3. What a step does to the queue: nothing, or an entry is appended, or the front entry leaves,
  completely transferred (or dropped) and with its callback enqueued then and only then.
\<close>

theorem entries_leave_complete:
  assumes "sender_inv s" and "base_step dec s t"
  shows "(send_entries t = send_entries s \<and> called t = called s) \<or>
    (\<exists>r. send_entries t = send_entries s @ [r] \<and> called t = called s) \<or>
    (\<exists>r. send_entries s = r # send_entries t \<and> transfer_complete (entry_store t r) \<and>
       called t = called s @ callback_of (entry_store t r))"
  using base_step_queue [OF assms(2,1)] by (simp add: queue_step_def)

text \<open>The first entry of the bound server was sent.\<close>

definition sample_sent :: server_impl where
  "sample_sent = post (Io_sent Success 3 4) (sample_bound\<lparr>sending := []\<rparr>)"

lemma sample_sent_reachable: "server_reachable of_little_endian sample_sent"
proof -
  have "base_step of_little_endian sample_bound (post (Io_sent Success (of_nat 3) 4) (sample_bound\<lparr>sending := [] @ []\<rparr>))"
    using base_step.sends [of sample_bound "[]" 4 "[1, 7, 8]" None "[]" 3 of_little_endian Success]
    by simp
  then have "server_step of_little_endian sample_bound sample_sent"
    by (simp add: sample_sent_def server_step.base)
  with sample_bound_reachable show ?thesis by (rule server_reachable.step)
qed

lemma sample_sent_step:
  "base_step dec sample_sent (handle_send Success 3 4 (sample_bound\<lparr>sending := []\<rparr>))"
  by (rule base_step.handler [of _ "Io_sent Success 3 4"])
    (simp_all add: sample_sent_def next_handler_def post_def)

theorem entries_leave_complete_witness:
  "sender_inv sample_sent \<and> send_entries sample_sent = [4] \<and>
   send_entries (handle_send Success 3 4 (sample_bound\<lparr>sending := []\<rparr>)) = [] \<and>
   called (handle_send Success 3 4 (sample_bound\<lparr>sending := []\<rparr>)) = called sample_sent @ [5]"
proof -
  let ?t = "handle_send Success 3 4 (sample_bound\<lparr>sending := []\<rparr>)"
  have inv: "sender_inv sample_sent"
    using server_reachable_inv [OF sample_sent_reachable] by (simp add: server_inv_def)
  have fields: "send_entries ?t = []" "processed (entry_store ?t 4) = Some 5"
    by (simp_all add: handle_send_def Let_def finish_send_def update_entry_def transfer_complete_def
        sample_store_def send_entry_vector_def vec_size_def impl_simps pop_front_send_entry_def
        await_send_entry_def live_def)
  have "send_entries sample_sent = [4]" by (simp add: sample_sent_def post_def)
  with entries_leave_complete [OF inv sample_sent_step] fields inv show ?thesis
    by (auto simp: callback_of_def)
qed

text \<open>
  C4. Over any run, entries leave the queue in the order in which they entered it, and the callbacks that
  are called are those of the entries that left, each once and in the same order, as they were when the
  entries were sent.
\<close>

theorem entries_keep_order:
  assumes "base_steps dec s t" and "sender_inv s"
  shows "\<exists>n cs. n \<le> length (queue_calls s @ cs) \<and> queue_calls t = drop n (queue_calls s @ cs) \<and>
    called t = called s @ concat (map snd (take n (queue_calls s @ cs)))"
  using assms by (rule base_steps_calls)

theorem entries_keep_order_witness:
  "\<exists>n cs. n \<le> length (queue_calls sample_sent @ cs) \<and>
     queue_calls (handle_send Success 3 4 (sample_bound\<lparr>sending := []\<rparr>)) = drop n (queue_calls sample_sent @ cs) \<and>
     called (handle_send Success 3 4 (sample_bound\<lparr>sending := []\<rparr>)) =
       called sample_sent @ concat (map snd (take n (queue_calls sample_sent @ cs)))"
proof (rule entries_keep_order)
  show "base_steps of_little_endian sample_sent (handle_send Success 3 4 (sample_bound\<lparr>sending := []\<rparr>))"
    by (rule base_steps.more [OF base_steps.none sample_sent_step])
  show "sender_inv sample_sent"
    using server_reachable_inv [OF sample_sent_reachable] by (simp add: server_inv_def)
qed



section \<open>Transfers and errors\<close>

text \<open>
  Partial transfers: after acknowledgements that each are within what was left, an entry is
  complete exactly when they add up to its length, and otherwise the rest is left to be sent.
\<close>

lemma complete_when_all_acknowledged:
  assumes "entry_wf e" and "sum_list ns \<le> length (make_buffer e)"
  shows "(transfer_complete (fold acknowledge ns e) \<longleftrightarrow> sum_list ns = length (make_buffer e)) \<and>
    make_buffer (fold acknowledge ns e) = drop (sum_list ns) (make_buffer e)"
  using entry.complete_after_all [OF assms] entry.advance_all [OF assms] by simp

text \<open>
  C13. An entry that meets only \<open>no_buffer_space\<close> is given up after exactly 11 errors when nothing of
  it was transferred, after 101 otherwise.
\<close>

lemma no_buffer_space_rounds:
  "entry_store ((handle_no_buffer_space r ^^ k) s) r = (no_buffer_space_round ^^ k) (entry_store s r)"
  by (induction k) (simp_all add: handle_no_buffer_space_entry)

theorem no_buffer_space_gives_up:
  assumes "no_buffer_space_error_count (entry_store s r) = 0" and "\<not> transfer_complete (entry_store s r)"
  shows "transfer_complete (entry_store ((handle_no_buffer_space r ^^ k) s) r) \<longleftrightarrow>
    (if bytes_transferred (entry_store s r) = 0 then 11 else 101) \<le> k"
  using rounds_complete_iff [OF assms] by (simp add: no_buffer_space_rounds give_up_limit_def)

theorem no_buffer_space_gives_up_witness:
  "transfer_complete (entry_store ((handle_no_buffer_space 4 ^^ 11) sample_bound) 4) \<and>
   \<not> transfer_complete (entry_store ((handle_no_buffer_space 4 ^^ 10) sample_bound) 4)"
  using no_buffer_space_gives_up [of sample_bound 4 11] no_buffer_space_gives_up [of sample_bound 4 10]
  by (simp add: sample_store_def send_entry_vector_def transfer_complete_def vec_size_def)

text \<open>What the end of \<open>handle_send\<close> does with a complete entry.\<close>

lemma finish_complete:
  assumes "transfer_complete (entry_store u r)" and "at_front r u"
  shows "send_entries (finish_send r d u) = tl (send_entries u)"
    and "entry_store (finish_send r d u) = entry_store u"
    and "dispatched (finish_send r d u) = dispatched u @ map Processed (callback_of (entry_store u r))"
proof -
  from assms(2) obtain rs where rs: "send_entries u = r # rs"
    by (cases "send_entries u") (auto simp: at_front_def)
  have "dispatched (await_send_entry d v) = dispatched v" for v :: "'a base_impl_scheme"
    by (simp add: await_send_entry_def impl_simps start_send_def split: option.splits)
  with assms(1) rs show "send_entries (finish_send r d u) = tl (send_entries u)"
    "entry_store (finish_send r d u) = entry_store u"
    "dispatched (finish_send r d u) = dispatched u @ map Processed (callback_of (entry_store u r))"
    using keeps_queue_await [of "pop_front_send_entry u" d]
    by (auto simp: finish_send_def pop_front_send_entry_def keeps_queue_def callback_of_def
        dispatch_task_def split: option.splits)
qed

text \<open>
  C14. The errors of a send.  A message that is too large is dropped and reported; any other error
  (but \<open>no_buffer_space\<close>) drops the entry of a server without a report, and makes a client report,
  close, and keep the queue.
\<close>

theorem send_errors:
  assumes "at_front r s" and "is_error ec" and "ec \<noteq> No_buffer_space" and "t = handle_send ec n r s"
  shows "if ec = Message_size \<or> impl_mode s = Server
    then transfer_complete (entry_store t r) \<and> send_entries t = tl (send_entries s) \<and>
      dispatched t = dispatched s @ (if ec = Message_size then [Error_occurred ec] else [])
        @ map Processed (callback_of (entry_store s r))
    else dispatched t = dispatched s @ [Error_occurred ec] \<and> Io_close \<in> set (io_ready t) \<and>
      send_entries t = send_entries s \<and> sending t = sending s"
proof -
  let ?s1 = "deadline_expires_at pos_infin (update_entry r (add_bytes_transferred n) s)"
  let ?u = "update_entry r drop_entry ?s1"
  have u: "transfer_complete (entry_store ?u r)" "at_front r ?u" "impl_mode ?s1 = impl_mode s"
    "send_entries ?u = send_entries s" "dispatched ?u = dispatched s"
    "callback_of (entry_store ?u r) = callback_of (entry_store s r)"
    using assms(1) by (simp_all add: update_entry_def drop_entry_def at_front_def impl_simps callback_of_def)
  have v: "transfer_complete (entry_store (dispatch_task m ?u) r)" "at_front r (dispatch_task m ?u)" for m
    using u(1,2) by (simp_all add: dispatch_task_def at_front_def)
  note drop = finish_complete [OF u(1,2)] and report = finish_complete [OF v]
  show ?thesis
  proof (cases "ec = Message_size \<or> impl_mode s = Server")
    case True
    then have "t = finish_send r None
        (if ec = Message_size then dispatch_task (Error_occurred ec) ?u else ?u)"
      using assms(2-4) u(3) by (auto simp: handle_send_def Let_def)
    with True u drop report show ?thesis by (simp add: dispatch_task_def)
  next
    case False
    then have "t = async_close (dispatch_task (Error_occurred ec) ?s1)"
      using assms(2-4) u(3) by (simp add: handle_send_def Let_def)
    with False show ?thesis
      by (simp add: async_close_def post_def dispatch_task_def update_entry_def impl_simps)
  qed
qed

theorem send_errors_witness:
  "send_entries (handle_send (Other_error 2) 0 4 (sample_bound\<lparr>sending := []\<rparr>)) = [] \<and>
   transfer_complete (entry_store (handle_send (Other_error 2) 0 4 (sample_bound\<lparr>sending := []\<rparr>)) 4)"
  using send_errors [of 4 "sample_bound\<lparr>sending := []\<rparr>" "Other_error 2" _ 0, OF _ _ _ refl]
  by (simp add: at_front_def)

text \<open>
  The send deadline of a client: starting to send sets it 5 seconds ahead, and the check that
  runs later closes the socket exactly when more than 5 seconds have passed.
\<close>

lemma send_deadline_closes:
  assumes "live s" and "send_entries s \<noteq> []" and "Io_close \<notin> set (io_ready s)"
    and "t = await_send_entry None s"
  shows "Io_close \<in> set (io_ready (check_send_deadline (t\<lparr>steady_clock := steady_clock s + d\<rparr>)))
    \<longleftrightarrow> 5000 < d"
  using assms by (auto simp: await_send_entry_def check_send_deadline_def impl_simps start_send_def
      live_def async_close_def clock_now_def)

end
