(* ===== verification/Heartbeat_Timers.thy ===== *)
theory Heartbeat_Timers
  imports Endpoint Debounced_Task
begin

text \<open>
  The heartbeat timers of \<open>base_impl\<close>: what the dispatcher's thread does with the heartbeats that
  \<open>async_receive\<close> reports (\<open>impl/base_impl.hpp\<close>, the lambdas given to \<open>enqueue_to_dispatcher\<close>), and
  \<open>impl/next_heartbeat_deadline_timer.hpp\<close>.  Each sender endpoint with a deadline has a timer, an
  object of its own in the dispatcher with a debounced task.  The connection's generation, which
  the io context's thread counts up, is shared (\<open>std::atomic\<close>).
\<close>

section \<open>State\<close>

text \<open>
  The functions in the dispatcher's queue: a heartbeat with the generation it was received in, a
  closure of the debounced task of a timer (named by the timer's object id), and the one
  \<open>async_close\<close> enqueues.
\<close>

datatype hb_fun =
    Hb_received u64 millis endpoint
  | Hb_timer u64 "unit debounce_fun"
  | Hb_closed

text \<open>\<open>slot_generation\<close> is the generation the slot of the timer's signal captured.\<close>

record hb_timer =
  timer_oid :: u64
  timer_endpoint :: endpoint
  timer_task :: debounced_task
  slot_generation :: u64

text \<open>
  \<open>exceeded_signals\<close> and \<open>closed_signals\<close> record the signals emitted.
\<close>

record heartbeat_timers =
  hb_owner :: u64
  hb_generation :: u64
  hb_timers :: "hb_timer list"
  hb_disp :: "hb_fun weak_dispatcher"
  exceeded_signals :: "endpoint list"
  closed_signals :: nat

section \<open>One timer\<close>

text \<open>\<open>next_heartbeat_deadline_timer::set_timer\<close>.\<close>

definition set_timer ::
    "millis option \<Rightarrow> millis \<Rightarrow> u64 \<Rightarrow> hb_fun weak_dispatcher \<Rightarrow> hb_fun weak_dispatcher" where
  "set_timer src deadline oid w = snd (debounce_after (Hb_timer oid) oid src () deadline w)"

text \<open>The constructor attaches the new object and sets the timer; the destructor detaches.\<close>

definition new_timer ::
    "millis option \<Rightarrow> u64 \<Rightarrow> endpoint \<Rightarrow> millis \<Rightarrow> u64 \<Rightarrow> hb_fun weak_dispatcher
      \<Rightarrow> hb_timer \<times> hb_fun weak_dispatcher" where
  "new_timer src oid ep deadline g w =
     (\<lparr>timer_oid = oid, timer_endpoint = ep, timer_task = initial_debounced_task,
       slot_generation = g\<rparr>,
      set_timer src deadline oid (client_attach oid w))"

definition destroy_timers :: "hb_timer list \<Rightarrow> hb_fun weak_dispatcher \<Rightarrow> hb_fun weak_dispatcher" where
  "destroy_timers ts w = fold (\<lambda>t. detach_from_dispatcher (timer_oid t)) ts w"

section \<open>The timers\<close>

text \<open>
  The lambda of a received heartbeat; \<open>new\<close> is the id \<open>make_new_object_id\<close> returns if a timer is
  created.
\<close>

definition heartbeat_received ::
    "millis option \<Rightarrow> u64 \<Rightarrow> u64 \<Rightarrow> millis \<Rightarrow> endpoint \<Rightarrow> heartbeat_timers \<Rightarrow> heartbeat_timers" where
  "heartbeat_received src new g deadline ep st =
     (if g \<noteq> hb_generation st then st
      else (case find (\<lambda>t. timer_endpoint t = ep) (hb_timers st) of
              None \<Rightarrow>
                (case new_timer src new ep deadline g (hb_disp st) of
                   (t, w) \<Rightarrow> st\<lparr>hb_timers := hb_timers st @ [t], hb_disp := w\<rparr>)
            | Some t \<Rightarrow> st\<lparr>hb_disp := set_timer src deadline (timer_oid t) (hb_disp st)\<rparr>))"

text \<open>The slot connected to a timer's signal.\<close>

definition timer_exceeded :: "hb_timer \<Rightarrow> heartbeat_timers \<Rightarrow> heartbeat_timers" where
  "timer_exceeded t st =
     (if slot_generation t \<noteq> hb_generation st then st
      else
        let st' = st\<lparr>exceeded_signals := exceeded_signals st @ [timer_endpoint t]\<rparr>;
            gone = filter (\<lambda>u. timer_endpoint u = timer_endpoint t) (hb_timers st')
        in st'\<lparr>hb_timers := filter (\<lambda>u. timer_endpoint u \<noteq> timer_endpoint t) (hb_timers st'),
               hb_disp := destroy_timers gone (hb_disp st')\<rparr>)"

definition update_task :: "u64 \<Rightarrow> debounced_task \<Rightarrow> hb_timer list \<Rightarrow> hb_timer list" where
  "update_task oid k = map (\<lambda>t. if timer_oid t = oid then t\<lparr>timer_task := k\<rparr> else t)"

text \<open>
  A closure of the task of a timer.  A closure whose timer is gone would run on a destroyed object;
  the invariant below excludes it.
\<close>

definition run_timer_closure :: "u64 \<Rightarrow> unit debounce_fun \<Rightarrow> heartbeat_timers \<Rightarrow> heartbeat_timers" where
  "run_timer_closure oid f st =
     (case find (\<lambda>t. timer_oid t = oid) (hb_timers st) of
        None \<Rightarrow> st
      | Some t \<Rightarrow>
          (case run_debounce (Hb_timer oid) oid f (timer_task t, hb_disp st) of
             (called, (k, w)) \<Rightarrow>
               let st' = st\<lparr>hb_timers := update_task oid k (hb_timers st), hb_disp := w\<rparr>
               in if called = None then st' else timer_exceeded t st'))"

definition close_timers :: "heartbeat_timers \<Rightarrow> heartbeat_timers" where
  "close_timers st =
     st\<lparr>hb_timers := [], hb_disp := destroy_timers (hb_timers st) (hb_disp st),
        closed_signals := closed_signals st + 1\<rparr>"

fun run_hb :: "millis option \<Rightarrow> u64 \<Rightarrow> hb_fun \<Rightarrow> heartbeat_timers \<Rightarrow> heartbeat_timers" where
  "run_hb src new (Hb_received g deadline ep) st = heartbeat_received src new g deadline ep st"
| "run_hb src new (Hb_timer oid f) st = run_timer_closure oid f st"
| "run_hb src new Hb_closed st = close_timers st"

section \<open>Steps\<close>

text \<open>
  The worker of the dispatcher runs a function or skips that of a detached object; the io context's
  thread reports heartbeats, counts the generation up and reports the close.
\<close>

definition fresh_oid :: "u64 \<Rightarrow> heartbeat_timers \<Rightarrow> bool" where
  "fresh_oid oid st \<longleftrightarrow> oid \<noteq> hb_owner st \<and> (\<forall>t \<in> set (hb_timers st). timer_oid t \<noteq> oid) \<and>
     \<not> client_attached oid (hb_disp st)"

inductive hb_step :: "heartbeat_timers \<Rightarrow> heartbeat_timers \<Rightarrow> bool" where
  runs: "hb_disp st = Some d \<Longrightarrow> worker_take src d = (Worker_run e, d') \<Longrightarrow>
    call_function e d' = Some f \<Longrightarrow> fresh_oid new st \<Longrightarrow>
    hb_step st (run_hb src new f (st\<lparr>hb_disp := Some d'\<rparr>))"
| skips: "hb_disp st = Some d \<Longrightarrow> worker_take src d = (Worker_run e, d') \<Longrightarrow>
    call_function e d' = None \<Longrightarrow> hb_step st (st\<lparr>hb_disp := Some d'\<rparr>)"
| reports: "f = Hb_closed \<or> (\<exists>deadline ep. f = Hb_received (hb_generation st) deadline ep) \<Longrightarrow>
    hb_step st (st\<lparr>hb_disp := snd (enqueue_to_dispatcher (hb_owner st) f when_immediately (hb_disp st))\<rparr>)"
| next_generation: "hb_step st (st\<lparr>hb_generation := hb_generation st + 1\<rparr>)"
| dispatcher_gone: "hb_step st (st\<lparr>hb_disp := None\<rparr>)"

inductive hb_reachable :: "heartbeat_timers \<Rightarrow> bool" where
  start: "owner \<noteq> own \<Longrightarrow> hb_reachable
    \<lparr>hb_owner = owner, hb_generation = 0, hb_timers = [],
     hb_disp = client_attach owner (Some (initial_dispatcher own)),
     exceeded_signals = [], closed_signals = 0\<rparr>"
| step: "hb_reachable st \<Longrightarrow> hb_step st st' \<Longrightarrow> hb_reachable st'"

section \<open>The invariant\<close>

text \<open>
  Every function in the queue belongs to an attached object, and every closure of a timer to a timer
  that exists; timers are distinct objects of distinct endpoints.
\<close>

fun owned_by :: "u64 \<Rightarrow> u64 set \<Rightarrow> hb_fun \<Rightarrow> u64 \<Rightarrow> bool" where
  "owned_by owner oids (Hb_timer oid f) x = (x = oid \<and> oid \<in> oids)"
| "owned_by owner oids f x = (x = owner)"

definition queue_owned :: "u64 \<Rightarrow> u64 set \<Rightarrow> hb_fun weak_dispatcher \<Rightarrow> bool" where
  "queue_owned owner oids w \<longleftrightarrow>
     (\<forall>e \<in> set (queued w). client_attached (object_id_value e) w \<and>
        owned_by owner oids (entry_function e) (object_id_value e))"

definition hb_inv :: "heartbeat_timers \<Rightarrow> bool" where
  "hb_inv st \<longleftrightarrow>
     distinct (map timer_endpoint (hb_timers st)) \<and> distinct (map timer_oid (hb_timers st)) \<and>
     hb_owner st \<notin> timer_oid ` set (hb_timers st) \<and>
     queue_owned (hb_owner st) (timer_oid ` set (hb_timers st)) (hb_disp st)"

lemma owned_by_mono: "owned_by owner oids f x \<Longrightarrow> oids \<subseteq> oids' \<Longrightarrow> owned_by owner oids' f x"
  by (cases f) auto

lemma queued_attach [simp]: "queued (client_attach oid w) = queued w"
  by (simp add: queued_def client_attach_def attach_def split: option.splits)

lemma attached_attach: "client_attached x w \<Longrightarrow> client_attached x (client_attach oid w)"
  by (cases w) (simp_all add: client_attached_def client_attach_def attach_def attached_def)

lemma attached_enqueue [simp]:
  "client_attached x (snd (enqueue_to_dispatcher oid f t w)) = client_attached x w"
  by (cases w) (simp_all add: client_attached_def enqueue_to_dispatcher_def attached_def enqueue_def Let_def)

lemma enqueue_needs_attached: "fst (enqueue_to_dispatcher oid f t w) \<Longrightarrow> client_attached oid w"
  by (cases w) (simp_all add: client_attached_def enqueue_to_dispatcher_def attached_def
      enqueue_def Let_def split: if_splits)

lemma queue_owned_attach:
  "queue_owned owner oids w \<Longrightarrow> oids \<subseteq> oids' \<Longrightarrow> queue_owned owner oids' (client_attach oid w)"
  by (auto simp: queue_owned_def attached_attach intro: owned_by_mono)

lemma queue_owned_enqueue:
  assumes "queue_owned owner oids w" and "owned_by owner oids f oid"
  shows "queue_owned owner oids (snd (enqueue_to_dispatcher oid f t w))"
  using assms enqueue_needs_attached [of oid f t w]
  by (auto simp: queue_owned_def queued_enqueue_set)

lemma queue_owned_set_timer:
  "queue_owned owner oids w \<Longrightarrow> oid \<in> oids \<Longrightarrow> queue_owned owner oids (set_timer src deadline oid w)"
  by (simp add: set_timer_def debounce_after_def debounce_at_def queue_owned_enqueue)

lemma attached_detach [simp]:
  "client_attached x (detach_from_dispatcher oid w) \<longleftrightarrow> client_attached x w \<and> x \<noteq> oid"
  by (cases w) (auto simp: client_attached_def detach_from_dispatcher_def attached_def detach_def)

lemma queued_detach:
  assumes "\<forall>e \<in> set (queued w). client_attached (object_id_value e) w"
  shows "queued (detach_from_dispatcher oid w) = filter (\<lambda>e. object_id_value e \<noteq> oid) (queued w)"
proof (cases "client_attached oid w")
  case True
  then show ?thesis
    by (cases w) (simp_all add: queued_def detach_from_dispatcher_def detach_def client_attached_def
        attached_def)
next
  case False
  with assms have "\<forall>e \<in> set (queued w). object_id_value e \<noteq> oid" by auto
  then have "filter (\<lambda>e. object_id_value e \<noteq> oid) (queued w) = queued w" by simp
  with False show ?thesis
    by (cases w) (simp_all add: queued_def detach_from_dispatcher_def detach_def client_attached_def
        attached_def)
qed

lemma queue_owned_detach:
  assumes "queue_owned owner oids w" and "oid \<noteq> owner"
  shows "queue_owned owner (oids - {oid}) (detach_from_dispatcher oid w)"
proof -
  have "queued (detach_from_dispatcher oid w) = filter (\<lambda>e. object_id_value e \<noteq> oid) (queued w)"
    using assms(1) by (intro queued_detach) (auto simp: queue_owned_def)
  moreover have "owned_by owner (oids - {oid}) f x" if "owned_by owner oids f x" "x \<noteq> oid" for f x
    using that by (cases f) auto
  ultimately show ?thesis
    using assms(1) by (auto simp: queue_owned_def)
qed

lemma queue_owned_destroy:
  "queue_owned owner oids w \<Longrightarrow> owner \<notin> timer_oid ` set gone \<Longrightarrow>
   queue_owned owner (oids - timer_oid ` set gone) (destroy_timers gone w)"
proof (induction gone arbitrary: oids w)
  case Nil
  then show ?case by (simp add: destroy_timers_def)
next
  case (Cons t gone)
  have "queue_owned owner (oids - {timer_oid t}) (detach_from_dispatcher (timer_oid t) w)"
    using Cons.prems by (intro queue_owned_detach) auto
  moreover have "oids - {timer_oid t} - timer_oid ` set gone = oids - timer_oid ` set (t # gone)"
    by auto
  ultimately show ?case
    using Cons.IH [of "oids - {timer_oid t}"] Cons.prems(2) by (simp add: destroy_timers_def)
qed

lemma timer_oid_update [simp]: "map timer_oid (update_task oid k ts) = map timer_oid ts"
  "map timer_endpoint (update_task oid k ts) = map timer_endpoint ts"
  by (induction ts) (simp_all add: update_task_def)

lemma timer_oid_image_update [simp]: "timer_oid ` set (update_task oid k ts) = timer_oid ` set ts"
  using timer_oid_update(1) [of oid k ts] by (metis list.set_map)

lemma queue_owned_run_debounce:
  assumes "queue_owned owner oids w" and "oid \<in> oids"
    and "run_debounce (Hb_timer oid) oid f (k, w) = (c, (k', w'))"
  shows "queue_owned owner oids w'"
proof (cases f)
  case (Debounce_in_dispatcher g "when")
  let ?e = "enqueue_to_dispatcher oid (Hb_timer oid (Debounce_fire g (task_generation k + 1))) when w"
  have "w' = snd ?e"
    using assms(3) Debounce_in_dispatcher
    by (auto simp: debounce_in_dispatcher_def Let_def split: prod.splits bool.splits)
  with assms(1,2) show ?thesis by (simp add: queue_owned_enqueue)
qed (use assms in auto)

section \<open>Preservation\<close>

lemma hb_inv_received:
  assumes inv: "hb_inv st" and fresh: "fresh_oid new st"
  shows "hb_inv (heartbeat_received src new g deadline ep st)"
proof (cases "find (\<lambda>t. timer_endpoint t = ep) (hb_timers st)")
  case None
  then have ep: "ep \<notin> timer_endpoint ` set (hb_timers st)"
    by (auto simp: find_None_iff)
  let ?t = "\<lparr>timer_oid = new, timer_endpoint = ep, timer_task = initial_debounced_task,
    slot_generation = g\<rparr>"
  have "queue_owned (hb_owner st) (timer_oid ` set (hb_timers st @ [?t])) (client_attach new (hb_disp st))"
    using inv by (auto simp: hb_inv_def intro: queue_owned_attach)
  then have "queue_owned (hb_owner st) (timer_oid ` set (hb_timers st @ [?t]))
      (set_timer src deadline new (client_attach new (hb_disp st)))"
    by (rule queue_owned_set_timer) simp
  with None inv fresh ep show ?thesis
    by (auto simp: heartbeat_received_def new_timer_def hb_inv_def fresh_oid_def)
next
  case (Some t)
  then have "timer_oid t \<in> timer_oid ` set (hb_timers st)"
    by (auto simp: find_Some_iff)
  with Some inv show ?thesis
    by (auto simp: heartbeat_received_def hb_inv_def intro: queue_owned_set_timer)
qed

lemma hb_inv_exceeded:
  assumes inv: "hb_inv st" and t: "timer_oid t \<in> timer_oid ` set (hb_timers st)"
  shows "hb_inv (timer_exceeded t st)"
proof (cases "slot_generation t = hb_generation st")
  case False
  with inv show ?thesis by (simp add: timer_exceeded_def)
next
  case True
  let ?gone = "filter (\<lambda>u. timer_endpoint u = timer_endpoint t) (hb_timers st)"
  let ?rest = "filter (\<lambda>u. timer_endpoint u \<noteq> timer_endpoint t) (hb_timers st)"
  have "distinct (map timer_oid (hb_timers st))" using inv by (simp add: hb_inv_def)
  then have inj: "inj_on timer_oid (set (hb_timers st))" by (simp add: distinct_map)
  have "timer_oid ` set (hb_timers st) - timer_oid ` set ?gone = timer_oid ` set ?rest"
    using inj by (auto dest: inj_onD)
  then have "queue_owned (hb_owner st) (timer_oid ` set ?rest) (destroy_timers ?gone (hb_disp st))"
    using queue_owned_destroy [of "hb_owner st" "timer_oid ` set (hb_timers st)" "hb_disp st" ?gone] inv
    by (auto simp: hb_inv_def)
  with True inv show ?thesis
    by (auto simp: timer_exceeded_def hb_inv_def Let_def distinct_map_filter)
qed

lemma hb_inv_closure:
  assumes inv: "hb_inv st"
  shows "hb_inv (run_timer_closure oid f st)"
proof (cases "find (\<lambda>t. timer_oid t = oid) (hb_timers st)")
  case None
  with inv show ?thesis by (simp add: run_timer_closure_def)
next
  case (Some t)
  then have oid: "timer_oid t = oid" "oid \<in> timer_oid ` set (hb_timers st)"
    by (auto simp: find_Some_iff)
  obtain c k w where run: "run_debounce (Hb_timer oid) oid f (timer_task t, hb_disp st) = (c, (k, w))"
    by (metis prod_cases3)
  let ?st = "st\<lparr>hb_timers := update_task oid k (hb_timers st), hb_disp := w\<rparr>"
  have "queue_owned (hb_owner st) (timer_oid ` set (hb_timers st)) w"
    using inv by (intro queue_owned_run_debounce [OF _ oid(2) run]) (simp add: hb_inv_def)
  then have "hb_inv ?st" using inv by (simp add: hb_inv_def)
  with Some run oid hb_inv_exceeded [of ?st t] show ?thesis
    by (simp add: run_timer_closure_def Let_def)
qed

lemma hb_inv_close: "hb_inv st \<Longrightarrow> hb_inv (close_timers st)"
  using queue_owned_destroy [of "hb_owner st" "timer_oid ` set (hb_timers st)" "hb_disp st" "hb_timers st"]
  by (auto simp: hb_inv_def close_timers_def)

lemma hb_inv_take:
  assumes inv: "hb_inv st" and d: "hb_disp st = Some d" and take: "worker_take src d = (Worker_run e, d')"
  shows "hb_inv (st\<lparr>hb_disp := Some d'\<rparr>)"
proof -
  from take have q: "queue d = e # queue d'" and d': "d' = d\<lparr>queue := queue d'\<rparr>"
    by (simp_all add: worker_take_run)
  have "object_ids d' = object_ids d" by (subst d') simp
  with inv d q show ?thesis
    by (auto simp: hb_inv_def queue_owned_def queued_def client_attached_def attached_def)
qed

lemma fresh_oid_take:
  assumes "fresh_oid new st" and "hb_disp st = Some d" and "worker_take src d = (Worker_run e, d')"
  shows "fresh_oid new (st\<lparr>hb_disp := Some d'\<rparr>)"
proof -
  have "d' = d\<lparr>queue := queue d'\<rparr>" using assms(3) by (simp add: worker_take_run)
  then have "object_ids d' = object_ids d" by (metis dispatcher.select_convs(4) dispatcher.surjective
      dispatcher.update_convs(1))
  with assms(1,2) show ?thesis by (simp add: fresh_oid_def client_attached_def attached_def)
qed

lemma run_hb_inv: "hb_inv st \<Longrightarrow> fresh_oid new st \<Longrightarrow> hb_inv (run_hb src new f st)"
  by (cases f) (simp_all add: hb_inv_received hb_inv_closure hb_inv_close)

lemma hb_step_inv: "hb_step st st' \<Longrightarrow> hb_inv st \<Longrightarrow> hb_inv st'"
proof (induction rule: hb_step.induct)
  case (runs st d src e d' f new)
  then show ?case by (blast intro: run_hb_inv hb_inv_take fresh_oid_take)
next
  case (skips st d src e d')
  then show ?case by (blast intro: hb_inv_take)
next
  case (reports f st)
  then show ?case by (auto simp: hb_inv_def intro: queue_owned_enqueue)
qed (simp_all add: hb_inv_def queue_owned_def queued_def)

lemma hb_inv_start:
  "owner \<noteq> own \<Longrightarrow> hb_inv
    \<lparr>hb_owner = owner, hb_generation = 0, hb_timers = [],
     hb_disp = client_attach owner (Some (initial_dispatcher own)),
     exceeded_signals = [], closed_signals = 0\<rparr>"
  by (simp add: hb_inv_def queue_owned_def) (simp add: queued_def initial_dispatcher_def attach_def)

lemma hb_reachable_inv: "hb_reachable st \<Longrightarrow> hb_inv st"
  by (induction rule: hb_reachable.induct) (blast intro: hb_inv_start hb_step_inv)+

section \<open>What the timers do\<close>

text \<open>No closure of a destroyed timer is in the queue.\<close>

lemma closure_has_timer:
  assumes "hb_inv st" and "e \<in> set (queued (hb_disp st))" and "entry_function e = Hb_timer oid f"
  shows "\<exists>t \<in> set (hb_timers st). timer_oid t = oid"
  using assms by (fastforce simp: hb_inv_def queue_owned_def)

lemma find_timer:
  assumes "hb_inv st" and "t \<in> set (hb_timers st)"
  shows "find (\<lambda>u. timer_oid u = timer_oid t) (hb_timers st) = Some t"
proof -
  have "find P ts = Some t" if "distinct (map timer_oid ts)" "t \<in> set ts"
    and "P = (\<lambda>u. timer_oid u = timer_oid t)" for P ts
    using that by (induction ts) auto
  with assms show ?thesis by (auto simp: hb_inv_def)
qed

text \<open>The armed call of a timer of the present connection signals, and the timer is destroyed.\<close>

lemma fire_signals:
  assumes "hb_inv st" and "t \<in> set (hb_timers st)" and "slot_generation t = hb_generation st"
  shows "exceeded_signals (run_timer_closure (timer_oid t)
      (Debounce_fire () (task_generation (timer_task t))) st) = exceeded_signals st @ [timer_endpoint t]"
    and "timer_endpoint t \<notin> timer_endpoint ` set (hb_timers (run_timer_closure (timer_oid t)
      (Debounce_fire () (task_generation (timer_task t))) st))"
  using find_timer [OF assms(1,2)] assms(3)
  by (auto simp: run_timer_closure_def timer_exceeded_def Let_def)

text \<open>The task of a timer after a closure of that timer that does not destroy it.\<close>

lemma find_updated:
  "find (\<lambda>u. timer_oid u = oid) ts = Some t \<Longrightarrow>
   find (\<lambda>u. timer_oid u = oid) (update_task oid k ts) = Some (t\<lparr>timer_task := k\<rparr>)"
  by (induction ts) (auto simp: update_task_def)

text \<open>A later request of the same timer makes the armed call inert: the deadline starts afresh.\<close>

lemma rearm_postpones:
  assumes "hb_inv st" and "t \<in> set (hb_timers st)"
    and "st' = run_timer_closure (timer_oid t) (Debounce_in_dispatcher () when) st"
  shows "exceeded_signals (run_timer_closure (timer_oid t)
      (Debounce_fire () (task_generation (timer_task t))) st') = exceeded_signals st"
proof -
  let ?oid = "timer_oid t"
  note find = find_timer [OF assms(1,2)]
  obtain k w where run: "run_debounce (Hb_timer ?oid) ?oid (Debounce_in_dispatcher () when)
      (timer_task t, hb_disp st) = (None, (k, w))"
    by (metis prod.collapse run_debounce.simps(1))
  have k: "task_generation k \<noteq> task_generation (timer_task t)"
    using run by (auto simp: debounce_in_dispatcher_def Let_def split: prod.splits bool.splits)
  have st': "st' = st\<lparr>hb_timers := update_task ?oid k (hb_timers st), hb_disp := w\<rparr>"
    using run find by (simp add: assms(3) run_timer_closure_def Let_def)
  then have "find (\<lambda>u. timer_oid u = ?oid) (hb_timers st') = Some (t\<lparr>timer_task := k\<rparr>)"
    using find by (simp add: find_updated)
  then show ?thesis
    using k by (simp add: run_timer_closure_def st' Let_def)
qed

text \<open>A timer whose slot captured an earlier generation never signals.\<close>

lemma stale_timer_silent:
  assumes "hb_inv st" and "t \<in> set (hb_timers st)" and "slot_generation t \<noteq> hb_generation st"
  shows "exceeded_signals (run_timer_closure (timer_oid t) f st) = exceeded_signals st"
    and "timer_endpoint t \<in> timer_endpoint ` set (hb_timers (run_timer_closure (timer_oid t) f st))"
proof -
  obtain c k w where run: "run_debounce (Hb_timer (timer_oid t)) (timer_oid t) f
      (timer_task t, hb_disp st) = (c, (k, w))"
    by (metis prod_cases3)
  have "timer_endpoint ` set (update_task oid k ts) = timer_endpoint ` set ts" for oid ts
    by (metis list.set_map timer_oid_update(2))
  with find_timer [OF assms(1,2)] assms(2,3) run
  show "exceeded_signals (run_timer_closure (timer_oid t) f st) = exceeded_signals st"
    and "timer_endpoint t \<in> timer_endpoint ` set (hb_timers (run_timer_closure (timer_oid t) f st))"
    by (auto simp: run_timer_closure_def timer_exceeded_def Let_def)
qed

text \<open>A heartbeat of the present connection leaves exactly one timer for its endpoint.\<close>

lemma heartbeat_has_timer:
  assumes "hb_inv st" and "fresh_oid new st"
  shows "\<exists>!t. t \<in> set (hb_timers (heartbeat_received src new (hb_generation st) deadline ep st)) \<and>
    timer_endpoint t = ep"
proof -
  let ?st = "heartbeat_received src new (hb_generation st) deadline ep st"
  have d: "distinct (map timer_endpoint (hb_timers ?st))"
    using hb_inv_received [OF assms] by (simp add: hb_inv_def)
  have "\<exists>t \<in> set (hb_timers ?st). timer_endpoint t = ep"
    by (auto simp: heartbeat_received_def new_timer_def find_Some_iff split: option.splits)
  with d show ?thesis by (auto simp: distinct_map dest: inj_onD)
qed

end
