(* ===== verification/Impl_Properties.thy ===== *)
theory Impl_Properties
  imports Impl_Shutdown Sender_Properties Heartbeat_Timers
begin

text \<open>
  The properties of opening up, receiving, heartbeats and shutdown of the socket implementations.
\<close>

section \<open>Shutdown\<close>

text \<open>
  C7. The destructors end, whatever is queued or pending: from every reachable state of a client,
  however often its owner asked for connects, and of a server, after the close and the reset of the work guard are posted, running the handlers, with
  any answers of the system, empties the ready queue and leaves no operation pending, so that
  \<open>io_context::run\<close> returns and the thread can be joined.  An exception can end the thread
  instead only when a connect (or a bind) was still queued.
\<close>

theorem destructor_terminates:
  assumes "calling_reachable enc dec c" and "server_reachable dec' s"
  shows "(\<exists>n. thread_ended (list_ex is_connect (io_ready c))
      (run_thread (client_thread enc dec answers) 0 n (destroy_impl c))) \<and>
    (\<exists>n. thread_ended (list_ex is_bind (io_ready s))
      (run_thread (server_thread dec' answers') 0 n (destroy_impl s)))"
  using client_end.destructor_ends client_reachable_ends [OF assms(1)]
    server_end.destructor_ends server_reachable_ends [OF assms(2)] by blast

theorem destructor_terminates_witness:
  "(\<exists>n. thread_ended False
      (run_thread (client_thread little_endian_bytes of_little_endian (\<lambda>_. (sample_env, None, 0))) 0 n
        (destroy_impl sample_connected))) \<and>
   (\<exists>n. thread_ended False
      (run_thread (server_thread of_little_endian (\<lambda>_. sample_env)) 0 n (destroy_impl sample_bound)))"
  using destructor_terminates [OF calling_reachable_of [OF sample_connected_reachable] sample_bound_reachable] by simp

text \<open>
  Closing a ready socket: one \<open>closed\<close> signal, the bound socket file is removed, the generation of
  the heartbeat timers counts up, nothing stays pending, and a second close changes nothing.
\<close>

lemma close_takes_effect_once:
  assumes "live s" and "t = close_handler s"
  shows "dispatched t = dispatched s @ [Closed] \<and> impl_socket t = None \<and> \<not> socket_ready t \<and>
    timers_generation t = timers_generation s + 1 \<and> closed t \<and>
    (bound_path s \<noteq> [] \<longrightarrow> files t = files s - {bound_path s} \<and> bound_path t = []) \<and>
    close_handler t = t"
proof -
  obtain k where k: "impl_socket s = Some k" using assms(1) by (auto simp: live_def)
  note f = close_handler_fields [OF k]
  have "dispatched t = dispatched s @ [Closed] \<and> timers_generation t = timers_generation s + 1 \<and>
    (bound_path s \<noteq> [] \<longrightarrow> files t = files s - {bound_path s} \<and> bound_path t = [])"
    using assms k by (simp add: close_handler_def live_def remove_bound_path_def impl_simps)
  moreover have "close_handler t = t" using f(1) by (simp add: assms(2) close_handler_def)
  ultimately show ?thesis using f by (simp add: assms(2) closed_def)
qed

section \<open>Receiving\<close>

text \<open>
  A live receiver goes on: after any completion, with an error, an empty datagram or malformed
  bytes, exactly one more receive is started and the socket stays open.
\<close>

lemma receiver_goes_on:
  assumes "live s"
  shows "receiving (receive_handler dec ec n s) = receiving s + 1 \<and> live (receive_handler dec ec n s)"
  using receive_handler_again [OF assms] by simp

text \<open>
  C8. User data arrives as it was sent: after \<open>set_socket_options n\<close>, the datagram of an entry with a
  payload of at most \<open>n + 31\<close> bytes leads to one \<open>received\<close> signal with these bytes.
\<close>

theorem user_data_round_trip:
  assumes "set_socket_options n ok s = Inr t" and "impl_socket s \<noteq> None"
    and "unat n + 32 < 2 ^ 64" and "length v \<le> unat n + 31"
  shows "dispatched (on_datagram dec (make_buffer (send_entry_vector User_data v d cb)) ep t) =
    dispatched t @ [Received v ep]"
  using user_data_received [OF assms(1-3), of v] assms(3,4) by simp

theorem user_data_round_trip_witness:
  "\<exists>t. set_socket_options 4 True sample_bound = Inr t \<and>
     dispatched (on_datagram of_big_endian (make_buffer (send_entry_vector User_data [9, 8, 7] None None))
       (Endpoint ''e'') t) = dispatched t @ [Received [9, 8, 7] (Endpoint ''e'')]"
proof -
  have s: "impl_socket sample_bound \<noteq> None" using sample_bound_simps(1) by (simp add: live_def)
  then obtain t where "set_socket_options 4 True sample_bound = Inr t"
    by (auto simp: set_socket_options_def Let_def)
  with user_data_round_trip [OF this s] show ?thesis by auto
qed

text \<open>
  C9. A heartbeat arrives with the deadline it was sent with, reduced to 32 bits, whichever byte order
  the platform has: a deadline that reduces to zero, or no deadline, is no deadline; one from a sender
  without a socket file is warned about.
\<close>

theorem heartbeat_round_trip:
  assumes "5 \<le> length (receive_buffer s)" and "fits (receive_buffer s)"
    and "(enc, dec) = (little_endian_bytes, of_little_endian) \<or>
      (enc, dec) = (big_endian_bytes, of_big_endian)"
  shows "dispatched (on_datagram dec (make_buffer (heartbeat_entry enc d)) ep s) = dispatched s @
    (let ms = (case d of None \<Rightarrow> 0 | Some ms \<Rightarrow> ms mod 2 ^ 32) in
     if ms = 0 then []
     else if non_empty_filesystem_endpoint_path ep
       then [Heartbeat_received (timers_generation s) ms ep]
     else [Warning_reported
       ''sender endpoint is required when next_heartbeat_deadline is specified''])"
proof -
  let ?w = "heartbeat_deadline_value d"
  have ms: "uint ?w = (case d of None \<Rightarrow> 0 | Some ms \<Rightarrow> ms mod 2 ^ 32)"
    by (simp add: heartbeat_deadline_value_def uint_word_of_int split: option.splits)
  have "length (enc ?w) = 4"
    using assms(3) by (auto simp: little.length_to_bytes big.length_to_bytes)
  then have "make_buffer (heartbeat_entry enc d) = type_byte Heartbeat # enc ?w"
    by (simp add: heartbeat_entry_def make_buffer_vector)
  then show ?thesis
    unfolding ms [symmetric]
    using assms(3) little.heartbeat_dispatched [OF assms(1,2), of ?w ep]
      big.heartbeat_dispatched [OF assms(1,2), of ?w ep]
    by (auto simp: Let_def uint_0_iff)
qed

theorem heartbeat_round_trip_witness:
  "dispatched (on_datagram of_little_endian (make_buffer (heartbeat_entry little_endian_bytes (Some 3000)))
     (Endpoint ''e'') (sample_connected\<lparr>receive_buffer := replicate 40 0\<rparr>)) =
   dispatched sample_connected @
     [Heartbeat_received (timers_generation sample_connected) 3000 (Endpoint ''e'')]"
  using heartbeat_round_trip [of "sample_connected\<lparr>receive_buffer := replicate 40 0\<rparr>"
      little_endian_bytes of_little_endian "Some 3000" "Endpoint ''e''"]
  by (simp add: fits_def non_empty_filesystem_endpoint_path_iff)

section \<open>Connecting\<close>

text \<open>
  A connect without a socket has exactly one outcome: \<open>connect_failed\<close> when the socket cannot be
  opened, \<open>bind_failed\<close> when the client's path cannot be bound, and otherwise one pending connect, with
  the client's socket file bound; the socket is not ready until the connect completes.
\<close>

lemma connect_has_one_outcome:
  assumes "impl_socket s = None" and "options_accepted env" and "client_socket_file_path p = Some f"
  shows "\<exists>t. connect_handler env p s = Inr t \<and> impl_socket t \<noteq> None \<and> \<not> socket_ready t \<and>
    io_ready t = io_ready s \<and>
    (if is_error (open_result env)
     then dispatched t = dispatched s @ [Connect_failed (open_result env)] \<and> connecting t = connecting s
     else if is_error (bind_result env)
     then dispatched t = dispatched s @ [Bind_failed (bind_result env)] \<and> connecting t = connecting s
       \<and> f \<notin> files t
     else dispatched t = dispatched s \<and> connecting t = connecting s @ [p] \<and> f \<in> files t \<and>
       bound_path t = f)"
  using assms
  by (simp add: connect_handler_def set_socket_options_def Let_def remove_file_def dispatch_task_def
      start_connect_def bind_socket_def)

text \<open>
  C40. When the client's path was bound and the connect then fails, the close that follows leaves the
  socket file behind: the socket never became ready, and only a ready socket removes its file.
\<close>

theorem failed_connect_leaves_file:
  assumes "connect_handler env p s = Inr t" and "impl_socket s = None" and "is_error ec"
    and "\<not> is_error (open_result env)" and "\<not> is_error (bind_result env)"
    and "client_socket_file_path p = Some f"
  shows "f \<in> files (close_handler (connected_handler ec p pid t))"
proof -
  have "options_accepted env"
    using assms by (auto simp: connect_handler_def set_socket_options_def Let_def remove_file_def
        split: if_splits)
  with assms show ?thesis
    by (auto simp: connect_handler_def set_socket_options_def Let_def remove_file_def
        start_connect_def bind_socket_def connected_handler_def close_handler_def impl_simps)
qed

theorem failed_connect_leaves_file_witness:
  "''c'' \<in> files (close_handler (connected_handler (Other_error 61) sample_params None
     (projr (connect_handler sample_env sample_params (new_client_impl [] sample_store {} 0)))))"
proof (rule failed_connect_leaves_file)
  show "connect_handler sample_env sample_params (new_client_impl [] sample_store {} 0) =
    Inr (projr (connect_handler sample_env sample_params (new_client_impl [] sample_store {} 0)))"
    by (simp add: connect_handler_def set_socket_options_def Let_def sample_env_def sample_params_def
        remove_file_def)
qed (simp_all add: sample_env_def sample_params_def)

section \<open>Heartbeat timers\<close>

text \<open>A state with a timer: the first heartbeat of an endpoint was processed.\<close>

definition sample_timer :: hb_timer where
  "sample_timer = \<lparr>timer_oid = 3, timer_endpoint = Endpoint ''e'',
                   timer_task = \<lparr>task_generation = 0\<rparr>, slot_generation = 0\<rparr>"

definition sample_timers :: heartbeat_timers where
  "sample_timers =
     \<lparr>hb_owner = 2, hb_generation = 0, hb_timers = [sample_timer],
      hb_disp = Some \<lparr>queue = [\<lparr>object_id_value = 3,
                                entry_function = Hb_timer 3 (Debounce_in_dispatcher () 3001),
                                entry_when = 1\<rparr>],
                      exiting = False, own_object_id = 1, object_ids = {3, 2, 1},
                      running_function_object_id = None\<rparr>,
      exceeded_signals = [], closed_signals = 0\<rparr>"

lemma sample_timers_reachable: "hb_reachable sample_timers"
proof -
  let ?f = "Hb_received 0 3000 (Endpoint ''e'')"
  let ?s0 = "\<lparr>hb_owner = 2, hb_generation = 0, hb_timers = [],
     hb_disp = client_attach 2 (Some (initial_dispatcher 1)), exceeded_signals = [], closed_signals = 0\<rparr>"
  let ?s1 = "?s0\<lparr>hb_disp := snd (enqueue_to_dispatcher (hb_owner ?s0) ?f when_immediately (hb_disp ?s0))\<rparr>"
  have "hb_reachable ?s0" by (rule hb_reachable.start) simp
  moreover have "hb_step ?s0 ?s1" by (rule hb_step.reports) simp
  ultimately have r1: "hb_reachable ?s1" by (rule hb_reachable.step)
  let ?e = "\<lparr>object_id_value = 2, entry_function = ?f, entry_when = 1\<rparr>"
  let ?d = "\<lparr>queue = [], exiting = False, own_object_id = 1, object_ids = {2, 1},
             running_function_object_id = None\<rparr> :: hb_fun dispatcher"
  have s1: "hb_disp ?s1 = Some (?d\<lparr>queue := [?e]\<rparr>)"
    by (simp add: client_attach_def initial_dispatcher_def attach_def enqueue_to_dispatcher_def
        enqueue_def Let_def when_immediately_def when_internal_detached_def)
  have take: "worker_take None (?d\<lparr>queue := [?e]\<rparr>) = (Worker_run ?e, ?d)"
    by (simp add: worker_take_def calculate_duration_def Let_def when_immediately_def)
  have "hb_step ?s1 (run_hb None 3 ?f (?s1\<lparr>hb_disp := Some ?d\<rparr>))"
    using s1 take by (rule hb_step.runs)
      (simp add: call_function_def, simp add: fresh_oid_def client_attached_def attached_def
        client_attach_def initial_dispatcher_def attach_def enqueue_to_dispatcher_def enqueue_def Let_def
        when_immediately_def when_internal_detached_def)
  moreover have "run_hb None 3 ?f (?s1\<lparr>hb_disp := Some ?d\<rparr>) = sample_timers"
    by (simp add: heartbeat_received_def new_timer_def set_timer_def debounce_after_def debounce_at_def
        client_attach_def attach_def enqueue_to_dispatcher_def enqueue_def Let_def when_now_def
        when_immediately_def when_internal_detached_def initial_debounced_task_def sample_timers_def
        sample_timer_def)
  ultimately show ?thesis using r1 by (metis hb_reachable.step)
qed

text \<open>
  C10. In every reachable state of the heartbeat timers, the timers are of distinct endpoints, and
  every closure of a timer in the dispatcher's queue belongs to a timer that exists: none runs on a
  destroyed object.
\<close>

theorem no_dangling_heartbeat_closure:
  assumes "hb_reachable st"
  shows "distinct (map timer_endpoint (hb_timers st)) \<and>
    (\<forall>e \<in> set (queued (hb_disp st)). \<forall>oid f. entry_function e = Hb_timer oid f \<longrightarrow>
       (\<exists>t \<in> set (hb_timers st). timer_oid t = oid))"
  using hb_reachable_inv [OF assms] closure_has_timer by (auto simp: hb_inv_def)

theorem no_dangling_heartbeat_closure_witness:
  "\<exists>t \<in> set (hb_timers sample_timers). timer_oid t = 3"
  using no_dangling_heartbeat_closure [OF sample_timers_reachable]
  by (auto simp: sample_timers_def queued_def)

text \<open>
  When the armed call of a timer of the present connection runs, \<open>next_heartbeat_deadline_exceeded\<close>
  is signalled for its endpoint once, and the timer is destroyed.
\<close>

lemma heartbeat_deadline_signals:
  assumes "hb_reachable st" and "t \<in> set (hb_timers st)" and "slot_generation t = hb_generation st"
    and "st' = run_timer_closure (timer_oid t) (Debounce_fire () (task_generation (timer_task t))) st"
  shows "exceeded_signals st' = exceeded_signals st @ [timer_endpoint t] \<and>
    timer_endpoint t \<notin> timer_endpoint ` set (hb_timers st')"
  using fire_signals [OF hb_reachable_inv [OF assms(1)] assms(2,3)] assms(4) by simp

text \<open>
  A heartbeat postpones the deadline: once the request of the later heartbeat has been processed,
  the call that was armed before signals nothing.
\<close>

lemma heartbeat_postpones_deadline:
  assumes "hb_reachable st" and "t \<in> set (hb_timers st)"
    and "st' = run_timer_closure (timer_oid t) (Debounce_in_dispatcher () when) st"
  shows "exceeded_signals (run_timer_closure (timer_oid t)
      (Debounce_fire () (task_generation (timer_task t))) st') = exceeded_signals st"
  using rearm_postpones [OF hb_reachable_inv [OF assms(1)] assms(2,3)] .

text \<open>
  C36. A timer that outlives its connection stays silent: none of its closures signals, and it keeps
  its endpoint, so that no heartbeat of the new connection gets a timer of its own.
\<close>

theorem stale_timer_stays_silent:
  assumes "hb_reachable st" and "t \<in> set (hb_timers st)" and "slot_generation t \<noteq> hb_generation st"
    and "st' = run_timer_closure (timer_oid t) f st"
  shows "exceeded_signals st' = exceeded_signals st \<and>
    timer_endpoint t \<in> timer_endpoint ` set (hb_timers st') \<and>
    length (hb_timers (heartbeat_received src new (hb_generation st) deadline (timer_endpoint t) st))
      = length (hb_timers st)"
proof -
  have "find (\<lambda>u. timer_endpoint u = timer_endpoint t) (hb_timers st) \<noteq> None"
    using assms(2) by (auto simp: find_None_iff)
  then have "length (hb_timers (heartbeat_received src new (hb_generation st) deadline (timer_endpoint t) st))
      = length (hb_timers st)"
    by (auto simp: heartbeat_received_def)
  with stale_timer_silent [OF hb_reachable_inv [OF assms(1)] assms(2,3)] assms(4) show ?thesis
    by simp
qed

theorem stale_timer_stays_silent_witness:
  "exceeded_signals (run_timer_closure 3 (Debounce_fire () 0) (sample_timers\<lparr>hb_generation := 1\<rparr>)) = []"
proof -
  have "hb_reachable (sample_timers\<lparr>hb_generation := 1\<rparr>)"
    using hb_reachable.step [OF sample_timers_reachable hb_step.next_generation]
    by (simp add: sample_timers_def)
  from stale_timer_stays_silent [OF this, of sample_timer, OF _ _ refl, of "Debounce_fire () 0"]
  show ?thesis by (simp add: sample_timers_def sample_timer_def)
qed

end
