(* ===== verification/Receiver_Properties.thy ===== *)
theory Receiver_Properties
  imports Sender_Properties
begin

text \<open>
  The properties of the receiver of a client: it is one loop whose handlers stay inside the buffer, and
  it reports each datagram once.
\<close>

section \<open>A connected client\<close>

lemma sample_connected_run: "receiver_run enc dec 1024 sample_connected []"
proof -
  have "receiver_run enc dec 1024 sample_new []"
    unfolding sample_new_def by (rule receiver_run.new)
  then have "receiver_run enc dec 1024 (async_connect sample_params sample_new) []"
    by (rule receiver_run.other [OF _ sample_steps(1)])
      (simp_all add: none_arrives_def async_connect_def post_def sample_new_def sample_params_def)
  then have "receiver_run enc dec 1024 sample_connecting []"
    by (rule receiver_run.other [OF _ sample_steps(2)])
      (simp_all add: none_arrives_def sample_connecting_def)
  then have "receiver_run enc dec 1024 sample_completed []"
    by (rule receiver_run.other [OF _ sample_steps(3)])
      (simp_all add: none_arrives_def sample_completed_def post_def sample_connecting_def)
  then show ?thesis
    by (rule receiver_run.other [OF _ sample_steps(4)]) (simp_all add: none_arrives_def)
qed

section \<open>The receive buffer\<close>




text \<open>A datagram that has arrived and is not yet handled.\<close>

definition sample_arrival :: "bytes \<Rightarrow> endpoint \<Rightarrow> client_impl \<Rightarrow> client_impl" where
  "sample_arrival v ep s = post (Io_received Success (vec_size v))
     (s\<lparr>receiving := receiving s - 1, receive_buffer := v @ drop (length v) (receive_buffer s),
        receive_sender_endpoint := ep\<rparr>)"


end
