(* ===== verification/Base_Wire.thy ===== *)
theory Base_Wire
  imports Base_Delivery "HOL-Library.Sublist"
begin

text \<open>
  What the sender of \<open>base_impl\<close> puts on the wire: the socket takes a datagram whole or not at all, and
  over any run the datagrams taken are those of the entries, in order, each at most once, with those
  left out that were dropped after errors.
\<close>

section \<open>Messages\<close>

text \<open>The datagram of an entry and its destination.\<close>

definition message_of :: "send_entry \<Rightarrow> bytes \<times> endpoint option" where
  "message_of e = (buffer e, destination_endpoint e)"

text \<open>The entries from the front of the queue to the last posted one.\<close>

definition waiting :: "'z base_impl_scheme \<Rightarrow> entry_ref list" where
  "waiting s = send_entries s @ posted (io_ready s)"

text \<open>The front entry is on the wire while the handler of its completion is queued.\<close>

fun sent_ok :: "io_handler \<Rightarrow> bool" where
  "sent_ok (Io_sent ec n r) = (\<not> is_error ec)"
| "sent_ok _ = False"

definition in_flight :: "'z base_impl_scheme \<Rightarrow> (bytes \<times> endpoint option) list" where
  "in_flight s =
     (if list_ex sent_ok (io_ready s) then [message_of (entry_store s (hd (send_entries s)))] else [])"

section \<open>What handlers append\<close>

definition keeps_wire :: "'z base_impl_scheme \<Rightarrow> 'z base_impl_scheme \<Rightarrow> bool" where
  "keeps_wire s t \<longleftrightarrow> (\<exists>hs. io_ready t = io_ready s @ hs \<and> posted hs = [] \<and>
     (\<forall>ec n r. Io_sent ec n r \<in> set hs \<longrightarrow> is_error ec \<and> n = 0))"

lemma keeps_wire_refl [simp]: "keeps_wire s s"
  by (simp add: keeps_wire_def)

lemma keeps_wire_trans: "keeps_wire s t \<Longrightarrow> keeps_wire t u \<Longrightarrow> keeps_wire s u"
  by (fastforce simp: keeps_wire_def)

lemma keeps_wire_io [simp]:
  "posted [h] = [] \<Longrightarrow> \<not> goes_on h \<Longrightarrow> keeps_wire s (post h s)"
  "keeps_wire s (dispatch_task t s)" "keeps_wire s (update_entry r f s)"
  "keeps_wire s (deadline_expires_at tp s)" "keeps_wire s (deadline_wait s)"
  "keeps_wire s (invoker_expires_at tp s)" "keeps_wire s (invoker_wait s)"
  "keeps_wire s (async_receive s)" "keeps_wire s (reset_work_guard s)" "keeps_wire s (start_send r s)"
  "keeps_wire s (pop_front_send_entry s)" "keeps_wire s (s\<lparr>send_entries := rs\<rparr>)"
  by (auto simp: keeps_wire_def impl_simps update_entry_def async_receive_def start_send_def
      reset_work_guard_def pop_front_send_entry_def split: list.splits option.splits)

lemma keeps_wire_await [simp]: "keeps_wire s (await_send_entry d s)"
  by (auto simp: await_send_entry_def split: option.splits
      intro: keeps_wire_trans [OF keeps_wire_io(6) keeps_wire_io(7)]
        keeps_wire_trans [OF keeps_wire_io(4) keeps_wire_io(10)])

lemma keeps_wire_finish: "keeps_wire s (finish_send r d s)"
  by (auto simp: finish_send_def intro: keeps_wire_trans [OF keeps_wire_io(11)])

lemma keeps_wire_handle_send: "keeps_wire s (handle_send ec n r s)"
proof -
  let ?s1 = "deadline_expires_at pos_infin (update_entry r (add_bytes_transferred n) s)"
  have s1: "keeps_wire s ?s1"
    by (rule keeps_wire_trans) (rule keeps_wire_io)+
  have nbs: "keeps_wire ?s1 (handle_no_buffer_space r ?s1)"
    by (auto simp: handle_no_buffer_space_def Let_def
        intro!: keeps_wire_trans [OF _ keeps_wire_io(2)] keeps_wire_trans [OF _ keeps_wire_io(3)])
  have report: "keeps_wire ?s1 (dispatch_task t (update_entry r drop_entry ?s1))" for t
    by (rule keeps_wire_trans [OF keeps_wire_io(3) keeps_wire_io(2)])
  have close: "keeps_wire ?s1 (async_close (dispatch_task t ?s1))" for t
    unfolding async_close_def
    by (rule keeps_wire_trans [OF keeps_wire_io(2) keeps_wire_io(1)]) simp_all
  have "keeps_wire ?s1 (handle_send ec n r s)"
    by (auto simp: handle_send_def Let_def close
        intro: keeps_wire_trans [OF _ keeps_wire_finish] nbs report)
  with s1 show ?thesis by (rule keeps_wire_trans)
qed

lemma keeps_wire_receive: "keeps_wire s (receive_handler dec ec n s)"
proof -
  have d: "keeps_wire s (receive_datagram dec n s)"
    by (simp add: receive_datagram_def Let_def split: option.splits entry_type.splits)
  then show ?thesis
    using keeps_wire_trans [OF d keeps_wire_io(8)] by (simp add: receive_handler_def Let_def)
qed

lemma keeps_wire_check_deadline: "keeps_wire s (check_send_deadline s)"
  by (simp add: check_send_deadline_def async_close_def)

lemma keeps_wire_send_handler: "keeps_wire s (send_handler r s)"
  unfolding send_handler_def Let_def
  by (rule keeps_wire_trans [OF keeps_wire_io(12) keeps_wire_io(6)])

lemma keeps_wire_close: "keeps_wire s (close_handler s)"
proof (cases "impl_socket s")
  case None
  then show ?thesis by (simp add: close_handler_def)
next
  case (Some k)
  then show ?thesis by (auto simp: keeps_wire_def close_handler_fields(11) [OF Some])
qed

section \<open>The handler of a completion\<close>

lemma make_buffer_new: "entry_wf e \<Longrightarrow> bytes_transferred e = 0 \<Longrightarrow> make_buffer e = buffer e"
  by (simp add: make_buffer_drop)

lemma finish_send_queue [simp]:
  "entry_store (finish_send r d s) = entry_store s"
  "send_entries (finish_send r d s) =
     (if transfer_complete (entry_store s r) then tl (send_entries s) else send_entries s)"
  using keeps_queue_await [of s d] keeps_queue_await [of "pop_front_send_entry s" d]
  by (auto simp: finish_send_def keeps_queue_def pop_front_send_entry_def dispatch_task_def
      split: list.splits option.splits)

lemma message_of_operations [simp]:
  "message_of (add_bytes_transferred n e) = message_of e" "message_of (drop_entry e) = message_of e"
  "message_of (count_no_buffer_space e) = message_of e"
  by (simp_all add: message_of_def drop_entry_def count_no_buffer_space_def)

text \<open>Only the entry itself changes, and not its datagram.\<close>

lemma handle_send_store:
  "q \<noteq> r \<Longrightarrow> entry_store (handle_send ec n r s) q = entry_store s q"
  "message_of (entry_store (handle_send ec n r s) r) = message_of (entry_store s r)"
  by (simp_all add: handle_send_def handle_no_buffer_space_def update_entry_def async_close_def
      impl_simps)

text \<open>A completion that carried nothing leaves the entry at the front, as it was, or drops it.\<close>

lemma handle_send_error:
  assumes "is_error ec" and "bytes_transferred (entry_store s r) = 0"
  shows "send_entries (handle_send ec 0 r s) = tl (send_entries s) \<or>
    send_entries (handle_send ec 0 r s) = send_entries s \<and>
    bytes_transferred (entry_store (handle_send ec 0 r s) r) = 0"
  using assms
  by (auto simp: handle_send_def handle_no_buffer_space_def update_entry_def async_close_def
      impl_simps drop_entry_def count_no_buffer_space_def)

text \<open>One that carried the whole datagram removes it.\<close>

lemma handle_send_success:
  assumes "bytes_transferred (entry_store s r) = 0"
  shows "send_entries (handle_send Success (vec_size (buffer (entry_store s r))) r s) = tl (send_entries s)"
  using assms
  by (simp add: handle_send_def update_entry_def impl_simps transfer_complete_def)

section \<open>The invariant\<close>

text \<open>
  \<open>es\<close> are the messages given to the sender so far, \<open>ds\<close> the datagrams the socket has taken: those of
  the entries that have left the queue, some of them left out, and the front one when it is in flight.
\<close>

definition wire_inv ::
    "'z base_impl_scheme \<Rightarrow> (bytes \<times> endpoint option) list \<Rightarrow> (bytes \<times> endpoint option) list \<Rightarrow> bool" where
  "wire_inv s es ds \<longleftrightarrow> sender_inv s \<and>
     (\<forall>r \<in> set (waiting s). bytes_transferred (entry_store s r) = 0) \<and>
     (\<forall>ec n r. Io_sent ec n r \<in> set (io_ready s) \<longrightarrow>
        is_error ec \<and> n = 0 \<or> ec = Success \<and> n = vec_size (buffer (entry_store s r))) \<and>
     (\<exists>gone. es = gone @ map (message_of \<circ> entry_store s) (waiting s) \<and> subseq ds (gone @ in_flight s))"

lemma sent_ok_iff: "list_ex sent_ok hs \<longleftrightarrow> (\<exists>n r. Io_sent Success n r \<in> set hs)"
proof -
  have "sent_ok h \<longleftrightarrow> (\<exists>n r. h = Io_sent Success n r)" for h
    by (cases h) (auto simp: is_error_def)
  then show ?thesis by (auto simp: list_ex_iff)
qed

lemma in_flight_front:
  assumes "sender_inv s" and "list_ex sent_ok (io_ready s)"
  shows "send_entries s \<noteq> []"
  using assms by (auto simp: sent_ok_iff sender_inv_def sends_front_def at_front_def)

lemma wire_inv_frame:
  assumes inv: "wire_inv s es ds" and sender: "sender_inv t"
    and same: "waiting t = waiting s" "entry_store t = entry_store s"
      "send_entries s \<noteq> [] \<Longrightarrow> hd (send_entries t) = hd (send_entries s)"
    and new: "\<And>ec n r. Io_sent ec n r \<in> set (io_ready t) \<Longrightarrow>
      Io_sent ec n r \<in> set (io_ready s) \<or> is_error ec \<and> n = 0"
    and old: "\<And>n r. Io_sent Success n r \<in> set (io_ready s) \<Longrightarrow> Io_sent Success n r \<in> set (io_ready t)"
  shows "wire_inv t es ds"
proof -
  have s: "sender_inv s" using inv by (simp add: wire_inv_def)
  have "list_ex sent_ok (io_ready t) = list_ex sent_ok (io_ready s)"
    using new old by (fastforce simp: sent_ok_iff)
  then have "in_flight t = in_flight s"
    using same in_flight_front [OF s] by (simp add: in_flight_def)
  moreover have "is_error ec \<and> n = 0 \<or> ec = Success \<and> n = vec_size (buffer (entry_store t r))"
    if "Io_sent ec n r \<in> set (io_ready t)" for ec n r
    using new [OF that] inv same(2) by (auto simp: wire_inv_def)
  ultimately show ?thesis
    using inv sender same(1,2) by (auto simp: wire_inv_def)
qed

lemma wire_inv_keeps:
  assumes "wire_inv s es ds" and "sender_inv t" and "io_ready s = h # hs" and "\<not> goes_on h"
    and "keeps_wire (s\<lparr>io_ready := hs\<rparr>) t" and "entry_store t = entry_store s"
    and "send_entries t = send_entries s @ posted [h]"
  shows "wire_inv t es ds"
proof -
  obtain ks where ks: "io_ready t = hs @ ks" "posted ks = []"
    "\<And>ec n r. Io_sent ec n r \<in> set ks \<Longrightarrow> is_error ec \<and> n = 0"
    using assms(5) by (auto simp: keeps_wire_def)
  have "posted (io_ready s) = posted [h] @ posted hs"
    using posted_append [of "[h]" hs] assms(3) by simp
  then have "waiting t = waiting s" by (simp add: waiting_def assms(7) ks)
  moreover have "h \<noteq> Io_sent ec n r" for ec n r using assms(4) by auto
  ultimately show ?thesis
    using assms(6,7) ks(3) by (intro wire_inv_frame [OF assms(1,2)]) (auto simp: assms(3) ks(1))
qed

text \<open>The handler of a completion: the only one that is queued.\<close>

lemma wire_inv_sent:
  assumes inv: "wire_inv s es ds" and h: "io_ready s = Io_sent ec n r # hs"
    and sender: "sender_inv (handle_send ec n r (s\<lparr>io_ready := hs\<rparr>))"
  shows "wire_inv (handle_send ec n r (s\<lparr>io_ready := hs\<rparr>)) es ds"
proof -
  let ?s = "s\<lparr>io_ready := hs\<rparr>" let ?t = "handle_send ec n r ?s"
  have s: "sender_inv s" using inv by (simp add: wire_inv_def)
  obtain ks where ks: "io_ready ?t = hs @ ks" "posted ks = []"
    "\<And>ec n r. Io_sent ec n r \<in> set ks \<Longrightarrow> is_error ec \<and> n = 0"
    using keeps_wire_handle_send [of ?s ec n r] by (auto simp: keeps_wire_def)
  have "filter goes_on hs = []" using sender_invD(3) [OF s] by (simp add: loops_def h)
  then have none: "Io_sent ec' n' r' \<notin> set hs" for ec' n' r'
    by (auto simp: filter_empty_conv)
  have quiet: "in_flight ?t = []" using ks(3) [of Success] none by (auto simp: in_flight_def sent_ok_iff ks(1))
  have "at_front r s"
    using sender_invD(2) [OF s] unfolding sends_front_def h by (metis list.set_intros(1))
  then obtain rs where rs: "send_entries s = r # rs"
    by (cases "send_entries s") (auto simp: at_front_def)
  then have "distinct (r # rs @ posted hs)"
    using sender_invD(1) [OF s] by (simp add: entries_ok_def h)
  then have fresh: "r \<notin> set (rs @ posted hs)" by simp
  have zero: "bytes_transferred (entry_store s r) = 0"
    using inv by (simp add: wire_inv_def waiting_def rs)
  have result: "is_error ec \<and> n = 0 \<or> ec = Success \<and> n = vec_size (buffer (entry_store ?s r))"
    using inv h by (auto simp: wire_inv_def)
  have sent: "Io_sent ec' n' r' \<in> set (io_ready ?t) \<Longrightarrow> is_error ec' \<and> n' = 0" for ec' n' r'
    using ks(3) none by (auto simp: ks(1))
  have message: "message_of (entry_store ?t q) = message_of (entry_store s q)" for q
    using handle_send_store(1) [of q r ec n ?s] handle_send_store(2) [of ec n r ?s] by (cases "q = r") simp_all
  have other: "entry_store ?t q = entry_store s q" if "q \<in> set (rs @ posted hs)" for q
    using handle_send_store(1) [of q r ec n ?s] that fresh by auto
  obtain gone where gone: "es = gone @ map (message_of \<circ> entry_store s) (waiting s)"
    "subseq ds (gone @ in_flight s)"
    using inv by (auto simp: wire_inv_def)
  have wait: "waiting s = r # rs @ posted hs" by (simp add: waiting_def rs h)
  show ?thesis
  proof (cases "send_entries ?t = rs")
    case True
    then have t: "waiting ?t = rs @ posted hs" by (simp add: waiting_def ks)
    have "subseq ds (gone @ [message_of (entry_store s r)])"
      using gone(2) by (auto simp: in_flight_def rs intro: subseq_order.order_trans split: if_splits)
    moreover have "es = (gone @ [message_of (entry_store s r)])
        @ map (message_of \<circ> entry_store ?t) (waiting ?t)"
      by (simp add: gone(1) wait t message comp_def)
    moreover have "\<forall>q \<in> set (waiting ?t). bytes_transferred (entry_store ?t q) = 0"
      using inv other by (auto simp: t wire_inv_def wait)
    ultimately show ?thesis
      using sender sent quiet unfolding wire_inv_def by fastforce
  next
    case False
    then have err: "is_error ec" "n = 0"
      using result handle_send_success [of ?s r] zero by (auto simp: rs)
    with False handle_send_error [of ec ?s r] zero
    have same: "send_entries ?t = r # rs" "bytes_transferred (entry_store ?t r) = 0"
      by (auto simp: rs)
    then have t: "waiting ?t = waiting s" unfolding wait by (simp add: waiting_def ks)
    have "in_flight s = []" using err none by (auto simp: in_flight_def sent_ok_iff h)
    then have "subseq ds gone" using gone(2) by simp
    moreover have "es = gone @ map (message_of \<circ> entry_store ?t) (waiting ?t)"
      by (simp add: gone(1) t message comp_def)
    moreover have "\<forall>q \<in> set (waiting ?t). bytes_transferred (entry_store ?t q) = 0"
      using inv other same(2) by (auto simp: t wire_inv_def wait)
    ultimately show ?thesis
      using sender sent quiet unfolding wire_inv_def by fastforce
  qed
qed

section \<open>Preservation\<close>

text \<open>The handlers of the base class.\<close>

lemma wire_inv_take:
  assumes "wire_inv s es ds" and "io_ready s = h # hs" and "\<not> goes_on h"
    and "same_sender (s\<lparr>io_ready := hs\<rparr>) t" and "posted [h] = []" and "h \<noteq> Io_close"
    and "keeps_wire (s\<lparr>io_ready := hs\<rparr>) t"
  shows "wire_inv t es ds"
proof (rule wire_inv_keeps [OF assms(1) _ assms(2,3,7)])
  have "sender_inv (s\<lparr>io_ready := hs\<rparr>)"
    using assms(1-3,5,6) by (intro sender_inv_take) (simp_all add: wire_inv_def)
  then show "sender_inv t" using assms(4) by (rule sender_inv_frame)
  show "entry_store t = entry_store s" "send_entries t = send_entries s @ posted [h]"
    using assms(4,5) by (simp_all add: same_sender_def)
qed

lemma wire_inv_invoker:
  assumes inv: "wire_inv s es ds" and h: "io_ready s = Io_invoker ec # hs"
  shows "wire_inv (await_send_entry d (s\<lparr>io_ready := hs\<rparr>)) es ds"
proof -
  let ?s = "s\<lparr>io_ready := hs\<rparr>" let ?t = "await_send_entry d ?s"
  have s: "sender_inv s" using inv by (simp add: wire_inv_def)
  obtain ks where ks: "io_ready ?t = hs @ ks" "posted ks = []"
    "\<And>ec n r. Io_sent ec n r \<in> set ks \<Longrightarrow> is_error ec \<and> n = 0"
    using keeps_wire_await [of ?s d] by (auto simp: keeps_wire_def)
  have q: "send_entries ?t = send_entries s" "entry_store ?t = entry_store s"
    using keeps_queue_await [of ?s d] by (simp_all add: keeps_queue_def)
  show ?thesis
  proof (rule wire_inv_frame [OF inv])
    show "sender_inv ?t" using between_take [OF s h] await_inv by simp
    show "waiting ?t = waiting s" by (simp add: waiting_def q ks h)
  qed (use ks q in \<open>auto simp: h\<close>)
qed

lemma wire_inv_handler:
  assumes inv: "wire_inv s es ds" and h: "next_handler s = Some (h, s')"
    and run: "run_base_handler dec h s' = Some t"
  shows "wire_inv t es ds"
proof -
  from h obtain hs where hs: "io_ready s = h # hs" and s': "s' = s\<lparr>io_ready := hs\<rparr>"
    by (auto simp: next_handler_def split: list.splits)
  have "sender_inv s" using inv by (simp add: wire_inv_def)
  then have t: "sender_inv t" using h run by (rule base_handler_inv)
  note take = wire_inv_take [OF inv hs, folded s']
  note keeps = wire_inv_keeps [OF inv t hs, folded s']
  have close: "entry_store (close_handler s') = entry_store s" "send_entries (close_handler s') = send_entries s"
    using keeps_queue_close [of s'] by (simp_all add: keeps_queue_def s')
  show ?thesis
  proof (cases h)
    case (Io_sent ec n r)
    with run hs inv t show ?thesis by (auto simp: s' intro: wire_inv_sent)
  next
    case (Io_invoker ec)
    with run hs inv show ?thesis by (auto simp: s' intro: wire_inv_invoker)
  next
    case (Io_send r)
    with run have "t = send_handler r s'" by simp
    with Io_send keeps keeps_wire_send_handler [of s' r] show ?thesis
      by (simp add: send_handler_def impl_simps s')
  next
    case Io_close
    with run have "t = close_handler s'" by simp
    with Io_close keeps keeps_wire_close [of s'] close show ?thesis by simp
  next
    case (Io_received ec n)
    with run take [OF _ same_sender_receive _ _ keeps_wire_receive] show ?thesis by auto
  next
    case (Io_deadline ec)
    with run take [OF _ same_sender_check_deadline _ _ keeps_wire_check_deadline] show ?thesis by auto
  next
    case Io_reset_work_guard
    with run take [OF _ same_sender_reset _ _ keeps_wire_io(9)] show ?thesis by auto
  qed (use run in simp_all)
qed

text \<open>A new message.\<close>

lemma wire_inv_given:
  assumes inv: "wire_inv s es ds" and fresh: "fresh_entry r s" and e: "entry_wf e" "bytes_transferred e = 0"
  shows "wire_inv (async_send r (s\<lparr>entry_store := (entry_store s)(r := e)\<rparr>)) (es @ [message_of e]) ds"
    (is "wire_inv ?t _ _")
proof -
  have s: "sender_inv s" using inv by (simp add: wire_inv_def)
  then have t: "sender_inv ?t" using fresh e(1) by (rule client_sends_inv)
  have fields: "send_entries ?t = send_entries s" "io_ready ?t = io_ready s @ [Io_send r]"
    "entry_store ?t = (entry_store s)(r := e)"
    by (simp_all add: async_send_def post_def)
  have new: "r \<notin> set (waiting s)" using fresh by (auto simp: fresh_entry_def waiting_def set_posted)
  have wait: "waiting ?t = waiting s @ [r]" by (simp add: waiting_def fields)
  have keep: "map (message_of \<circ> entry_store ?t) (waiting s) = map (message_of \<circ> entry_store s) (waiting s)"
    using new by (simp add: fields)
  have "hd (send_entries s) \<noteq> r" if "list_ex sent_ok (io_ready s)"
    using in_flight_front [OF s that] fresh hd_in_set by (fastforce simp: fresh_entry_def)
  then have flight: "in_flight ?t = in_flight s" by (simp add: in_flight_def fields)
  have sent: "q \<noteq> r" if "Io_sent ec n q \<in> set (io_ready s)" for ec n q
    using that fresh by (fastforce simp: fresh_entry_def)
  obtain gone where "es = gone @ map (message_of \<circ> entry_store s) (waiting s)" "subseq ds (gone @ in_flight s)"
    using inv by (auto simp: wire_inv_def)
  then have "es @ [message_of e] = gone @ map (message_of \<circ> entry_store ?t) (waiting ?t)"
    "subseq ds (gone @ in_flight ?t)"
    using new by (auto simp: flight wait keep fields(3))
  moreover have "\<forall>q \<in> set (waiting ?t). bytes_transferred (entry_store ?t q) = 0"
    using inv e(2) by (auto simp: wire_inv_def wait fields(3))
  moreover have "\<forall>ec n q. Io_sent ec n q \<in> set (io_ready ?t) \<longrightarrow>
      is_error ec \<and> n = 0 \<or> ec = Success \<and> n = vec_size (buffer (entry_store ?t q))"
    using inv sent by (fastforce simp: wire_inv_def fields)
  ultimately show ?thesis using t unfolding wire_inv_def by blast
qed

text \<open>The socket takes the datagram of the pending send.\<close>

lemma wire_inv_taken:
  assumes inv: "wire_inv s es ds" and p: "sending s = ps @ (r, v, dest) # qs"
  shows "wire_inv (post (Io_sent Success (vec_size v) r) (s\<lparr>sending := ps @ qs\<rparr>)) es (ds @ [(v, dest)])"
    (is "wire_inv ?t _ _")
proof -
  have s: "sender_inv s" using inv by (simp add: wire_inv_def)
  have t: "sender_inv ?t"
    using sends_inv [OF s p order_refl, of Success] by (simp add: vec_size_def)
  have "filter goes_on (io_ready s) = []" using sender_invD(3) [OF s] by (simp add: loops_def p)
  then have none: "Io_sent ec n q \<notin> set (io_ready s)" for ec n q by (auto simp: filter_empty_conv)
  have "(r, v, dest) \<in> set (sending s)" by (simp add: p)
  then have front: "send_entries s \<noteq> []" "hd (send_entries s) = r" "v = make_buffer (entry_store s r)"
    "dest = destination_endpoint (entry_store s r)"
    using sender_invD(2) [OF s] by (auto simp: sends_front_def at_front_def)
  have "r \<in> set (waiting s)" using front(1,2) hd_in_set by (auto simp: waiting_def)
  then have "entry_wf (entry_store s r)" "bytes_transferred (entry_store s r) = 0"
    using sender_invD(1) [OF s] inv by (auto simp: entries_ok_def waiting_def wire_inv_def)
  then have v: "v = buffer (entry_store s r)" by (simp add: front(3) make_buffer_new)
  have fields: "send_entries ?t = send_entries s" "entry_store ?t = entry_store s"
    "io_ready ?t = io_ready s @ [Io_sent Success (vec_size v) r]"
    by (simp_all add: post_def)
  have wait: "waiting ?t = waiting s" by (simp add: waiting_def fields)
  have "list_ex sent_ok (io_ready ?t)" by (simp add: fields is_error_def)
  then have "in_flight ?t = [message_of (entry_store s (hd (send_entries s)))]"
    by (simp only: in_flight_def fields if_True)
  moreover have "in_flight s = []" using none by (auto simp: in_flight_def sent_ok_iff)
  ultimately have flight: "in_flight s = []" "in_flight ?t = [(v, dest)]"
    by (simp_all only: front(2) message_of_def v [symmetric] front(4) [symmetric])
  obtain gone where gone: "es = gone @ map (message_of \<circ> entry_store s) (waiting s)" "subseq ds gone"
    using inv by (auto simp: wire_inv_def flight)
  have "subseq (ds @ [(v, dest)]) (gone @ in_flight ?t)"
    using gone(2) by (simp add: flight)
  then show ?thesis
    using inv t gone(1) none v(1) unfolding wire_inv_def wait fields(2,3) by auto
qed

section \<open>Runs\<close>

text \<open>A completion that is not an error without bytes.\<close>

fun completion :: "io_handler \<Rightarrow> bool" where
  "completion (Io_sent ec n r) = (\<not> (is_error ec \<and> n = 0))"
| "completion _ = False"

text \<open>No message is given to the sender, and the socket takes nothing.\<close>

definition nothing_sent :: "'z base_impl_scheme \<Rightarrow> 'z base_impl_scheme \<Rightarrow> bool" where
  "nothing_sent s t \<longleftrightarrow> length (waiting t) \<le> length (waiting s) \<and>
     length (filter completion (io_ready t)) \<le> length (filter completion (io_ready s))"

lemma wire_inv_other:
  assumes "base_step dec s t" and inv: "wire_inv s es ds" and none: "nothing_sent s t"
  shows "wire_inv t es ds"
proof -
  have "sender_inv s" using inv by (simp add: wire_inv_def)
  with assms(1) have t: "sender_inv t" by (rule base_step_inv)
  note frame = wire_inv_frame [OF inv t]
  from assms(1) show ?thesis
  proof cases
    case (handler h s')
    with inv show ?thesis by (blast intro: wire_inv_handler)
  next
    case (sends ps r v dest qs n ec)
    then have "is_error ec \<and> (of_nat n :: size_t) = 0"
      using none by (auto simp: nothing_sent_def post_def split: if_splits)
    with sends show ?thesis by (intro frame) (auto simp: waiting_def post_def is_error_def)
  next
    case (client_sends r e)
    then show ?thesis using none by (simp add: nothing_sent_def waiting_def async_send_def post_def)
  qed (intro frame; auto simp: waiting_def post_def async_close_def terminate_base_impl_def)+
qed

text \<open>
  The runs of a sender between two sockets, with the messages given to it (those queued at the start
  first) and the datagrams the socket has taken, each with its destination.
\<close>

inductive sender_run ::
    "(bytes \<Rightarrow> u32) \<Rightarrow> 'z base_impl_scheme \<Rightarrow> (bytes \<times> endpoint option) list \<Rightarrow>
     (bytes \<times> endpoint option) list \<Rightarrow> bool" for dec where
  start: "sender_inv s \<Longrightarrow> \<forall>r \<in> set (waiting s). bytes_transferred (entry_store s r) = 0 \<Longrightarrow>
    \<not> list_ex completion (io_ready s) \<Longrightarrow>
    sender_run dec s (map (message_of \<circ> entry_store s) (waiting s)) []"
| given: "sender_run dec s es ds \<Longrightarrow> fresh_entry r s \<Longrightarrow> entry_wf e \<Longrightarrow> bytes_transferred e = 0 \<Longrightarrow>
    sender_run dec (async_send r (s\<lparr>entry_store := (entry_store s)(r := e)\<rparr>)) (es @ [message_of e]) ds"
| taken: "sender_run dec s es ds \<Longrightarrow> sending s = ps @ (r, v, dest) # qs \<Longrightarrow>
    sender_run dec (post (Io_sent Success (vec_size v) r) (s\<lparr>sending := ps @ qs\<rparr>)) es (ds @ [(v, dest)])"
| other: "sender_run dec s es ds \<Longrightarrow> base_step dec s t \<Longrightarrow> nothing_sent s t \<Longrightarrow> sender_run dec t es ds"

lemma sender_run_wire: "sender_run dec s es ds \<Longrightarrow> wire_inv s es ds"
proof (induction rule: sender_run.induct)
  case (start s)
  have sent: "is_error ec \<and> n = 0" if "Io_sent ec n r \<in> set (io_ready s)" for ec n r
  proof -
    have "\<not> completion (Io_sent ec n r)" using start(3) that by (metis list_ex_iff)
    then show ?thesis by simp
  qed
  have "\<not> list_ex sent_ok (io_ready s)"
    using sent [of Success] unfolding sent_ok_iff by (auto simp: is_error_def)
  then have "in_flight s = []" by (simp add: in_flight_def)
  then have "map (message_of \<circ> entry_store s) (waiting s)
      = [] @ map (message_of \<circ> entry_store s) (waiting s)" "subseq [] ([] @ in_flight s)" by simp_all
  with start(1,2) sent show ?case unfolding wire_inv_def by blast
next
  case (given s es ds r e)
  show ?case by (rule wire_inv_given [OF given.IH given.hyps(2-4)])
next
  case (taken s es ds ps r v dest qs)
  show ?case by (rule wire_inv_taken [OF taken.IH taken.hyps(2)])
next
  case (other s es ds t)
  show ?case by (rule wire_inv_other [OF other.hyps(2) other.IH other.hyps(3)])
qed

lemma wire_inv_subseq:
  assumes inv: "wire_inv s es ds"
  shows "subseq ds es"
proof -
  obtain gone where gone: "es = gone @ map (message_of \<circ> entry_store s) (waiting s)"
    "subseq ds (gone @ in_flight s)"
    using inv by (auto simp: wire_inv_def)
  have "subseq (in_flight s) (map (message_of \<circ> entry_store s) (waiting s))"
    using inv in_flight_front [of s]
    by (cases "send_entries s") (auto simp: in_flight_def waiting_def wire_inv_def)
  then have "subseq (gone @ in_flight s) es"
    unfolding gone(1) by (intro list_emb_append_mono) simp_all
  with gone(2) show ?thesis by (rule subseq_order.order_trans)
qed

lemma sender_run_subseq: "sender_run dec s es ds \<Longrightarrow> subseq ds es"
  using sender_run_wire wire_inv_subseq by blast

end
