(* ===== verification/Wire_Properties.thy ===== *)
theory Wire_Properties
  imports Receiver_Properties Base_Wire
begin

text \<open>
  A sender and a receiver together: what a client reports is what the other side was given to send, in
  that order.
\<close>

section \<open>User data of messages\<close>

text \<open>The user data of a datagram, whoever sent it.\<close>

definition payload :: "bytes \<Rightarrow> bytes list" where
  "payload v = map fst (user_data (v, Endpoint ''''))"

lemma payload_eq: "map fst (user_data (v, ep)) = payload v"
  by (cases v) (simp_all add: payload_def user_data_def)

lemma payloads_eq: "map fst (concat (map user_data xs)) = concat (map payload (map fst xs))"
  by (induction xs) (auto simp: payload_eq)

lemma subseq_concat_map: "subseq xs ys \<Longrightarrow> subseq (concat (map f xs)) (concat (map f ys))"
proof (induction rule: list_emb.induct)
  case (list_emb_Cons xs ys y)
  then have "subseq ([] @ concat (map f xs)) (f y @ concat (map f ys))"
    by (intro list_emb_append_mono) simp_all
  then show ?case by simp
qed (auto intro: list_emb_append_mono)

text \<open>The messages for one destination.\<close>

definition messages_for :: "endpoint option \<Rightarrow> (bytes \<times> endpoint option) list \<Rightarrow> bytes list" where
  "messages_for d ms = map fst (filter (\<lambda>(v, d'). d' = d) ms)"

section \<open>From end to end\<close>

text \<open>
  C12. The datagrams that the socket of a sender takes are those of the messages it was given, each at
  most once, unchanged, to its destination and in order.  When the network hands those for a client's
  destination to the client in order (it may lose some), the user data the client reports, over
  all its connections, is the user data of messages for that destination, each at most once and in
  order.
\<close>

theorem messages_arrive_in_order:
  assumes "sender_run dec s es ds"
    and "repeating_run little_endian_bytes of_little_endian sz c as \<or>
      repeating_run big_endian_bytes of_big_endian sz c as"
    and "subseq (map fst as) (messages_for d ds)"
  shows "subseq ds es \<and>
    subseq (map fst (received_of (dispatched c))) (concat (map payload (messages_for d es)))"
proof
  show taken: "subseq ds es" using assms(1) by (rule sender_run_subseq)
  have "subseq (messages_for d ds) (messages_for d es)"
    unfolding messages_for_def by (intro subseq_map subseq_filter taken)
  then have "subseq (map fst as) (messages_for d es)"
    using assms(3) subseq_order.order_trans by blast
  then have "subseq (map fst (concat (map user_data as))) (concat (map payload (messages_for d es)))"
    unfolding payloads_eq by (rule subseq_concat_map)
  moreover have "delivered c = concat (map user_data as)"
    using assms(2) little.repeating_delivers big.repeating_delivers by blast
  then have "map fst (received_of (dispatched c)) @ map fst (in_hand c)
      = map fst (concat (map user_data as))"
    by (simp only: delivered_def map_append [symmetric])
  then have "subseq (map fst (received_of (dispatched c)) @ []) (map fst (concat (map user_data as)))"
    by (metis list_emb_append_mono subseq_order.order_refl list_emb_Nil)
  then have "subseq (map fst (received_of (dispatched c))) (map fst (concat (map user_data as)))" by simp
  ultimately show "subseq (map fst (received_of (dispatched c))) (concat (map payload (messages_for d es)))"
    using subseq_order.order_trans by blast
qed

text \<open>The bound server sends its entry, and a connected client receives and reports it.\<close>

definition sample_reported :: client_impl where
  "sample_reported = receive_handler of_little_endian Success 3
     (sample_arrival [1, 7, 8] (Endpoint ''s'') sample_connected\<lparr>io_ready := []\<rparr>)"

lemma sample_bound_run:
  "sender_run dec (post (Io_sent Success (vec_size [1, 7, 8 :: u8]) 4) (sample_bound\<lparr>sending := []\<rparr>))
     [([1, 7, 8], None)] [([1, 7, 8], None)]"
proof -
  have "sender_inv sample_bound"
    using server_reachable_inv [OF sample_bound_reachable] by (simp add: server_inv_def)
  then have "sender_run dec sample_bound
      (map (message_of \<circ> entry_store sample_bound) (waiting sample_bound)) []"
    by (intro sender_run.start)
      (simp_all add: waiting_def sample_store_def send_entry_vector_def)
  then have "sender_run dec sample_bound [([1, 7, 8], None)] []"
    by (simp add: waiting_def message_of_def sample_store_def send_entry_vector_def)
  then show ?thesis
    using sender_run.taken [of dec sample_bound _ "[]" "[]" 4 "[1, 7, 8]" None "[]"] by simp
qed

lemma sample_reported_idle: "io_ready sample_reported = []"
proof -
  let ?a = "sample_arrival [1, 7, 8] (Endpoint ''s'') sample_connected\<lparr>io_ready := []\<rparr>"
  have "io_ready (receive_datagram of_little_endian 3 ?a) = []"
    using same_io_datagram [of ?a of_little_endian 3] by (simp add: same_io_def)
  then show ?thesis
    by (simp add: sample_reported_def receive_handler_def async_receive_def Let_def)
qed

lemma sample_reported_run:
  "receiver_run little_endian_bytes of_little_endian 1024 sample_reported [([1, 7, 8], Endpoint ''s'')]"
proof -
  let ?a = "sample_arrival [1, 7, 8] (Endpoint ''s'') sample_connected"
  have a: "receiver_run little_endian_bytes of_little_endian 1024 ?a ([] @ [([1, 7, 8], Endpoint ''s'')])"
    unfolding sample_arrival_def
    by (rule receiver_run.arrives [OF sample_connected_run]) (simp_all add: sample_connected_eq)
  have ready: "io_ready ?a = [Io_received Success 3]"
    by (simp add: sample_arrival_def post_def vec_size_def)
  have "client_step little_endian_bytes of_little_endian ?a sample_reported"
    by (rule client_step.base, rule base_step.handler [of _ "Io_received Success 3" "?a\<lparr>io_ready := []\<rparr>"])
      (simp_all add: next_handler_def ready sample_reported_def)
  then show ?thesis
    using receiver_run.other [OF a, of sample_reported]
    by (simp add: none_arrives_def ready sample_reported_idle)
qed

theorem messages_arrive_in_order_witness:
  "subseq (map fst (received_of (dispatched sample_reported))) [[7, 8]] \<and>
   received_of (dispatched sample_reported) = [([7, 8], Endpoint ''s'')]"
  using little.receiver_run_delivers [OF sample_reported_run] sample_reported_idle
    messages_arrive_in_order [OF sample_bound_run disjI1 [OF repeating_run_of [OF sample_reported_run]], of None]
  by (simp add: messages_for_def payload_def user_data_def type_of_byte_def delivered_def in_hand_def)

end
