(* ===== verification/Overlapping_Connects.thy ===== *)
theory Overlapping_Connects
  imports Sender_Properties
begin

text \<open>
  What happens to a client when its owner asks for a connect while an earlier one is pending: the
  completion of a connect is not tied to the socket that was connected.
\<close>

section \<open>The states\<close>

definition plain_params :: connect_params where
  "plain_params =
     \<lparr>server_socket_file_path = ''s'', client_socket_file_path = None, connect_buffer_size = 1024,
      server_check_interval = None, next_heartbeat_deadline = None,
      client_socket_check_interval = None\<rparr>"

text \<open>The owner asks for a connect, a close and a connect before the io context's thread runs.\<close>

definition overlapping :: client_impl where
  "overlapping = async_connect plain_params (async_close (async_connect plain_params
     (new_client_impl [] sample_store {} 0)))"

definition overlap_socket :: socket where
  "overlap_socket = \<lparr>receive_buffer_size = 1056, send_buffer_size = 1025\<rparr>"

lemma resize_resize [simp]: "resize n (resize n v) = resize n v"
  by (simp add: resize_def)

text \<open>The states between the steps: the second socket is opened after the first was closed.\<close>

definition overlap_open :: "io_handler list \<Rightarrow> client_impl" where
  "overlap_open hs = (new_client_impl [] sample_store {} 0)\<lparr>impl_socket := Some overlap_socket,
     receive_buffer := resize 1056 [], io_ready := hs\<rparr>"

definition overlap_closed :: "io_handler list \<Rightarrow> client_impl" where
  "overlap_closed hs = (overlap_open hs)\<lparr>impl_socket := None\<rparr>"

section \<open>The steps\<close>

lemma overlap_connect:
  assumes "s = (new_client_impl [] sample_store {} 0)\<lparr>io_ready := Io_connect plain_params # hs\<rparr> \<or>
    s = overlap_closed (Io_connect plain_params # hs)"
    and "\<forall>h \<in> set hs. \<not> refers h 0"
  shows "(client_step enc dec)\<^sup>*\<^sup>* s (overlap_open (hs @ [Io_connected Success plain_params]))"
proof -
  let ?t = "(overlap_open hs)\<lparr>connecting := [plain_params]\<rparr>"
  let ?s = "s\<lparr>io_ready := hs\<rparr>"
  have "client_step enc dec s ?t"
  proof (rule client_step.runs)
    show "next_handler s = Some (Io_connect plain_params, ?s)"
      using assms(1) by (auto simp: next_handler_def overlap_closed_def overlap_open_def)
    show "fresh_entry 0 ?s"
      using assms by (auto simp: fresh_entry_def overlap_closed_def overlap_open_def)
    show "run_client_handler enc dec sample_env None 0 (Io_connect plain_params) ?s = Some (Inr ?t)"
      using assms(1) by (auto simp: connect_handler_def set_socket_options_def plain_params_def
          sample_env_def start_connect_def Let_def buffer_margin_def overlap_closed_def
          overlap_open_def overlap_socket_def new_client_impl_def new_base_impl_def
          base_impl.defs)
  qed
  moreover have "client_step enc dec ?t (overlap_open (hs @ [Io_connected Success plain_params]))"
    using client_step.connect_ends [of ?t "[]" plain_params "[]" enc dec Success]
    by (simp add: post_def overlap_open_def new_client_impl_def new_base_impl_def base_impl.defs)
  ultimately show ?thesis by (blast intro: rtranclp.intros)
qed

lemma overlap_close:
  "client_step enc dec (overlap_open (Io_close # hs)) (overlap_closed hs)"
proof (rule client_step.base, rule base_step.handler)
  show "next_handler (overlap_open (Io_close # hs)) = Some (Io_close, overlap_open hs)"
    by (simp add: next_handler_def overlap_open_def)
  show "run_base_handler dec Io_close (overlap_open hs) = Some (overlap_closed hs)"
    by (simp add: close_handler_def impl_simps overlap_open_def overlap_closed_def
        new_client_impl_def new_base_impl_def base_impl.defs)
qed

lemma overlap_connected:
  assumes "io_ready s = Io_connected Success plain_params # hs" and "\<forall>h \<in> set hs. \<not> refers h 0"
    and "send_entries s = []" and "sending s = []"
  shows "client_step enc dec s (connected_handler Success plain_params None (s\<lparr>io_ready := hs\<rparr>))"
proof (rule client_step.runs)
  show "next_handler s = Some (Io_connected Success plain_params, s\<lparr>io_ready := hs\<rparr>)"
    using assms(1) by (simp add: next_handler_def)
  show "fresh_entry 0 (s\<lparr>io_ready := hs\<rparr>)" using assms by (auto simp: fresh_entry_def)
  show "run_client_handler enc dec sample_env None 0 (Io_connected Success plain_params) (s\<lparr>io_ready := hs\<rparr>)
      = Some (Inr (connected_handler Success plain_params None (s\<lparr>io_ready := hs\<rparr>)))"
    by simp
qed

text \<open>A client without entries that becomes ready sleeps without end and starts a receive.\<close>

lemma start_actors_idle:
  assumes "live s" and "send_entries s = []" and "impl_mode s = Client"
  shows "start_actors s =
    (let t = deadline_wait (deadline_expires_at pos_infin (invoker_wait (invoker_expires_at pos_infin s)))
     in t\<lparr>receiving := receiving t + 1\<rparr>)"
proof -
  let ?a = "invoker_wait (invoker_expires_at pos_infin s)"
  let ?d = "deadline_expires_at pos_infin ?a"
  have "await_send_entry None s = ?a" using assms by (simp add: await_send_entry_def)
  moreover have "impl_mode ?d = Client" "live ?d" "expiry (send_deadline ?d) = Pos_infin"
    using assms by (simp_all add: impl_simps live_def)
  moreover from this have "check_send_deadline ?d = deadline_wait ?d"
    by (simp add: check_send_deadline_def)
  moreover have "live (deadline_wait ?d)" using assms by (simp add: impl_simps live_def)
  ultimately show ?thesis by (simp add: start_actors_def async_receive_def Let_def)
qed

lemma start_actors_idle_fields:
  assumes "live s" and "send_entries s = []" and "impl_mode s = Client"
  shows "send_entries (start_actors s) = []" "sending (start_actors s) = sending s"
    "waits (send_invoker (start_actors s)) = 1" "live (start_actors s)"
    "impl_mode (start_actors s) = Client" "receiving (start_actors s) = receiving s + 1"
    "waits (send_deadline (start_actors s)) = 1"
    "io_ready (start_actors s) = io_ready s
      @ replicate (waits (send_invoker s)) (Io_invoker Operation_aborted)
      @ replicate (waits (send_deadline s)) (Io_deadline Operation_aborted)"
  using assms(2,3) assms(1) [unfolded live_def]
  by (simp_all add: start_actors_idle [OF assms] Let_def impl_simps live_def)

lemma connected_handler_ready:
  obtains u where "connected_handler Success plain_params pid s = start_actors u"
    and "socket_ready u" "impl_socket u = impl_socket s" "send_entries u = send_entries s"
      "sending u = sending s" "impl_mode u = impl_mode s" "receiving u = receiving s"
      "io_ready u = io_ready s" "send_invoker u = send_invoker s" "send_deadline u = send_deadline s"
proof -
  let ?u = "dispatch_task (Connected (if impl_socket s \<noteq> None then pid else None))
    (stop_client_socket_check (stop_server_check
      (s\<lparr>socket_ready := True, timers_generation := timers_generation s + 1\<rparr>)))"
  have "connected_handler Success plain_params pid s = start_actors ?u"
    by (simp add: connected_handler_def Let_def plain_params_def start_server_check_def
        stop_server_check_def start_client_socket_check_def stop_client_socket_check_def
        dispatch_task_def)
  then show ?thesis
    by (rule that) (simp_all add: stop_server_check_def stop_client_socket_check_def dispatch_task_def)
qed

lemma connected_starts:
  assumes "impl_socket s \<noteq> None" and "send_entries s = []" and "impl_mode s = Client"
  shows "send_entries (connected_handler Success plain_params pid s) = []"
    "sending (connected_handler Success plain_params pid s) = sending s"
    "waits (send_invoker (connected_handler Success plain_params pid s)) = 1"
    "live (connected_handler Success plain_params pid s)"
    "impl_mode (connected_handler Success plain_params pid s) = Client"
    "receiving (connected_handler Success plain_params pid s) = receiving s + 1"
    "waits (send_deadline (connected_handler Success plain_params pid s)) = 1"
    "io_ready (connected_handler Success plain_params pid s) = io_ready s
      @ replicate (waits (send_invoker s)) (Io_invoker Operation_aborted)
      @ replicate (waits (send_deadline s)) (Io_deadline Operation_aborted)"
proof -
  obtain u where u: "connected_handler Success plain_params pid s = start_actors u"
    "socket_ready u" "impl_socket u = impl_socket s" "send_entries u = send_entries s"
    "sending u = sending s" "impl_mode u = impl_mode s" "receiving u = receiving s"
    "io_ready u = io_ready s" "send_invoker u = send_invoker s" "send_deadline u = send_deadline s"
    by (rule connected_handler_ready)
  have "live u" "send_entries u = []" "impl_mode u = Client" using assms u by (auto simp: live_def)
  note f = start_actors_idle_fields [OF this]
  show "send_entries (connected_handler Success plain_params pid s) = []"
    "sending (connected_handler Success plain_params pid s) = sending s"
    "waits (send_invoker (connected_handler Success plain_params pid s)) = 1"
    "live (connected_handler Success plain_params pid s)"
    "impl_mode (connected_handler Success plain_params pid s) = Client"
    "receiving (connected_handler Success plain_params pid s) = receiving s + 1"
    "waits (send_deadline (connected_handler Success plain_params pid s)) = 1"
    "io_ready (connected_handler Success plain_params pid s) = io_ready s
      @ replicate (waits (send_invoker s)) (Io_invoker Operation_aborted)
      @ replicate (waits (send_deadline s)) (Io_deadline Operation_aborted)"
    by (simp_all add: u f)
qed

section \<open>Two loops\<close>

text \<open>
  C29. The condition of C1, that a connect finds a socket or none before it is pending, is needed: when a connect, a close and a connect are asked for
  before the io context's thread runs, both connects complete on the second socket, and the client
  ends with two loops of the sender and two pending receives into the one buffer.
\<close>

theorem overlapping_connects_double_the_sender:
  "\<exists>t. (client_step enc dec)\<^sup>*\<^sup>* overlapping t \<and> live t \<and> loops t = 2 \<and> receiving t = 2"
proof -
  let ?c = "Io_connected Success plain_params"
  let ?s = "overlap_open [?c, ?c]"
  let ?t = "connected_handler Success plain_params None (?s\<lparr>io_ready := [?c]\<rparr>)"
  let ?u = "connected_handler Success plain_params None (?t\<lparr>io_ready := []\<rparr>)"
  have "impl_socket (?s\<lparr>io_ready := [?c]\<rparr>) \<noteq> None" "send_entries (?s\<lparr>io_ready := [?c]\<rparr>) = []"
    "impl_mode (?s\<lparr>io_ready := [?c]\<rparr>) = Client"
    by (simp_all add: overlap_open_def)
  note t = connected_starts [OF this, of None]
  have now: "receiving ?t = 1" "waits (send_invoker ?t) = 1" "sending ?t = []" "io_ready ?t = [?c]"
    "send_entries ?t = []" "impl_mode ?t = Client"
    by (simp_all add: t) (simp_all add: overlap_open_def)
  have "impl_socket (?t\<lparr>io_ready := []\<rparr>) \<noteq> None" "send_entries (?t\<lparr>io_ready := []\<rparr>) = []"
    "impl_mode (?t\<lparr>io_ready := []\<rparr>) = Client"
    using t(4) now by (simp_all add: live_def)
  note u = connected_starts [OF this, of None]
  have "(client_step enc dec)\<^sup>*\<^sup>* overlapping (overlap_open [Io_close, Io_connect plain_params, ?c])"
    using overlap_connect [of overlapping "[Io_close, Io_connect plain_params]" enc dec]
    by (simp add: overlapping_def async_connect_def async_close_def post_def)
  also have "(client_step enc dec)\<^sup>*\<^sup>* \<dots> (overlap_closed [Io_connect plain_params, ?c])"
    by (rule r_into_rtranclp) (rule overlap_close)
  also have "(client_step enc dec)\<^sup>*\<^sup>* \<dots> ?s"
    using overlap_connect [of "overlap_closed [Io_connect plain_params, ?c]" "[?c]" enc dec] by simp
  also have "(client_step enc dec)\<^sup>*\<^sup>* \<dots> ?t"
    by (rule r_into_rtranclp, rule overlap_connected) (simp_all add: overlap_open_def)
  also have "(client_step enc dec)\<^sup>*\<^sup>* \<dots> ?u"
    by (rule r_into_rtranclp, rule overlap_connected) (simp_all add: now)
  finally have "(client_step enc dec)\<^sup>*\<^sup>* overlapping ?u" .
  moreover have "receiving ?u = 2" "waits (send_invoker ?u) = 1" "sending ?u = []" "live ?u"
    "io_ready ?u = Io_invoker Operation_aborted # replicate (waits (send_deadline ?t)) (Io_deadline Operation_aborted)"
    by (simp_all add: u(2,3,4,6,8)) (simp_all add: now)
  ultimately show ?thesis by (auto simp: loops_def)
qed

end
