(* ===== verification/Datagram_Client.thy ===== *)
theory Datagram_Client
  imports Client_Sender
begin

text \<open>
  \<open>client.hpp\<close>: the class of the users.  All its work runs in the dispatcher's thread; it owns a
  \<open>client_impl\<close>, hands sends and connects on to it, and connects again after a failure or a close
  when a reconnect interval is set.
\<close>

section \<open>State\<close>

datatype client_signal =
    Client_warning string
  | Client_connected "int option"
  | Client_connect_failed error_code
  | Client_closed
  | Client_error error_code
  | Client_received bytes endpoint
  | Client_deadline_exceeded endpoint

text \<open>The functions the client enqueues; the reconnect timer's user function takes no argument.\<close>

datatype client_fun =
    Run_connect
  | Run_stop
  | Run_send entry_ref send_entry
  | Run_signal client_signal
  | Run_processed callback
  | Run_start_timer
  | Run_timer "unit timer_fun"

text \<open>
  The members; \<open>emitted\<close> and \<open>processed_now\<close> record the signals emitted and the callbacks called by
  the client itself.
\<close>

record datagram_client =
  client_oid :: u64
  client_server_path :: path
  client_client_path :: "path option"
  client_buffer_size :: size_t
  client_server_check :: "millis option"
  client_deadline :: "millis option"
  client_socket_check :: "millis option"
  reconnect_interval :: "millis option"
  has_path_resolver :: bool
  the_client_impl :: "client_impl option"
  reconnect_timer :: "unit timer"
  client_disp :: "client_fun weak_dispatcher"
  emitted :: "client_signal list"
  processed_now :: "callback list"

text \<open>Dereferencing an empty \<open>std::optional\<close> is undefined behaviour.\<close>

datatype client_failure = Empty_optional_dereferenced

definition new_datagram_client ::
    "u64 \<Rightarrow> path \<Rightarrow> path option \<Rightarrow> size_t \<Rightarrow> client_impl \<Rightarrow> client_fun weak_dispatcher
      \<Rightarrow> datagram_client" where
  "new_datagram_client oid sp cp n i w =
     \<lparr>client_oid = oid, client_server_path = sp, client_client_path = cp, client_buffer_size = n,
      client_server_check = None, client_deadline = None, client_socket_check = None,
      reconnect_interval = None, has_path_resolver = False, the_client_impl = Some i, reconnect_timer = initial_timer,
      client_disp = client_attach oid w, emitted = [], processed_now = []\<rparr>"

section \<open>Operations of the user\<close>

definition client_enqueue :: "client_fun \<Rightarrow> millis \<Rightarrow> datagram_client \<Rightarrow> datagram_client" where
  "client_enqueue f when c =
     c\<lparr>client_disp := snd (enqueue_to_dispatcher (client_oid c) f when (client_disp c))\<rparr>"

definition set_server_check_interval :: "millis option \<Rightarrow> datagram_client \<Rightarrow> datagram_client" where
  "set_server_check_interval v c = c\<lparr>client_server_check := v\<rparr>"

definition set_next_heartbeat_deadline :: "millis option \<Rightarrow> datagram_client \<Rightarrow> datagram_client" where
  "set_next_heartbeat_deadline v c = c\<lparr>client_deadline := v\<rparr>"

definition set_client_socket_check_interval :: "millis option \<Rightarrow> datagram_client \<Rightarrow> datagram_client" where
  "set_client_socket_check_interval v c = c\<lparr>client_socket_check := v\<rparr>"

definition set_reconnect_interval :: "millis option \<Rightarrow> datagram_client \<Rightarrow> datagram_client" where
  "set_reconnect_interval v c = c\<lparr>reconnect_interval := v\<rparr>"

text \<open>An empty \<open>std::function\<close> is no resolver; what one answers is an argument of \<open>client_connect\<close>.\<close>

definition set_server_socket_file_path_resolver :: "bool \<Rightarrow> datagram_client \<Rightarrow> datagram_client" where
  "set_server_socket_file_path_resolver v c = c\<lparr>has_path_resolver := v\<rparr>"

definition client_async_start :: "datagram_client \<Rightarrow> datagram_client" where
  "client_async_start = client_enqueue Run_connect when_immediately"

definition client_async_stop :: "datagram_client \<Rightarrow> datagram_client" where
  "client_async_stop = client_enqueue Run_stop when_immediately"

text \<open>Both \<open>async_send\<close> wrap the bytes in a new entry, the object \<open>r\<close>.\<close>

definition client_async_send ::
    "entry_ref \<Rightarrow> bytes \<Rightarrow> callback option \<Rightarrow> datagram_client \<Rightarrow> datagram_client" where
  "client_async_send r v cb =
     client_enqueue (Run_send r (send_entry_vector User_data v None cb)) when_immediately"

definition client_async_send_pointer ::
    "entry_ref \<Rightarrow> bytes option \<Rightarrow> nat \<Rightarrow> callback option \<Rightarrow> datagram_client \<Rightarrow> datagram_client" where
  "client_async_send_pointer r p n cb =
     client_enqueue (Run_send r (send_entry_pointer User_data p n None cb)) when_immediately"

section \<open>In the dispatcher's thread\<close>

text \<open>\<open>resolved\<close> is what the path resolver answers now, when one is set.\<close>

definition client_connect :: "path \<Rightarrow> datagram_client \<Rightarrow> datagram_client" where
  "client_connect resolved c =
     (case the_client_impl c of
        Some i \<Rightarrow>
          let p = \<lparr>server_socket_file_path =
                     (if has_path_resolver c then resolved else client_server_path c),
                   client_socket_file_path = client_client_path c,
                   connect_buffer_size = client_buffer_size c,
                   server_check_interval = client_server_check c,
                   next_heartbeat_deadline = client_deadline c,
                   client_socket_check_interval = client_socket_check c\<rparr>
          in c\<lparr>the_client_impl := Some (async_connect p i)\<rparr>
      | None \<Rightarrow> c)"

definition client_close :: "datagram_client \<Rightarrow> datagram_client" where
  "client_close c = c\<lparr>the_client_impl := None\<rparr>"

definition client_stop :: "datagram_client \<Rightarrow> datagram_client" where
  "client_stop c = client_close (c\<lparr>reconnect_interval := None\<rparr>)"

definition stop_timer :: "datagram_client \<Rightarrow> datagram_client" where
  "stop_timer c =
     (case timer_stop Run_timer (client_oid c) (reconnect_timer c, client_disp c) of
        (t, w) \<Rightarrow> c\<lparr>reconnect_timer := t, client_disp := w\<rparr>)"

definition start_reconnect_timer :: "millis option \<Rightarrow> datagram_client \<Rightarrow> datagram_client" where
  "start_reconnect_timer src c =
     (case reconnect_interval c of
        Some iv \<Rightarrow> client_enqueue Run_start_timer (when_now src (client_disp c) + iv) c
      | None \<Rightarrow> stop_timer c)"

text \<open>The user function of the reconnect timer.\<close>

definition reconnect_round :: "path \<Rightarrow> datagram_client \<Rightarrow> datagram_client" where
  "reconnect_round resolved c =
     client_connect resolved (if reconnect_interval c = None then stop_timer c else c)"

text \<open>The function the private \<open>async_send\<close> enqueues.\<close>

definition client_send :: "entry_ref \<Rightarrow> send_entry \<Rightarrow> datagram_client \<Rightarrow> datagram_client" where
  "client_send r e c =
     (case the_client_impl c of
        Some i \<Rightarrow> c\<lparr>the_client_impl :=
          Some (async_send r (i\<lparr>entry_store := (entry_store i)(r := e)\<rparr>))\<rparr>
      | None \<Rightarrow>
          (case processed e of
             Some cb \<Rightarrow> client_enqueue (Run_processed cb) when_immediately c
           | None \<Rightarrow> c))"

fun run_client_fun ::
    "millis option \<Rightarrow> path \<Rightarrow> client_fun \<Rightarrow> datagram_client \<Rightarrow> client_failure + datagram_client" where
  "run_client_fun src resolved Run_connect c = Inr (client_connect resolved c)"
| "run_client_fun src resolved Run_stop c = Inr (client_stop c)"
| "run_client_fun src resolved (Run_send r e) c = Inr (client_send r e c)"
| "run_client_fun src resolved (Run_signal sg) c = Inr (c\<lparr>emitted := emitted c @ [sg]\<rparr>)"
| "run_client_fun src resolved (Run_processed cb) c =
     Inr (c\<lparr>processed_now := processed_now c @ [cb]\<rparr>)"
| "run_client_fun src resolved Run_start_timer c =
     (case reconnect_interval c of
        None \<Rightarrow> Inl Empty_optional_dereferenced
      | Some iv \<Rightarrow>
          (case timer_start Run_timer (client_oid c) () iv (reconnect_timer c, client_disp c) of
             (t, w) \<Rightarrow> Inr (c\<lparr>reconnect_timer := t, client_disp := w\<rparr>)))"
| "run_client_fun src resolved (Run_timer f) c =
     (case run_timer Run_timer (client_oid c) src f (reconnect_timer c, client_disp c) of
        (called, (t, w)) \<Rightarrow>
          let c' = c\<lparr>reconnect_timer := t, client_disp := w\<rparr>
          in Inr (if called = None then c' else reconnect_round resolved c'))"

section \<open>The slots\<close>

text \<open>The slots connected to the signals of the \<open>client_impl\<close>; other tasks reach no slot.\<close>

definition connect_failed_slot :: "millis option \<Rightarrow> error_code \<Rightarrow> datagram_client \<Rightarrow> datagram_client" where
  "connect_failed_slot src ec c =
     (let c1 = client_enqueue (Run_signal (Client_connect_failed ec)) when_immediately c;
          c2 = (case the_client_impl c1 of
                  Some i \<Rightarrow> c1\<lparr>the_client_impl := Some (async_close i)\<rparr> | None \<Rightarrow> c1)
      in start_reconnect_timer src c2)"

fun client_slot :: "millis option \<Rightarrow> impl_task \<Rightarrow> datagram_client \<Rightarrow> datagram_client" where
  "client_slot src (Warning_reported m) c =
     client_enqueue (Run_signal (Client_warning m)) when_immediately c"
| "client_slot src (Connected pid) c =
     client_enqueue (Run_signal (Client_connected pid)) when_immediately c"
| "client_slot src (Connect_failed ec) c = connect_failed_slot src ec c"
| "client_slot src (Bind_failed ec) c = connect_failed_slot src ec c"
| "client_slot src Closed c =
     start_reconnect_timer src (client_enqueue (Run_signal Client_closed) when_immediately c)"
| "client_slot src (Error_occurred ec) c =
     client_enqueue (Run_signal (Client_error ec)) when_immediately c"
| "client_slot src (Received v ep) c =
     client_enqueue (Run_signal (Client_received v ep)) when_immediately c"
| "client_slot src _ c = c"

definition client_deadline_slot :: "endpoint \<Rightarrow> datagram_client \<Rightarrow> datagram_client" where
  "client_deadline_slot ep c =
     client_enqueue (Run_signal (Client_deadline_exceeded ep)) when_immediately c"

text \<open>The destructor: \<open>stop\<close> runs here, or the worker is left to run it, or it does not run.\<close>

definition destroy_client :: "bool \<Rightarrow> datagram_client \<Rightarrow> datagram_client" where
  "destroy_client in_dispatcher_thread c =
     (case client_disp c of
        None \<Rightarrow> c
      | Some d \<Rightarrow>
          (case detach_with in_dispatcher_thread (client_oid c) Run_stop d of
             (Run_inline, d') \<Rightarrow> client_stop (c\<lparr>client_disp := Some d'\<rparr>)
           | (_, d') \<Rightarrow> c\<lparr>client_disp := Some d'\<rparr>))"

section \<open>Without a socket object\<close>

text \<open>Running functions one after the other, as the worker does.\<close>

fun run_client_funs ::
    "millis option \<Rightarrow> path \<Rightarrow> client_fun list \<Rightarrow> datagram_client
      \<Rightarrow> client_failure + datagram_client" where
  "run_client_funs src resolved [] c = Inr c"
| "run_client_funs src resolved (f # fs) c =
     (case run_client_fun src resolved f c of
        Inl e \<Rightarrow> Inl e
      | Inr c' \<Rightarrow> run_client_funs src resolved fs c')"

lemma client_enqueue_fields [simp]:
  "the_client_impl (client_enqueue f t c) = the_client_impl c"
  "reconnect_interval (client_enqueue f t c) = reconnect_interval c"
  "client_oid (client_enqueue f t c) = client_oid c"
  "reconnect_timer (client_enqueue f t c) = reconnect_timer c"
  "emitted (client_enqueue f t c) = emitted c"
  "processed_now (client_enqueue f t c) = processed_now c"
  by (simp_all add: client_enqueue_def)

lemma stop_timer_fields [simp]:
  "the_client_impl (stop_timer c) = the_client_impl c"
  "reconnect_interval (stop_timer c) = reconnect_interval c"
  "client_server_path (stop_timer c) = client_server_path c"
  by (simp_all add: stop_timer_def split: prod.splits)

lemma client_stop_fields [simp]:
  "the_client_impl (client_stop c) = None" "reconnect_interval (client_stop c) = None"
  "client_disp (client_stop c) = client_disp c" "client_oid (client_stop c) = client_oid c"
  by (simp_all add: client_stop_def client_close_def)

lemma start_reconnect_timer_impl [simp]:
  "the_client_impl (start_reconnect_timer src c) = the_client_impl c"
  by (simp add: start_reconnect_timer_def split: option.splits)

lemma run_client_fun_no_impl:
  assumes "the_client_impl c = None" and "run_client_fun src resolved f c = Inr c'"
  shows "the_client_impl c' = None"
  using assms
  by (cases f) (auto simp: client_connect_def client_stop_def client_close_def client_send_def Let_def
      reconnect_round_def split: option.splits prod.splits if_splits)

lemma run_client_funs_no_impl:
  "the_client_impl c = None \<Longrightarrow> run_client_funs src resolved fs c = Inr c' \<Longrightarrow> the_client_impl c' = None"
  by (induction fs arbitrary: c) (auto split: sum.splits dest: run_client_fun_no_impl)

lemma client_slot_no_impl: "the_client_impl c = None \<Longrightarrow> the_client_impl (client_slot src t c) = None"
  by (cases t) (simp_all add: connect_failed_slot_def Let_def)

section \<open>Sends\<close>

lemma client_sends_posted:
  "the_client_impl c = Some i \<Longrightarrow>
   \<exists>i'. the_client_impl (fold (\<lambda>(r, e). client_send r e) xs c) = Some i' \<and>
     io_ready i' = io_ready i @ map (Io_send \<circ> fst) xs \<and> send_entries i' = send_entries i"
proof (induction xs arbitrary: c i)
  case Nil
  then show ?case by simp
next
  case (Cons x xs)
  obtain r e where x: "x = (r, e)" by (cases x)
  let ?i = "async_send r (i\<lparr>entry_store := (entry_store i)(r := e)\<rparr>)"
  have "the_client_impl (client_send r e c) = Some ?i"
    using Cons.prems by (simp add: client_send_def)
  from Cons.IH [OF this] show ?case by (auto simp: x async_send_def post_def)
qed

section \<open>What is enqueued\<close>

lemma enqueue_to_accepting:
  assumes "oid \<in> object_ids d" and "\<not> exiting d"
  shows "\<exists>d'. enqueue_to_dispatcher oid f t (Some d) = (True, Some d') \<and> oid \<in> object_ids d' \<and>
    \<not> exiting d' \<and> set (queue d') =
      insert \<lparr>object_id_value = oid, entry_function = f, entry_when = t\<rparr> (set (queue d))"
proof -
  have "fst (enqueue oid f t d)" using assms by (simp add: enqueue_accepted)
  then have "enqueue_to_dispatcher oid f t (Some d) = (True, Some (snd (enqueue oid f t d)))"
    by (cases "enqueue oid f t d") (simp add: enqueue_to_dispatcher_def)
  then show ?thesis
    using assms set_queue_enqueue [OF assms, of f t] by simp
qed

text \<open>The client is attached to a dispatcher that does not exit.\<close>

definition client_accepts :: "datagram_client \<Rightarrow> bool" where
  "client_accepts c \<longleftrightarrow>
     (case client_disp c of Some d \<Rightarrow> client_oid c \<in> object_ids d \<and> \<not> exiting d | None \<Rightarrow> False)"

lemma client_enqueue_accepted:
  assumes "client_accepts c"
  shows "client_accepts (client_enqueue f t c)"
    and "set (queued (client_disp (client_enqueue f t c))) =
      insert \<lparr>object_id_value = client_oid c, entry_function = f, entry_when = t\<rparr>
        (set (queued (client_disp c)))"
proof -
  obtain d where d: "client_disp c = Some d" "client_oid c \<in> object_ids d" "\<not> exiting d"
    using assms by (auto simp: client_accepts_def split: option.splits)
  obtain d' where "enqueue_to_dispatcher (client_oid c) f t (Some d) = (True, Some d')"
    "client_oid c \<in> object_ids d'" "\<not> exiting d'" "set (queue d') =
      insert \<lparr>object_id_value = client_oid c, entry_function = f, entry_when = t\<rparr> (set (queue d))"
    using enqueue_to_accepting [OF d(2,3)] by blast
  with d show "client_accepts (client_enqueue f t c)"
    and "set (queued (client_disp (client_enqueue f t c))) =
      insert \<lparr>object_id_value = client_oid c, entry_function = f, entry_when = t\<rparr>
        (set (queued (client_disp c)))"
    by (simp_all add: client_accepts_def client_enqueue_def queued_def)
qed

lemma when_now_enqueue [simp]: "when_now src (client_disp (client_enqueue f t c)) = when_now src (client_disp c)"
  by (cases "client_disp c")
    (simp_all add: when_now_def client_enqueue_def enqueue_to_dispatcher_def split: prod.splits)

text \<open>The reconnect timer: its start, its first round, and the user function of a round.\<close>

lemma closed_slot_requests:
  assumes "client_accepts c" and "reconnect_interval c = Some iv"
  shows "\<lparr>object_id_value = client_oid c, entry_function = Run_start_timer,
    entry_when = when_now src (client_disp c) + iv\<rparr> \<in> set (queued (client_disp (client_slot src Closed c)))"
  using assms by (simp add: start_reconnect_timer_def client_enqueue_accepted)

lemma start_timer_requests:
  assumes "client_accepts c" and "reconnect_interval c = Some iv"
  shows "\<exists>c'. run_client_fun src resolved Run_start_timer c = Inr c' \<and>
    \<lparr>object_id_value = client_oid c, entry_function = Run_timer (Timer_start () iv),
     entry_when = when_immediately\<rparr> \<in> set (queued (client_disp c'))"
  using assms client_enqueue_accepted(2) [OF assms(1), of "Run_timer (Timer_start () iv)" when_immediately]
  by (auto simp: timer_start_def client_enqueue_def split: prod.splits)

lemma timer_start_requests:
  assumes "client_accepts c"
  shows "\<exists>c'. run_client_fun src resolved (Run_timer (Timer_start () iv)) c = Inr c' \<and>
    {\<lparr>object_id_value = client_oid c, entry_function = Run_timer (Timer_user ()),
      entry_when = when_immediately\<rparr>,
     \<lparr>object_id_value = client_oid c,
      entry_function = Run_timer (Timer_call (current_function_id (reconnect_timer c) + 1)),
      entry_when = when_now src (client_disp c) + iv\<rparr>} \<subseteq> set (queued (client_disp c'))"
proof -
  obtain d where d: "client_disp c = Some d" "client_oid c \<in> object_ids d" "\<not> exiting d"
    using assms by (auto simp: client_accepts_def split: option.splits)
  let ?t = "(reconnect_timer c)\<lparr>current_function_id := current_function_id (reconnect_timer c) + 1,
    timer_function := Some (), timer_interval := iv\<rparr>"
  have "timer_function ?t = Some ()" by simp
  from round_calls_and_rearms [OF this d(2,3), of Run_timer src] obtain d' where
    run: "run_timer Run_timer (client_oid c) src (Timer_call (current_function_id ?t)) (?t, Some d)
      = (None, (?t, Some d'))" and q: "set (queue d') = set (queue d) \<union>
        {\<lparr>object_id_value = client_oid c, entry_function = Run_timer (Timer_user ()), entry_when = when_immediately\<rparr>,
         \<lparr>object_id_value = client_oid c, entry_function = Run_timer (Timer_call (current_function_id ?t)),
          entry_when = when_now src (Some d) + timer_interval ?t\<rparr>}" by blast
  have "run_timer Run_timer (client_oid c) src (Timer_start () iv) (reconnect_timer c, Some d)
      = (None, (?t, Some d'))"
    using run by (simp add: Let_def)
  then have "run_client_fun src resolved (Run_timer (Timer_start () iv)) c
      = Inr (c\<lparr>reconnect_timer := ?t, client_disp := Some d'\<rparr>)"
    using d(1) by (simp add: Let_def)
  then show ?thesis using q d(1) by (simp add: queued_def)
qed

lemma timer_user_connects:
  assumes "the_client_impl c = Some i"
  shows "\<exists>c' i' p. run_client_fun src resolved (Run_timer (Timer_user ())) c = Inr c' \<and>
    the_client_impl c' = Some i' \<and> io_ready i' = io_ready i @ [Io_connect p] \<and>
    server_socket_file_path p = (if has_path_resolver c then resolved else client_server_path c)"
  using assms
  by (auto simp: reconnect_round_def client_connect_def async_connect_def post_def stop_timer_def Let_def
      split: prod.splits)

end
