(* ===== verification/Client_Reconnect.thy ===== *)
theory Client_Reconnect
  imports Datagram_Client
begin

text \<open>
  A client together with the worker of its dispatcher: what happens after its socket has closed, as time
  passes.
\<close>

section \<open>The worker\<close>

text \<open>
  The worker runs what is due at one reading \<open>now\<close> of the clock, at most \<open>n\<close> functions; each is called
  unless its object was detached.
\<close>

fun client_worker ::
    "millis \<Rightarrow> path \<Rightarrow> nat \<Rightarrow> datagram_client \<Rightarrow> client_failure + datagram_client" where
  "client_worker now resolved 0 c = Inr c"
| "client_worker now resolved (Suc n) c =
     (case client_disp c of
        None \<Rightarrow> Inr c
      | Some d \<Rightarrow>
          (case worker_take (Some now) d of
             (Worker_run e, d') \<Rightarrow>
               (case call_function e d' of
                  None \<Rightarrow> client_worker now resolved n (c\<lparr>client_disp := Some d'\<rparr>)
                | Some f \<Rightarrow>
                    (case run_client_fun (Some now) resolved f (c\<lparr>client_disp := Some d'\<rparr>) of
                       Inl failure \<Rightarrow> Inl failure
                     | Inr c' \<Rightarrow> client_worker now resolved n c'))
           | (r, d') \<Rightarrow> Inr (c\<lparr>client_disp := Some d'\<rparr>)))"

text \<open>At one reading after the other.\<close>

fun client_clock ::
    "path \<Rightarrow> nat \<Rightarrow> millis list \<Rightarrow> datagram_client \<Rightarrow> client_failure + datagram_client" where
  "client_clock resolved n [] c = Inr c"
| "client_clock resolved n (now # ts) c =
     (case client_worker now resolved n c of
        Inl failure \<Rightarrow> Inl failure
      | Inr c' \<Rightarrow> client_clock resolved n ts c')"

section \<open>One function at a time\<close>

definition entry_at :: "datagram_client \<Rightarrow> client_fun \<Rightarrow> millis \<Rightarrow> client_fun dispatch_entry" where
  "entry_at c f t = \<lparr>object_id_value = client_oid c, entry_function = f, entry_when = t\<rparr>"

text \<open>The queue of an attached client's dispatcher holds these functions.\<close>

definition waits_for :: "(client_fun \<times> millis) list \<Rightarrow> datagram_client \<Rightarrow> bool" where
  "waits_for fs c \<longleftrightarrow> (\<exists>d. client_disp c = Some d \<and> client_oid c \<in> object_ids d \<and> \<not> exiting d \<and>
     queue d = map (\<lambda>(f, t). entry_at c f t) fs)"

definition without_head :: "datagram_client \<Rightarrow> datagram_client" where
  "without_head c = c\<lparr>client_disp := map_option (\<lambda>d. d\<lparr>queue := tl (queue d)\<rparr>) (client_disp c)\<rparr>"

lemma client_worker_due:
  assumes "waits_for ((f, t) # fs) c" and "t \<le> now"
  shows "client_worker now resolved (Suc n) c =
      (case run_client_fun (Some now) resolved f (without_head c) of
         Inl failure \<Rightarrow> Inl failure | Inr c' \<Rightarrow> client_worker now resolved n c')"
    and "waits_for fs (without_head c)"
  using assms
  by (auto simp: waits_for_def without_head_def entry_at_def worker_take_def call_function_def
      calculate_duration_def Let_def)

lemma client_worker_idle:
  assumes "waits_for ((f, t) # fs) c" and "now < t" and "when_immediately < t"
  shows "client_worker now resolved n c = Inr c"
  using assms
  by (cases n) (auto simp: waits_for_def entry_at_def worker_take_def calculate_duration_def Let_def)

lemma without_head_fields [simp]:
  "the_client_impl (without_head c) = the_client_impl c" "client_oid (without_head c) = client_oid c"
  "reconnect_interval (without_head c) = reconnect_interval c"
  "reconnect_timer (without_head c) = reconnect_timer c"
  "has_path_resolver (without_head c) = has_path_resolver c"
  "client_server_path (without_head c) = client_server_path c"
  "client_client_path (without_head c) = client_client_path c"
  "client_buffer_size (without_head c) = client_buffer_size c"
  "client_server_check (without_head c) = client_server_check c"
  "client_deadline (without_head c) = client_deadline c"
  "client_socket_check (without_head c) = client_socket_check c"
  by (simp_all add: without_head_def)

text \<open>What is enqueued goes behind the functions due no later.\<close>

lemma insert_upper_map: "(\<And>x. g (h x) = k x) \<Longrightarrow> insert_upper g (h x) (map h xs) = map h (insert_upper k x xs)"
  by (induction xs) simp_all

lemma enqueued_waits:
  assumes "waits_for fs c" and "t \<noteq> when_internal_detached"
  shows "waits_for (insert_upper snd (f, t) fs) (client_enqueue f t c)"
  using assms insert_upper_map [of entry_when "\<lambda>(f, t). entry_at c f t" snd "(f, t)" fs]
  by (auto simp: waits_for_def client_enqueue_def enqueue_to_dispatcher_def enqueue_def Let_def entry_at_def)

section \<open>The rounds of the reconnect timer\<close>

definition connect_request :: "path \<Rightarrow> datagram_client \<Rightarrow> connect_params" where
  "connect_request resolved c =
     \<lparr>server_socket_file_path = (if has_path_resolver c then resolved else client_server_path c),
      client_socket_file_path = client_client_path c, connect_buffer_size = client_buffer_size c,
      server_check_interval = client_server_check c, next_heartbeat_deadline = client_deadline c,
      client_socket_check_interval = client_socket_check c\<rparr>"

text \<open>What does not change while the client waits.\<close>

definition keeps :: "datagram_client \<Rightarrow> datagram_client \<Rightarrow> bool" where
  "keeps c c' \<longleftrightarrow> reconnect_interval c' = reconnect_interval c \<and>
     (\<forall>resolved. connect_request resolved c' = connect_request resolved c)"

lemma keeps_trans: "keeps a b \<Longrightarrow> keeps b c \<Longrightarrow> keeps a c"
  by (simp add: keeps_def)

lemma user_function_connects:
  assumes "waits_for fs c" and "the_client_impl c = Some i" and "reconnect_interval c = Some iv"
  shows "\<exists>c' i'. run_client_fun (Some now) resolved (Run_timer (Timer_user ())) c = Inr c' \<and>
    waits_for fs c' \<and> keeps c c' \<and> reconnect_timer c' = reconnect_timer c \<and>
    the_client_impl c' = Some i' \<and> io_ready i' = io_ready i @ [Io_connect (connect_request resolved c)]"
  using assms
  by (auto simp: reconnect_round_def client_connect_def async_connect_def post_def Let_def keeps_def
      connect_request_def waits_for_def entry_at_def)

text \<open>The timer of a client runs with the interval \<open>iv\<close>.\<close>

definition timer_runs :: "millis \<Rightarrow> datagram_client \<Rightarrow> bool" where
  "timer_runs iv c \<longleftrightarrow> timer_function (reconnect_timer c) = Some () \<and> timer_interval (reconnect_timer c) = iv"

abbreviation call_now :: "datagram_client \<Rightarrow> client_fun" where
  "call_now c \<equiv> Run_timer (Timer_call (current_function_id (reconnect_timer c)))"

lemma round_enqueues:
  assumes "waits_for fs c" and "timer_runs iv c"
  shows "run_client_fun (Some now) resolved (call_now c) c =
    Inr (client_enqueue (call_now c) (now + iv) (client_enqueue (Run_timer (Timer_user ())) when_immediately c))"
  using assms
  by (auto simp: waits_for_def timer_runs_def timer_call_function_def timer_rearm_def timer_enqueue_def
      enqueue_to_dispatcher_def enqueue_def when_now_def client_enqueue_def when_immediately_def
      when_internal_detached_def Let_def)

lemma keeps_enqueue [simp]: "keeps c (client_enqueue f t c)"
  by (simp add: keeps_def connect_request_def client_enqueue_def)

lemma round_queue:
  assumes "waits_for [] c" and "timer_runs iv c" and "0 < now" and "0 < iv"
  shows "\<exists>c'. run_client_fun (Some now) resolved (call_now c) c = Inr c' \<and>
    waits_for [(Run_timer (Timer_user ()), when_immediately), (call_now c, now + iv)] c' \<and>
    keeps c c' \<and> reconnect_timer c' = reconnect_timer c \<and> the_client_impl c' = the_client_impl c"
proof -
  let ?u = "client_enqueue (Run_timer (Timer_user ())) when_immediately c"
  let ?c = "client_enqueue (call_now c) (now + iv) ?u"
  have "waits_for [(Run_timer (Timer_user ()), when_immediately)] ?u"
    using enqueued_waits [OF assms(1), of when_immediately]
    by (simp add: when_immediately_def when_internal_detached_def)
  from enqueued_waits [OF this, of "now + iv" "call_now c"] assms(3,4)
  have "waits_for [(Run_timer (Timer_user ()), when_immediately), (call_now c, now + iv)] ?c"
    by (simp add: when_immediately_def when_internal_detached_def)
  moreover have "keeps c ?c" using keeps_trans keeps_enqueue by blast
  ultimately show ?thesis using round_enqueues [OF assms(1,2)] by simp
qed

text \<open>
  Between two readings: the next round is due at \<open>t\<close>, with the request \<open>p\<close>.
\<close>

definition ticking :: "millis \<Rightarrow> millis \<Rightarrow> datagram_client \<Rightarrow> datagram_client \<Rightarrow> bool" where
  "ticking iv t c0 c \<longleftrightarrow> waits_for [(call_now c, t)] c \<and> timer_runs iv c \<and> keeps c0 c \<and>
     reconnect_interval c0 = Some iv"

lemma without_head_request [simp]: "connect_request resolved (without_head c) = connect_request resolved c"
  by (simp add: connect_request_def)

lemma without_head_keeps [simp]: "keeps c (without_head c)" "timer_runs iv (without_head c) = timer_runs iv c"
  by (simp_all add: keeps_def connect_request_def timer_runs_def)

text \<open>The end of a round: the user function, and then nothing until the next one is due.\<close>

lemma round_end:
  assumes "waits_for [(Run_timer (Timer_user ()), when_immediately), (call_now c, now + iv)] c"
    and "timer_runs iv c" and "keeps c0 c" and "reconnect_interval c0 = Some iv"
    and "the_client_impl c = Some i" and "0 < now" and "0 < iv"
  shows "\<exists>c' i'. client_worker now resolved (Suc n) c = Inr c' \<and> ticking iv (now + iv) c0 c' \<and>
    the_client_impl c' = Some i' \<and> io_ready i' = io_ready i @ [Io_connect (connect_request resolved c0)]"
proof -
  let ?h = "without_head c"
  have due: "when_immediately \<le> now" using assms(6) by (simp add: when_immediately_def)
  have wait: "waits_for [(call_now c, now + iv)] ?h" by (rule client_worker_due(2) [OF assms(1) due])
  have impl: "the_client_impl ?h = Some i" and iv: "reconnect_interval ?h = Some iv"
    using assms(3-5) by (simp_all add: keeps_def)
  obtain c' i' where c': "run_client_fun (Some now) resolved (Run_timer (Timer_user ())) ?h = Inr c'"
    "waits_for [(call_now c, now + iv)] c'" "keeps ?h c'" "reconnect_timer c' = reconnect_timer c"
    "the_client_impl c' = Some i'" "io_ready i' = io_ready i @ [Io_connect (connect_request resolved ?h)]"
    using user_function_connects [OF wait impl iv, of now resolved] by (auto simp del: run_client_fun.simps)
  have "client_worker now resolved (Suc n) c = client_worker now resolved n c'"
    using client_worker_due(1) [OF assms(1) due] c'(1) by simp
  also have "\<dots> = Inr c'"
    using assms(6,7) by (intro client_worker_idle [OF c'(2)]) (simp_all add: when_immediately_def)
  finally have "client_worker now resolved (Suc n) c = Inr c'" .
  moreover have "ticking iv (now + iv) c0 c'"
    using c'(2-4) assms(2-4) by (auto simp: ticking_def timer_runs_def keeps_def)
  moreover have "connect_request resolved ?h = connect_request resolved c0"
    using assms(3) by (metis keeps_def without_head_keeps(1))
  ultimately show ?thesis using c'(5,6) by auto
qed

lemma one_round:
  assumes "ticking iv t c0 c" and "the_client_impl c = Some i" and "t \<le> now" and "0 < now" and "0 < iv"
  shows "\<exists>c' i'. client_worker now resolved (Suc (Suc n)) c = Inr c' \<and> ticking iv (now + iv) c0 c' \<and>
    the_client_impl c' = Some i' \<and> io_ready i' = io_ready i @ [Io_connect (connect_request resolved c0)]"
proof -
  have w: "waits_for [(call_now c, t)] c" and runs: "timer_runs iv (without_head c)"
    and keep: "keeps c0 (without_head c)" and iv: "reconnect_interval c0 = Some iv"
    using assms(1) keeps_trans [of c0 c "without_head c"] by (auto simp: ticking_def)
  obtain c' where c': "run_client_fun (Some now) resolved (call_now c) (without_head c) = Inr c'"
    "waits_for [(Run_timer (Timer_user ()), when_immediately), (call_now c, now + iv)] c'"
    "keeps (without_head c) c'" "reconnect_timer c' = reconnect_timer c" "the_client_impl c' = Some i"
    using round_queue [OF client_worker_due(2) [OF w assms(3)] runs assms(4,5), of resolved] assms(2) by auto
  have "client_worker now resolved (Suc (Suc n)) c = client_worker now resolved (Suc n) c'"
    using client_worker_due(1) [OF w assms(3)] c'(1) by simp
  then show ?thesis
    using round_end [of c' now iv c0 i resolved n] c'(2-5) runs keeps_trans [OF keep c'(3)] iv assms(4,5)
    by (simp add: timer_runs_def)
qed

text \<open>Any number of rounds, each at a reading an interval or more after the one before.\<close>

fun apart :: "millis \<Rightarrow> millis \<Rightarrow> millis list \<Rightarrow> bool" where
  "apart iv t [] = True"
| "apart iv t (now # ts) = (t + iv \<le> now \<and> apart iv now ts)"

lemma many_rounds:
  assumes "ticking iv (t + iv) c0 c" and "the_client_impl c = Some i" and "apart iv t ts" and "0 < t" and "0 < iv"
  shows "\<exists>c' i'. client_clock resolved (n + 2) ts c = Inr c' \<and> the_client_impl c' = Some i' \<and>
    io_ready i' = io_ready i @ replicate (length ts) (Io_connect (connect_request resolved c0))"
  using assms
proof (induction ts arbitrary: t c i)
  case Nil
  then show ?case by simp
next
  case (Cons now ts)
  then have "t + iv \<le> now" "0 < now" by auto
  from one_round [OF Cons.prems(1,2) this Cons.prems(5), of resolved n]
  obtain c' i' where c': "client_worker now resolved (n + 2) c = Inr c'" "ticking iv (now + iv) c0 c'"
    "the_client_impl c' = Some i'" "io_ready i' = io_ready i @ [Io_connect (connect_request resolved c0)]"
    by (auto simp: numeral_2_eq_2)
  from Cons.IH [OF c'(2,3)] \<open>0 < now\<close> Cons.prems(3,5) c'(1,4) show ?case by auto
qed

section \<open>From the close to the first round\<close>

lemma start_timer_enqueues:
  assumes "waits_for [] c" and "reconnect_interval c = Some iv"
  shows "\<exists>c'. run_client_fun (Some now) resolved Run_start_timer c = Inr c' \<and>
    waits_for [(Run_timer (Timer_start () iv), when_immediately)] c' \<and> keeps c c' \<and>
    the_client_impl c' = the_client_impl c"
  using assms
  by (auto simp: waits_for_def timer_start_def enqueue_to_dispatcher_def enqueue_def entry_at_def keeps_def
      connect_request_def when_immediately_def when_internal_detached_def Let_def)

lemma timer_start_queue:
  assumes "waits_for [] c" and "0 < now" and "0 < iv"
  shows "\<exists>c'. run_client_fun (Some now) resolved (Run_timer (Timer_start () iv)) c = Inr c' \<and>
    waits_for [(Run_timer (Timer_user ()), when_immediately), (call_now c', now + iv)] c' \<and>
    keeps c c' \<and> timer_runs iv c' \<and> the_client_impl c' = the_client_impl c"
proof -
  let ?s = "c\<lparr>reconnect_timer := (reconnect_timer c)\<lparr>current_function_id := current_function_id (reconnect_timer c) + 1,
    timer_function := Some (), timer_interval := iv\<rparr>\<rparr>"
  have "run_client_fun (Some now) resolved (Run_timer (Timer_start () iv)) c
      = run_client_fun (Some now) resolved (call_now ?s) ?s"
    by (simp add: Let_def)
  moreover have "waits_for [] ?s" "timer_runs iv ?s" "keeps c ?s" "the_client_impl ?s = the_client_impl c"
    using assms(1) by (simp_all add: waits_for_def timer_runs_def keeps_def connect_request_def)
  ultimately show ?thesis
    using round_queue [of ?s iv now resolved] assms(2,3) keeps_trans [of c ?s]
    by (auto simp: timer_runs_def simp del: run_client_fun.simps)
qed

lemma closed_slot_queue:
  assumes "waits_for [] c" and "reconnect_interval c = Some iv" and "0 < t" and "0 < iv"
  shows "waits_for [(Run_signal Client_closed, when_immediately), (Run_start_timer, t + iv)]
      (client_slot (Some t) Closed c)"
    and "keeps c (client_slot (Some t) Closed c)"
proof -
  let ?s = "client_enqueue (Run_signal Client_closed) when_immediately c"
  have s: "waits_for [(Run_signal Client_closed, when_immediately)] ?s"
    using enqueued_waits [OF assms(1), of when_immediately]
    by (simp add: when_immediately_def when_internal_detached_def)
  then have "when_now (Some t) (client_disp ?s) = t" by (auto simp: waits_for_def when_now_def)
  then have slot: "client_slot (Some t) Closed c = client_enqueue Run_start_timer (t + iv) ?s"
    using assms(2) by (simp add: start_reconnect_timer_def)
  then show "keeps c (client_slot (Some t) Closed c)" using keeps_trans [of c ?s] by simp
  show "waits_for [(Run_signal Client_closed, when_immediately), (Run_start_timer, t + iv)]
      (client_slot (Some t) Closed c)"
    unfolding slot using enqueued_waits [OF s, of "t + iv" Run_start_timer] assms(3,4)
    by (simp add: when_immediately_def when_internal_detached_def)
qed

lemma client_slot_impl: "the_client_impl (client_slot src Closed c) = the_client_impl c"
  by simp

lemma first_reading:
  assumes "waits_for [] c" and "reconnect_interval c = Some iv" and "the_client_impl c = Some i"
    and "0 < t" and "0 < iv" and "t + iv \<le> now"
  shows "\<exists>c' i'. client_worker now resolved (n + 4) (client_slot (Some t) Closed c) = Inr c' \<and>
    ticking iv (now + iv) c c' \<and> the_client_impl c' = Some i' \<and>
    io_ready i' = io_ready i @ [Io_connect (connect_request resolved c)]"
proof -
  let ?c1 = "client_slot (Some t) Closed c"
  let ?c2 = "(without_head ?c1)\<lparr>emitted := emitted (without_head ?c1) @ [Client_closed]\<rparr>"
  have now: "when_immediately \<le> now" "0 < now" using assms(4-6) by (simp_all add: when_immediately_def)
  note queue = closed_slot_queue [OF assms(1,2,4,5)]
  have c2: "waits_for [(Run_start_timer, t + iv)] ?c2"
    using client_worker_due(2) [OF queue(1) now(1)] by (simp add: waits_for_def entry_at_def)
  have "keeps ?c1 ?c2" by (simp add: keeps_def connect_request_def)
  with queue(2) have "keeps c ?c2" by (rule keeps_trans)
  moreover have "keeps ?c2 (without_head ?c2)" by simp
  ultimately have k3: "keeps c (without_head ?c2)" by (rule keeps_trans)
  note w3 = client_worker_due(2) [OF c2 assms(6)]
  have "reconnect_interval (without_head ?c2) = Some iv" using k3 assms(2) by (simp add: keeps_def)
  from start_timer_enqueues [OF w3 this, of now resolved] obtain c4 where
    c4: "run_client_fun (Some now) resolved Run_start_timer (without_head ?c2) = Inr c4"
    "waits_for [(Run_timer (Timer_start () iv), when_immediately)] c4" "keeps (without_head ?c2) c4"
    "the_client_impl c4 = the_client_impl (without_head ?c2)"
    by blast
  from timer_start_queue [OF client_worker_due(2) [OF c4(2) now(1)] now(2) assms(5), of resolved]
  obtain c5 where
    c5: "run_client_fun (Some now) resolved (Run_timer (Timer_start () iv)) (without_head c4) = Inr c5"
    "waits_for [(Run_timer (Timer_user ()), when_immediately), (call_now c5, now + iv)] c5"
    "keeps (without_head c4) c5" "timer_runs iv c5" "the_client_impl c5 = the_client_impl (without_head c4)"
    by blast
  have k5: "keeps c c5"
    by (meson k3 c4(3) c5(3) keeps_trans without_head_keeps(1))
  have i5: "the_client_impl c5 = Some i" using c4(4) c5(5) assms(3) by simp
  have "client_worker now resolved (n + 4) ?c1 = client_worker now resolved (Suc (Suc (Suc n))) ?c2"
    using client_worker_due(1) [OF queue(1) now(1), of resolved "Suc (Suc (Suc n))"]
    by (simp add: numeral_eq_Suc)
  also have "\<dots> = client_worker now resolved (Suc (Suc n)) c4"
    using client_worker_due(1) [OF c2 assms(6)] c4(1) by simp
  also have "\<dots> = client_worker now resolved (Suc n) c5"
    using client_worker_due(1) [OF c4(2) now(1)] c5(1) by simp
  finally show ?thesis
    using round_end [OF c5(2,4) k5 assms(2) i5 now(2) assms(5), of resolved n] by simp
qed

text \<open>All the readings after a close.\<close>

lemma reconnect_rounds:
  assumes "waits_for [] c" and "reconnect_interval c = Some iv" and "the_client_impl c = Some i"
    and "0 < t" and "0 < iv" and "apart iv t ts"
  shows "\<exists>c' i'. client_clock resolved (n + 4) ts (client_slot (Some t) Closed c) = Inr c' \<and>
    the_client_impl c' = Some i' \<and>
    io_ready i' = io_ready i @ replicate (length ts) (Io_connect (connect_request resolved c))"
proof (cases ts)
  case Nil
  with assms(3) show ?thesis by simp
next
  case (Cons now us)
  with assms(6) have now: "t + iv \<le> now" "apart iv now us" by simp_all
  with assms(4,5) have "0 < now" by simp
  from first_reading [OF assms(1-5) now(1), of resolved n] obtain c1 i1 where
    c1: "client_worker now resolved (n + 4) (client_slot (Some t) Closed c) = Inr c1"
    "ticking iv (now + iv) c c1" "the_client_impl c1 = Some i1"
    "io_ready i1 = io_ready i @ [Io_connect (connect_request resolved c)]"
    by blast
  from many_rounds [OF c1(2,3) now(2) \<open>0 < now\<close> assms(5), of resolved "n + 2"] obtain c' i' where
    "client_clock resolved (n + 4) us c1 = Inr c'" "the_client_impl c' = Some i'"
    "io_ready i' = io_ready i1 @ replicate (length us) (Io_connect (connect_request resolved c))"
    by (metis add_2_eq_Suc' add_Suc_shift numeral_Bit0 numeral_2_eq_2 add.assoc one_add_one)
  with c1(1,4) Cons show ?thesis by (simp del: client_slot.simps)
qed

end
