(* ===== verification/Datagram_Server.thy ===== *)
theory Datagram_Server
  imports Server_Impl
begin

text \<open>
  \<open>server.hpp\<close>: the class of the users.  It creates a \<open>server_impl\<close> when it binds, over a queue of
  entries that it keeps, gives it up when the bind fails or the socket closes, and binds again when
  a reconnect interval is set.
\<close>

section \<open>State\<close>

datatype server_signal =
    Server_warning string
  | Server_bound
  | Server_bind_failed error_code
  | Server_closed
  | Server_received bytes endpoint
  | Server_deadline_exceeded endpoint

datatype server_fun =
    Srv_bind
  | Srv_stop
  | Srv_send entry_ref send_entry
  | Srv_signal server_signal
  | Srv_processed callback
  | Srv_start_timer
  | Srv_timer "unit timer_fun"

text \<open>
  The members.  The queue of entries is shared with the \<open>server_impl\<close>: while there is one, it is the
  one of that object; \<open>kept_entries\<close> and \<open>kept_store\<close> are the queue and its entries while there is
  none.  \<open>srv_files\<close> and \<open>srv_clock\<close> are the environment of a new object.
\<close>

record datagram_server =
  server_oid :: u64
  server_path :: path
  server_buffer_size :: size_t
  server_check :: "millis option"
  rebind_interval :: "millis option"
  the_server_impl :: "server_impl option"
  kept_entries :: "entry_ref list"
  kept_store :: "entry_ref \<Rightarrow> send_entry"
  rebind_timer :: "unit timer"
  server_disp :: "server_fun weak_dispatcher"
  srv_files :: "path set"
  srv_clock :: int
  srv_emitted :: "server_signal list"
  srv_processed_now :: "callback list"

datatype server_failure = Empty_optional

definition new_datagram_server ::
    "u64 \<Rightarrow> path \<Rightarrow> size_t \<Rightarrow> path set \<Rightarrow> int \<Rightarrow> server_fun weak_dispatcher \<Rightarrow> datagram_server" where
  "new_datagram_server oid p n fs now w =
     \<lparr>server_oid = oid, server_path = p, server_buffer_size = n, server_check = None,
      rebind_interval = None, the_server_impl = None, kept_entries = [],
      kept_store = (\<lambda>_. send_entry_plain User_data None None), rebind_timer = initial_timer,
      server_disp = client_attach oid w, srv_files = fs, srv_clock = now,
      srv_emitted = [], srv_processed_now = []\<rparr>"

section \<open>Operations of the user\<close>

definition server_enqueue :: "server_fun \<Rightarrow> millis \<Rightarrow> datagram_server \<Rightarrow> datagram_server" where
  "server_enqueue f when c =
     c\<lparr>server_disp := snd (enqueue_to_dispatcher (server_oid c) f when (server_disp c))\<rparr>"

definition server_set_check_interval :: "millis option \<Rightarrow> datagram_server \<Rightarrow> datagram_server" where
  "server_set_check_interval v c = c\<lparr>server_check := v\<rparr>"

definition server_set_reconnect_interval :: "millis option \<Rightarrow> datagram_server \<Rightarrow> datagram_server" where
  "server_set_reconnect_interval v c = c\<lparr>rebind_interval := v\<rparr>"

definition server_async_start :: "datagram_server \<Rightarrow> datagram_server" where
  "server_async_start = server_enqueue Srv_bind when_immediately"

definition server_async_stop :: "datagram_server \<Rightarrow> datagram_server" where
  "server_async_stop = server_enqueue Srv_stop when_immediately"

definition server_async_send ::
    "entry_ref \<Rightarrow> bytes \<Rightarrow> endpoint \<Rightarrow> callback option \<Rightarrow> datagram_server \<Rightarrow> datagram_server" where
  "server_async_send r v dest cb =
     server_enqueue (Srv_send r (send_entry_vector User_data v (Some dest) cb)) when_immediately"

definition server_async_send_pointer ::
    "entry_ref \<Rightarrow> bytes option \<Rightarrow> nat \<Rightarrow> endpoint \<Rightarrow> callback option
      \<Rightarrow> datagram_server \<Rightarrow> datagram_server" where
  "server_async_send_pointer r p n dest cb =
     server_enqueue (Srv_send r (send_entry_pointer User_data p n (Some dest) cb)) when_immediately"

section \<open>In the dispatcher's thread\<close>

definition server_bind :: "datagram_server \<Rightarrow> datagram_server" where
  "server_bind c =
     (if the_server_impl c \<noteq> None then c
      else c\<lparr>the_server_impl := Some (async_bind (server_path c) (server_buffer_size c) (server_check c)
               (new_server_impl (kept_entries c) (kept_store c) (srv_files c) (srv_clock c)))\<rparr>)"

text \<open>
  Giving the object up runs its destructor, which ends the io context's thread (theory
  \<open>Base_Shutdown\<close>); \<open>final\<close> is the object as the thread leaves it.
\<close>

definition server_close :: "server_impl \<Rightarrow> datagram_server \<Rightarrow> datagram_server" where
  "server_close final c =
     (if the_server_impl c = None then c
      else c\<lparr>the_server_impl := None, kept_entries := send_entries final,
             kept_store := entry_store final, srv_files := files final\<rparr>)"

definition server_stop :: "server_impl \<Rightarrow> datagram_server \<Rightarrow> datagram_server" where
  "server_stop final c = server_close final (c\<lparr>rebind_interval := None\<rparr>)"

definition stop_rebind_timer :: "datagram_server \<Rightarrow> datagram_server" where
  "stop_rebind_timer c =
     (case timer_stop Srv_timer (server_oid c) (rebind_timer c, server_disp c) of
        (t, w) \<Rightarrow> c\<lparr>rebind_timer := t, server_disp := w\<rparr>)"

definition start_rebind_timer :: "millis option \<Rightarrow> datagram_server \<Rightarrow> datagram_server" where
  "start_rebind_timer src c =
     (case rebind_interval c of
        Some iv \<Rightarrow> server_enqueue Srv_start_timer (when_now src (server_disp c) + iv) c
      | None \<Rightarrow> stop_rebind_timer c)"

definition rebind_round :: "datagram_server \<Rightarrow> datagram_server" where
  "rebind_round c = server_bind (if rebind_interval c = None then stop_rebind_timer c else c)"

definition server_send :: "entry_ref \<Rightarrow> send_entry \<Rightarrow> datagram_server \<Rightarrow> datagram_server" where
  "server_send r e c =
     (case the_server_impl c of
        Some i \<Rightarrow> c\<lparr>the_server_impl :=
          Some (async_send r (i\<lparr>entry_store := (entry_store i)(r := e)\<rparr>))\<rparr>
      | None \<Rightarrow>
          (case processed e of
             Some cb \<Rightarrow> server_enqueue (Srv_processed cb) when_immediately c
           | None \<Rightarrow> c))"

fun run_server_fun ::
    "millis option \<Rightarrow> server_impl \<Rightarrow> server_fun \<Rightarrow> datagram_server \<Rightarrow> server_failure + datagram_server" where
  "run_server_fun src final Srv_bind c = Inr (server_bind c)"
| "run_server_fun src final Srv_stop c = Inr (server_stop final c)"
| "run_server_fun src final (Srv_send r e) c = Inr (server_send r e c)"
| "run_server_fun src final (Srv_signal sg) c = Inr (c\<lparr>srv_emitted := srv_emitted c @ [sg]\<rparr>)"
| "run_server_fun src final (Srv_processed cb) c =
     Inr (c\<lparr>srv_processed_now := srv_processed_now c @ [cb]\<rparr>)"
| "run_server_fun src final Srv_start_timer c =
     (case rebind_interval c of
        None \<Rightarrow> Inl Empty_optional
      | Some iv \<Rightarrow>
          (case timer_start Srv_timer (server_oid c) () iv (rebind_timer c, server_disp c) of
             (t, w) \<Rightarrow> Inr (c\<lparr>rebind_timer := t, server_disp := w\<rparr>)))"
| "run_server_fun src final (Srv_timer f) c =
     (case run_timer Srv_timer (server_oid c) src f (rebind_timer c, server_disp c) of
        (called, (t, w)) \<Rightarrow>
          let c' = c\<lparr>rebind_timer := t, server_disp := w\<rparr>
          in Inr (if called = None then c' else rebind_round c'))"

section \<open>The slots\<close>

definition bind_failed_slot ::
    "millis option \<Rightarrow> server_impl \<Rightarrow> error_code \<Rightarrow> datagram_server \<Rightarrow> datagram_server" where
  "bind_failed_slot src final ec c =
     start_rebind_timer src (server_close final
       (server_enqueue (Srv_signal (Server_bind_failed ec)) when_immediately c))"

definition closed_slot :: "millis option \<Rightarrow> server_impl \<Rightarrow> datagram_server \<Rightarrow> datagram_server" where
  "closed_slot src final c =
     start_rebind_timer src (server_close final
       (server_enqueue (Srv_signal Server_closed) when_immediately c))"

text \<open>The server connects no slot to \<open>error_occurred\<close>.\<close>

fun server_slot ::
    "millis option \<Rightarrow> server_impl \<Rightarrow> impl_task \<Rightarrow> datagram_server \<Rightarrow> datagram_server" where
  "server_slot src final (Warning_reported m) c =
     server_enqueue (Srv_signal (Server_warning m)) when_immediately c"
| "server_slot src final Bound c = server_enqueue (Srv_signal Server_bound) when_immediately c"
| "server_slot src final (Bind_failed ec) c = bind_failed_slot src final ec c"
| "server_slot src final Closed c = closed_slot src final c"
| "server_slot src final (Received v ep) c =
     server_enqueue (Srv_signal (Server_received v ep)) when_immediately c"
| "server_slot src final _ c = c"

definition server_deadline_slot :: "endpoint \<Rightarrow> datagram_server \<Rightarrow> datagram_server" where
  "server_deadline_slot ep c =
     server_enqueue (Srv_signal (Server_deadline_exceeded ep)) when_immediately c"

definition destroy_server :: "bool \<Rightarrow> server_impl \<Rightarrow> datagram_server \<Rightarrow> datagram_server" where
  "destroy_server in_dispatcher_thread final c =
     (case server_disp c of
        None \<Rightarrow> c
      | Some d \<Rightarrow>
          (case detach_with in_dispatcher_thread (server_oid c) Srv_stop d of
             (Run_inline, d') \<Rightarrow> server_stop final (c\<lparr>server_disp := Some d'\<rparr>)
           | (_, d') \<Rightarrow> c\<lparr>server_disp := Some d'\<rparr>))"

section \<open>At most one socket object\<close>

text \<open>Binding while there is an object changes nothing; a new one is over the queue that was kept.\<close>

lemma server_bind_bound: "the_server_impl c = Some i \<Longrightarrow> server_bind c = c"
  by (simp add: server_bind_def)

lemma server_bind_new:
  assumes "the_server_impl c = None"
  shows "\<exists>i. the_server_impl (server_bind c) = Some i \<and> send_entries i = kept_entries c \<and>
    entry_store i = kept_store c \<and> io_ready i =
      [Io_close, Io_bind (server_path c) (server_buffer_size c) (server_check c)]"
  using assms by (simp add: server_bind_def async_bind_def async_close_def post_def new_server_impl_def
      new_base_impl_def base_impl.defs)

text \<open>The sends of a stopped or unbound server call their callback themselves.\<close>

lemma server_send_unbound:
  "the_server_impl c = None \<Longrightarrow> server_send r e c =
     (case processed e of Some cb \<Rightarrow> server_enqueue (Srv_processed cb) when_immediately c | None \<Rightarrow> c)"
  by (simp add: server_send_def)

lemma server_send_bound:
  "the_server_impl c = Some i \<Longrightarrow> \<exists>i'. the_server_impl (server_send r e c) = Some i' \<and>
     io_ready i' = io_ready i @ [Io_send r] \<and> entry_store i' r = e \<and> send_entries i' = send_entries i
     \<and> server_disp (server_send r e c) = server_disp c"
  by (simp add: server_send_def async_send_def post_def)

section \<open>After a stop\<close>

lemma server_stop_fields [simp]:
  "the_server_impl (server_stop final c) = None" "rebind_interval (server_stop final c) = None"
  "server_disp (server_stop final c) = server_disp c" "server_oid (server_stop final c) = server_oid c"
  "rebind_timer (server_stop final c) = rebind_timer c"
  by (simp_all add: server_stop_def server_close_def)

lemma stop_rebind_timer_fields [simp]:
  "the_server_impl (stop_rebind_timer c) = the_server_impl c"
  by (simp add: stop_rebind_timer_def split: prod.splits)

text \<open>A round of the timer with the present function id, whatever the dispatcher does with it.\<close>

lemma timer_call_not_called: "fst (run_timer emb oid src (Timer_call i) (t, w)) = None"
  by simp

lemma server_round:
  "\<exists>c'. run_server_fun src final (Srv_timer (Timer_call i)) c = Inr c' \<and>
     the_server_impl c' = the_server_impl c \<and> rebind_interval c' = rebind_interval c"
  by (auto simp: Let_def split: prod.splits)

lemma server_round_requests:
  assumes "timer_function (rebind_timer c) = Some ()" and "server_disp c = Some d"
    and "server_oid c \<in> object_ids d" and "\<not> exiting d"
    and "run_server_fun src final (Srv_timer (Timer_call (current_function_id (rebind_timer c)))) c = Inr c'"
  shows "\<exists>e \<in> set (queued (server_disp c')). entry_function e = Srv_timer (Timer_user ())"
proof -
  obtain d' where run: "run_timer Srv_timer (server_oid c) src
      (Timer_call (current_function_id (rebind_timer c))) (rebind_timer c, Some d)
      = (None, (rebind_timer c, Some d'))" and q: "set (queue d') = set (queue d) \<union>
        {\<lparr>object_id_value = server_oid c, entry_function = Srv_timer (Timer_user ()), entry_when = when_immediately\<rparr>,
         \<lparr>object_id_value = server_oid c, entry_function = Srv_timer (Timer_call (current_function_id (rebind_timer c))),
          entry_when = when_now src (Some d) + timer_interval (rebind_timer c)\<rparr>}"
    using round_calls_and_rearms [OF assms(1,3,4), of Srv_timer src] by blast
  then have "server_disp c' = Some d'"
    using assms(2,5) by (auto simp: Let_def)
  with q show ?thesis by (simp add: queued_def)
qed

lemma server_user_round_binds:
  "the_server_impl c = None \<Longrightarrow>
   \<exists>c'. run_server_fun src final (Srv_timer (Timer_user ())) c = Inr c' \<and> the_server_impl c' \<noteq> None"
  by (auto simp: rebind_round_def server_bind_def Let_def)

end
