(* ===== verification/Peer_Manager.thy ===== *)
theory Peer_Manager
  imports Interfaces "HOL-Library.AList"
begin

unbundle bit_operations_syntax

text \<open>
  \<open>extra/peer_manager.hpp\<close>: the clients with which a server answers its peers.  Messages for a peer
  are held back until its client is connected and the peer is verified; the shared secrets of the
  peers are a keyed store that forgets a peer when its client closes.
\<close>

section \<open>Entries\<close>

text \<open>
  What the entry asks of its \<open>client\<close> (theory \<open>Datagram_Client\<close>), in order.  \<open>entry_id\<close> is the
  identity of the shared object, which the slot of \<open>connected\<close> holds weakly.
\<close>

datatype client_call = Call_start | Call_send bytes

record peer_entry =
  entry_id :: nat
  entry_connected :: bool
  entry_verified :: bool
  entry_queue :: "bytes list"
  entry_calls :: "client_call list"

definition new_entry :: "nat \<Rightarrow> peer_entry" where
  "new_entry i =
     \<lparr>entry_id = i, entry_connected = False, entry_verified = False, entry_queue = [],
      entry_calls = []\<rparr>"

definition set_connected :: "bool \<Rightarrow> peer_entry \<Rightarrow> peer_entry" where
  "set_connected b e = e\<lparr>entry_connected := b\<rparr>"

definition set_verified :: "bool \<Rightarrow> peer_entry \<Rightarrow> peer_entry" where
  "set_verified b e = e\<lparr>entry_verified := b\<rparr>"

definition call_client :: "client_call \<Rightarrow> peer_entry \<Rightarrow> peer_entry" where
  "call_client c e = e\<lparr>entry_calls := entry_calls e @ [c]\<rparr>"

definition flush :: "peer_entry \<Rightarrow> peer_entry" where
  "flush e =
     (if \<not> entry_connected e then e
      else
        let e' = (if entry_verified e
                  then fold (\<lambda>v. call_client (Call_send v)) (entry_queue e) e else e)
        in e'\<lparr>entry_queue := []\<rparr>)"

definition entry_async_send :: "bytes \<Rightarrow> peer_entry \<Rightarrow> peer_entry" where
  "entry_async_send v e =
     (let e' = flush e in
      if entry_connected e' \<and> entry_verified e' then call_client (Call_send v) e'
      else e'\<lparr>entry_queue := entry_queue e' @ [v]\<rparr>)"

section \<open>Shared secrets\<close>

type_synonym secrets = "(path \<times> bytes) list"

definition insert_shared_secret :: "path \<Rightarrow> bytes \<Rightarrow> secrets \<Rightarrow> secrets" where
  "insert_shared_secret p k ss = AList.update p k ss"

definition find_shared_secret :: "path \<Rightarrow> secrets \<Rightarrow> bytes option" where
  "find_shared_secret p ss = map_of ss p"

definition erase_shared_secret :: "path \<Rightarrow> secrets \<Rightarrow> secrets" where
  "erase_shared_secret p ss = AList.delete p ss"

text \<open>The loop ors the differences of all bytes, whatever they are.\<close>

fun differences :: "bytes \<Rightarrow> bytes \<Rightarrow> u8 \<Rightarrow> u8" where
  "differences (x # xs) (y # ys) d = differences xs ys (d OR (x XOR y))"
| "differences _ _ d = d"

definition constant_time_equal :: "bytes \<Rightarrow> bytes \<Rightarrow> bool" where
  "constant_time_equal a b = (if length a \<noteq> length b then False else differences a b 0 = 0)"

definition verify_shared_secret :: "path \<Rightarrow> bytes \<Rightarrow> secrets \<Rightarrow> bool" where
  "verify_shared_secret p k ss =
     (case find_shared_secret p ss of None \<Rightarrow> False | Some k' \<Rightarrow> constant_time_equal k' k)"

interpretation secrets: key_value insert_shared_secret find_shared_secret erase_shared_secret
  by unfold_locales (simp_all add: insert_shared_secret_def find_shared_secret_def
      erase_shared_secret_def update_conv' delete_conv')

lemma or_eq_zero: "x OR y = 0 \<longleftrightarrow> x = 0 \<and> y = 0" for x y :: u8
  by (auto simp: bit_eq_iff bit_simps)

lemma xor_eq_zero: "x XOR y = 0 \<longleftrightarrow> x = y" for x y :: u8
  by (auto simp: bit_eq_iff bit_simps)

lemma differences_zero:
  "length a = length b \<Longrightarrow> differences a b d = 0 \<longleftrightarrow> d = 0 \<and> a = b"
  by (induction a b arbitrary: d rule: list_induct2) (auto simp: or_eq_zero xor_eq_zero)

lemma constant_time_equal_iff: "constant_time_equal a b \<longleftrightarrow> a = b"
  by (auto simp: constant_time_equal_def differences_zero)

lemma verify_shared_secret_iff:
  "verify_shared_secret p k ss \<longleftrightarrow> find_shared_secret p ss = Some k"
  by (auto simp: verify_shared_secret_def constant_time_equal_iff split: option.splits)

section \<open>The manager\<close>

datatype manager_signal =
    Peer_warning path string
  | Peer_error path error_code
  | Peer_closed path nat

record peer_manager =
  pm_entries :: "(path \<times> peer_entry) list"
  pm_secrets :: secrets
  pm_signals :: "manager_signal list"

definition new_peer_manager :: peer_manager where
  "new_peer_manager = \<lparr>pm_entries = [], pm_secrets = [], pm_signals = []\<rparr>"

definition put_entry :: "path \<Rightarrow> peer_entry \<Rightarrow> peer_manager \<Rightarrow> peer_manager" where
  "put_entry p e m = m\<lparr>pm_entries := AList.update p e (pm_entries m)\<rparr>"

text \<open>
  The function \<open>async_send\<close> enqueues: a peer seen for the first time gets an entry whose client is
  started; \<open>i\<close> is the identity of the new object.
\<close>

definition manager_send :: "nat \<Rightarrow> path \<Rightarrow> bytes \<Rightarrow> peer_manager \<Rightarrow> peer_manager" where
  "manager_send i p v m =
     (let e = (case map_of (pm_entries m) p of
                 Some e \<Rightarrow> e | None \<Rightarrow> call_client Call_start (new_entry i))
      in put_entry p (entry_async_send v e) m)"

text \<open>The slots of the client of the entry with identity \<open>i\<close>.\<close>

definition connected_slot ::
    "(int option \<Rightarrow> path \<Rightarrow> bool) \<Rightarrow> nat \<Rightarrow> path \<Rightarrow> int option \<Rightarrow> peer_manager \<Rightarrow> peer_manager" where
  "connected_slot verify i p pid m =
     (case map_of (pm_entries m) p of
        Some e \<Rightarrow>
          if entry_id e = i
          then put_entry p (flush (set_verified (verify pid p) (set_connected True e))) m
          else m
      | None \<Rightarrow> m)"

definition erase_peer :: "path \<Rightarrow> peer_manager \<Rightarrow> peer_manager" where
  "erase_peer p m =
     m\<lparr>pm_entries := AList.delete p (pm_entries m),
       pm_secrets := erase_shared_secret p (pm_secrets m)\<rparr>"

definition report :: "manager_signal \<Rightarrow> peer_manager \<Rightarrow> peer_manager" where
  "report sg m = m\<lparr>pm_signals := pm_signals m @ [sg]\<rparr>"

definition connect_failed_of_peer :: "path \<Rightarrow> error_code \<Rightarrow> peer_manager \<Rightarrow> peer_manager" where
  "connect_failed_of_peer p ec m = report (Peer_error p ec) (erase_peer p m)"

definition verified_count :: "peer_manager \<Rightarrow> nat" where
  "verified_count m = length (filter (\<lambda>(p, e). entry_verified e) (pm_entries m))"

definition closed_of_peer :: "path \<Rightarrow> peer_manager \<Rightarrow> peer_manager" where
  "closed_of_peer p m =
     (let m' = erase_peer p m in report (Peer_closed p (verified_count m')) m')"

definition warning_of_peer :: "path \<Rightarrow> string \<Rightarrow> peer_manager \<Rightarrow> peer_manager" where
  "warning_of_peer p msg m = report (Peer_warning p msg) m"

definition error_of_peer :: "path \<Rightarrow> error_code \<Rightarrow> peer_manager \<Rightarrow> peer_manager" where
  "error_of_peer p ec m = report (Peer_error p ec) m"

definition manager_insert_secret :: "path \<Rightarrow> bytes \<Rightarrow> peer_manager \<Rightarrow> peer_manager" where
  "manager_insert_secret p k m = m\<lparr>pm_secrets := insert_shared_secret p k (pm_secrets m)\<rparr>"

text \<open>The cleanup of the destructor.\<close>

definition clear_entries :: "peer_manager \<Rightarrow> peer_manager" where
  "clear_entries m = m\<lparr>pm_entries := []\<rparr>"

section \<open>Steps\<close>

inductive manager_step ::
    "(int option \<Rightarrow> path \<Rightarrow> bool) \<Rightarrow> peer_manager \<Rightarrow> peer_manager \<Rightarrow> bool" for verify where
  sends: "manager_step verify m (manager_send i p v m)"
| connected: "manager_step verify m (connected_slot verify i p pid m)"
| connect_failed: "manager_step verify m (connect_failed_of_peer p ec m)"
| closed: "manager_step verify m (closed_of_peer p m)"
| warned: "manager_step verify m (warning_of_peer p msg m)"
| failed: "manager_step verify m (error_of_peer p ec m)"
| secret: "manager_step verify m (manager_insert_secret p k m)"
| destroyed: "manager_step verify m (clear_entries m)"

inductive manager_reachable :: "(int option \<Rightarrow> path \<Rightarrow> bool) \<Rightarrow> peer_manager \<Rightarrow> bool" for verify where
  new: "manager_reachable verify new_peer_manager"
| step: "manager_reachable verify m \<Longrightarrow> manager_step verify m m' \<Longrightarrow> manager_reachable verify m'"

section \<open>What an entry sends\<close>

fun sent :: "client_call list \<Rightarrow> bytes list" where
  "sent [] = []"
| "sent (Call_send v # cs) = v # sent cs"
| "sent (Call_start # cs) = sent cs"

lemma sent_append [simp]: "sent (cs @ ds) = sent cs @ sent ds"
  by (induction cs rule: sent.induct) simp_all

lemma fold_call_client:
  "fold (\<lambda>v. call_client (Call_send v)) vs e = e\<lparr>entry_calls := entry_calls e @ map Call_send vs\<rparr>"
  by (induction vs arbitrary: e) (simp_all add: call_client_def)

lemma sent_map [simp]: "sent (map Call_send vs) = vs"
  by (induction vs) simp_all

lemma flush_fields [simp]:
  "entry_connected (flush e) = entry_connected e" "entry_verified (flush e) = entry_verified e"
  "entry_id (flush e) = entry_id e"
  by (simp_all add: flush_def fold_call_client Let_def)

lemma flush_queue [simp]: "entry_queue (flush e) = (if entry_connected e then [] else entry_queue e)"
  by (simp add: flush_def Let_def)

lemma flush_sent [simp]:
  "sent (entry_calls (flush e)) =
     sent (entry_calls e) @ (if entry_connected e \<and> entry_verified e then entry_queue e else [])"
  by (simp add: flush_def fold_call_client Let_def)

lemma entry_async_send_fields [simp]:
  "entry_connected (entry_async_send v e) = entry_connected e"
  "entry_verified (entry_async_send v e) = entry_verified e"
  by (simp_all add: entry_async_send_def call_client_def Let_def)

lemma entry_async_send_sent:
  "sent (entry_calls (entry_async_send v e)) =
     sent (entry_calls e) @ (if entry_connected e \<and> entry_verified e then entry_queue e @ [v] else [])"
  by (simp add: entry_async_send_def call_client_def Let_def)

lemma entry_async_send_queue:
  "entry_queue (entry_async_send v e) =
     (if entry_connected e \<and> entry_verified e then []
      else if entry_connected e then [v] else entry_queue e @ [v])"
  by (simp add: entry_async_send_def call_client_def Let_def)

text \<open>Messages to a peer that is verified when it connects: none is lost, and they keep their order.\<close>

datatype entry_event = Sending bytes | Connecting bool

fun run_entry :: "entry_event \<Rightarrow> peer_entry \<Rightarrow> peer_entry" where
  "run_entry (Sending v) e = entry_async_send v e"
| "run_entry (Connecting b) e = flush (set_verified b (set_connected True e))"

fun messages :: "entry_event list \<Rightarrow> bytes list" where
  "messages [] = []"
| "messages (Sending v # es) = v # messages es"
| "messages (Connecting b # es) = messages es"

lemma entry_events_fifo:
  "entry_connected e \<longrightarrow> entry_verified e \<Longrightarrow> Connecting False \<notin> set evs \<Longrightarrow>
   sent (entry_calls (fold run_entry evs e)) @ entry_queue (fold run_entry evs e) =
     sent (entry_calls e) @ entry_queue e @ messages evs"
proof (induction evs arbitrary: e)
  case Nil
  then show ?case by simp
next
  case (Cons ev evs)
  have keep: "entry_connected (run_entry ev e) \<longrightarrow> entry_verified (run_entry ev e)"
    using Cons.prems by (cases ev) (auto simp: set_connected_def set_verified_def)
  show ?case
    using Cons.IH [OF keep] Cons.prems
    by (cases ev) (auto simp: entry_async_send_sent entry_async_send_queue set_connected_def
        set_verified_def)
qed

lemma entry_events_drained:
  "entry_connected e \<Longrightarrow> entry_verified e \<Longrightarrow> entry_queue e = [] \<Longrightarrow> Connecting False \<notin> set evs \<Longrightarrow>
   entry_queue (fold run_entry evs e) = []"
proof (induction evs arbitrary: e)
  case Nil
  then show ?case by simp
next
  case (Cons ev evs)
  then show ?case
    by (cases ev) (auto simp: entry_async_send_queue set_connected_def set_verified_def)
qed

section \<open>Only verified peers are sent to\<close>

definition manager_inv :: "(int option \<Rightarrow> path \<Rightarrow> bool) \<Rightarrow> peer_manager \<Rightarrow> bool" where
  "manager_inv verify m \<longleftrightarrow> distinct (map fst (pm_entries m)) \<and>
     (\<forall>p e. map_of (pm_entries m) p = Some e \<longrightarrow>
        (entry_verified e \<or> sent (entry_calls e) \<noteq> [] \<longrightarrow> (\<exists>pid. verify pid p)) \<and>
        (entry_verified e \<longrightarrow> entry_connected e) \<and>
        (entry_connected e \<longrightarrow> length (entry_queue e) \<le> 1) \<and>
        (entry_connected e \<and> entry_verified e \<longrightarrow> entry_queue e = []))"

lemma manager_inv_erase: "manager_inv verify m \<Longrightarrow> manager_inv verify (erase_peer p m)"
  by (auto simp: manager_inv_def erase_peer_def delete_conv' distinct_delete split: if_splits)

lemma manager_inv_report [simp]: "manager_inv verify (report sg m) = manager_inv verify m"
  by (simp add: manager_inv_def report_def)

lemma manager_inv_put:
  assumes "manager_inv verify m"
    and "entry_verified e \<or> sent (entry_calls e) \<noteq> [] \<longrightarrow> (\<exists>pid. verify pid p)"
    and "entry_verified e \<longrightarrow> entry_connected e"
    and "entry_connected e \<longrightarrow> length (entry_queue e) \<le> 1"
    and "entry_connected e \<and> entry_verified e \<longrightarrow> entry_queue e = []"
  shows "manager_inv verify (put_entry p e m)"
  using assms by (auto simp: manager_inv_def put_entry_def update_conv' distinct_update)

lemma manager_inv_send:
  assumes "manager_inv verify m"
  shows "manager_inv verify (manager_send i p v m)"
proof -
  define e where "e = (case map_of (pm_entries m) p of
    Some e \<Rightarrow> e | None \<Rightarrow> call_client Call_start (new_entry i))"
  have "(entry_verified e \<or> sent (entry_calls e) \<noteq> [] \<longrightarrow> (\<exists>pid. verify pid p)) \<and>
    (entry_verified e \<longrightarrow> entry_connected e)"
    using assms by (auto simp: e_def manager_inv_def new_entry_def call_client_def split: option.splits)
  with assms have "manager_inv verify (put_entry p (entry_async_send v e) m)"
    by (intro manager_inv_put) (auto simp: entry_async_send_sent entry_async_send_queue)
  then show ?thesis by (simp add: manager_send_def e_def)
qed

lemma manager_inv_connected:
  assumes "manager_inv verify m"
  shows "manager_inv verify (connected_slot verify i p pid m)"
proof (cases "map_of (pm_entries m) p")
  case None
  with assms show ?thesis by (simp add: connected_slot_def)
next
  case (Some e)
  with assms have "sent (entry_calls e) \<noteq> [] \<longrightarrow> (\<exists>pid. verify pid p)"
    by (auto simp: manager_inv_def)
  with assms have "manager_inv verify
      (put_entry p (flush (set_verified (verify pid p) (set_connected True e))) m)"
    by (intro manager_inv_put) (auto simp: set_verified_def set_connected_def)
  with Some assms show ?thesis by (simp add: connected_slot_def)
qed

lemma manager_step_inv: "manager_step verify m m' \<Longrightarrow> manager_inv verify m \<Longrightarrow> manager_inv verify m'"
proof (induction rule: manager_step.induct)
  case (connect_failed m p ec)
  then show ?case by (simp add: connect_failed_of_peer_def manager_inv_erase)
next
  case (closed m p)
  then show ?case by (simp add: closed_of_peer_def Let_def manager_inv_erase)
qed (auto simp: manager_inv_send manager_inv_connected warning_of_peer_def error_of_peer_def,
    auto simp: manager_inv_def manager_insert_secret_def clear_entries_def)

lemma manager_reachable_inv: "manager_reachable verify m \<Longrightarrow> manager_inv verify m"
  by (induction rule: manager_reachable.induct)
    (auto intro: manager_step_inv, simp add: manager_inv_def new_peer_manager_def)

end
