(* ===== verification/Shared_Dispatcher.thy ===== *)
theory Shared_Dispatcher
  imports Dispatcher
begin

text \<open>
  \<open>pqrs/dispatcher/extra/shared_dispatcher.hpp\<close>: one dispatcher for a whole process, made on demand and
  terminated once.  Its operations hold the mutex from beginning to end, so that each is a function of the
  state.  \<open>pqrs/dispatcher/time_source.hpp\<close>: the clock of a test, which is set by hand; the readings of the
  hardware clock are arguments wherever a clock is read.
\<close>

section \<open>The clock of a test\<close>

record pseudo_time_source =
  pseudo_now :: millis

definition new_pseudo_time_source :: pseudo_time_source where
  "new_pseudo_time_source = \<lparr>pseudo_now = 0\<rparr>"

definition set_now :: "millis \<Rightarrow> pseudo_time_source \<Rightarrow> pseudo_time_source" where
  "set_now t s = s\<lparr>pseudo_now := t\<rparr>"

section \<open>One dispatcher for a process\<close>

text \<open>The pointers to the clock and to the dispatcher, each of which may be empty.\<close>

record 'f shared_dispatcher =
  shared_time_source :: bool
  shared_disp :: "'f dispatcher option"

definition new_shared_dispatcher :: "'f shared_dispatcher" where
  "new_shared_dispatcher = \<lparr>shared_time_source = False, shared_disp = None\<rparr>"

text \<open>\<open>own\<close> is the id that a new dispatcher takes for itself.\<close>

definition shared_initialize :: "u64 \<Rightarrow> 'f shared_dispatcher \<Rightarrow> 'f shared_dispatcher" where
  "shared_initialize own s =
     (let s1 = (if \<not> shared_time_source s then s\<lparr>shared_time_source := True\<rparr> else s)
      in if shared_disp s1 = None then s1\<lparr>shared_disp := Some (initial_dispatcher own)\<rparr> else s1)"

text \<open>With the dispatcher that was terminated, which others may still hold.\<close>

definition shared_terminate ::
    "'f shared_dispatcher \<Rightarrow> 'f dispatcher option \<times> 'f shared_dispatcher" where
  "shared_terminate s =
     (case shared_disp s of
        Some d \<Rightarrow> (Some (terminate d), s\<lparr>shared_disp := None, shared_time_source := False\<rparr>)
      | None \<Rightarrow> (None, s\<lparr>shared_time_source := False\<rparr>))"

definition get_dispatcher :: "'f shared_dispatcher \<Rightarrow> 'f dispatcher option" where
  "get_dispatcher s = shared_disp s"

text \<open>The static pointer of \<open>get_shared_dispatcher\<close>, empty before the first call.\<close>

definition get_shared_dispatcher :: "'f shared_dispatcher option \<Rightarrow> 'f shared_dispatcher" where
  "get_shared_dispatcher p = (case p of None \<Rightarrow> new_shared_dispatcher | Some s \<Rightarrow> s)"

definition initialize_shared_dispatcher :: "u64 \<Rightarrow> 'f shared_dispatcher option \<Rightarrow> 'f shared_dispatcher option" where
  "initialize_shared_dispatcher own p = Some (shared_initialize own (get_shared_dispatcher p))"

definition terminate_shared_dispatcher ::
    "'f shared_dispatcher option \<Rightarrow> 'f dispatcher option \<times> 'f shared_dispatcher option" where
  "terminate_shared_dispatcher p =
     (case shared_terminate (get_shared_dispatcher p) of (d, s) \<Rightarrow> (d, Some s))"

section \<open>What a user can rely on\<close>

lemmas shared_defs = new_shared_dispatcher_def shared_initialize_def shared_terminate_def get_dispatcher_def
  get_shared_dispatcher_def initialize_shared_dispatcher_def terminate_shared_dispatcher_def

text \<open>A second \<open>initialize\<close> keeps the dispatcher of the first.\<close>

lemma initialize_keeps:
  "get_dispatcher s = Some d \<Longrightarrow> get_dispatcher (shared_initialize own s) = Some d"
  by (simp add: shared_defs Let_def)

lemma initialize_again: "shared_initialize own' (shared_initialize own s) = shared_initialize own s"
  by (simp add: shared_defs Let_def split: if_splits)

text \<open>
  Calls in any order: the process holds a dispatcher exactly when the last call that was not a
  repetition made one, and the one it holds has not been terminated.
\<close>

datatype shared_call = Initialize u64 | Terminate

fun shared_run :: "shared_call list \<Rightarrow> 'f shared_dispatcher option \<Rightarrow> 'f shared_dispatcher option" where
  "shared_run [] p = p"
| "shared_run (Initialize own # cs) p = shared_run cs (initialize_shared_dispatcher own p)"
| "shared_run (Terminate # cs) p = shared_run cs (snd (terminate_shared_dispatcher p))"

definition shared_ok :: "'f shared_dispatcher option \<Rightarrow> bool" where
  "shared_ok p \<longleftrightarrow> (let s = get_shared_dispatcher p in
     (shared_time_source s \<longleftrightarrow> shared_disp s \<noteq> None) \<and>
     (\<forall>d. shared_disp s = Some d \<longrightarrow> \<not> exiting d))"

lemma shared_initialize_ok: "shared_ok p \<Longrightarrow> shared_ok (initialize_shared_dispatcher own p)"
  by (auto simp: shared_ok_def shared_defs Let_def initial_dispatcher_def attach_def split: option.splits)

lemma shared_terminate_ok: "shared_ok (snd (terminate_shared_dispatcher p))"
  by (auto simp: shared_ok_def shared_defs Let_def split: option.splits)

lemma shared_run_ok: "shared_ok p \<Longrightarrow> shared_ok (shared_run cs p)"
  by (induction cs p rule: shared_run.induct) (simp_all add: shared_initialize_ok shared_terminate_ok)

lemma shared_initialize_some: "shared_disp (shared_initialize own s) \<noteq> None"
  by (simp add: shared_initialize_def Let_def)

lemma initialize_shared_some: "shared_disp (get_shared_dispatcher (initialize_shared_dispatcher own p)) \<noteq> None"
  using shared_initialize_some [of own "get_shared_dispatcher p"]
  by (simp add: initialize_shared_dispatcher_def get_shared_dispatcher_def)

lemma initialized_shared_dispatcher:
  "\<exists>d. get_dispatcher (get_shared_dispatcher (initialize_shared_dispatcher own (shared_run cs None))) = Some d \<and>
     \<not> exiting d"
proof -
  let ?p = "initialize_shared_dispatcher own (shared_run cs None)"
  have "shared_ok (shared_run cs None)"
    by (rule shared_run_ok) (simp add: shared_ok_def shared_defs)
  then have "shared_ok ?p" by (rule shared_initialize_ok)
  moreover have "shared_disp (get_shared_dispatcher ?p) \<noteq> None" by (rule initialize_shared_some)
  ultimately show ?thesis by (auto simp: shared_ok_def get_dispatcher_def Let_def)
qed

text \<open>The dispatcher that was terminated accepts nothing more, and nobody gets it from here.\<close>

lemma terminated_shared_dispatcher:
  assumes "terminate_shared_dispatcher p = (Some d, p')"
  shows "get_dispatcher (get_shared_dispatcher p') = None \<and> \<not> fst (enqueue oid f when d) \<and> \<not> fst (attach oid d)"
  using assms
  by (auto simp: shared_defs terminate_def enqueue_def attach_def split: option.splits)

end
