(* ===== verification/Heartbeat_Clock.thy ===== *)
theory Heartbeat_Clock
  imports Heartbeat_Timers
begin

text \<open>
  The heartbeat timer of one endpoint over one connection, with the worker of the dispatcher, as time
  passes: when \<open>next_heartbeat_deadline_exceeded\<close> is signalled, against a specification that only knows
  the time at which the deadline expires.
\<close>

section \<open>The specification\<close>

text \<open>
  At a reading of the clock a heartbeat has come, with its deadline, or not; \<open>due\<close> is when the deadline
  of the last heartbeat expires.  A heartbeat that comes late, but before the worker has looked at the
  clock again, still counts.
\<close>

fun deadline_step :: "millis \<Rightarrow> millis option \<Rightarrow> millis option \<Rightarrow> bool \<times> millis option" where
  "deadline_step now (Some deadline) due = (False, Some (now + deadline))"
| "deadline_step now None (Some t) = (if t \<le> now then (True, None) else (False, Some t))"
| "deadline_step now None None = (False, None)"

fun deadlines_exceeded :: "(millis \<times> u64 \<times> millis option) list \<Rightarrow> millis option \<Rightarrow> nat" where
  "deadlines_exceeded [] due = 0"
| "deadlines_exceeded ((now, new, hb) # evs) due =
     (case deadline_step now hb due of (b, due') \<Rightarrow> (if b then 1 else 0) + deadlines_exceeded evs due')"

section \<open>The worker\<close>

text \<open>At most \<open>n\<close> functions at the reading \<open>now\<close>; \<open>new\<close> is the id of a timer that is created.\<close>

fun hb_worker :: "millis \<Rightarrow> u64 \<Rightarrow> nat \<Rightarrow> heartbeat_timers \<Rightarrow> heartbeat_timers" where
  "hb_worker now new 0 st = st"
| "hb_worker now new (Suc n) st =
     (case hb_disp st of
        None \<Rightarrow> st
      | Some d \<Rightarrow>
          (case worker_take (Some now) d of
             (Worker_run e, d') \<Rightarrow>
               (case call_function e d' of
                  None \<Rightarrow> hb_worker now new n (st\<lparr>hb_disp := Some d'\<rparr>)
                | Some f \<Rightarrow> hb_worker now new n (run_hb (Some now) new f (st\<lparr>hb_disp := Some d'\<rparr>)))
           | (r, d') \<Rightarrow> st\<lparr>hb_disp := Some d'\<rparr>))"

text \<open>The io context's thread reports a heartbeat of the present connection.\<close>

definition report_heartbeat :: "millis \<Rightarrow> endpoint \<Rightarrow> heartbeat_timers \<Rightarrow> heartbeat_timers" where
  "report_heartbeat deadline ep st =
     st\<lparr>hb_disp := snd (enqueue_to_dispatcher (hb_owner st) (Hb_received (hb_generation st) deadline ep)
       when_immediately (hb_disp st))\<rparr>"

text \<open>One reading after the other: the time, the id of a new timer, and the heartbeat.\<close>

fun hb_clock ::
    "endpoint \<Rightarrow> nat \<Rightarrow> (millis \<times> u64 \<times> millis option) list \<Rightarrow> heartbeat_timers \<Rightarrow> heartbeat_timers" where
  "hb_clock ep n [] st = st"
| "hb_clock ep n ((now, new, hb) # evs) st =
     hb_clock ep n evs (hb_worker now new n
       (case hb of Some deadline \<Rightarrow> report_heartbeat deadline ep st | None \<Rightarrow> st))"

section \<open>What is queued between two readings\<close>

text \<open>The armed call of the task of the timer \<open>oid\<close> and those that were armed before, by due time.\<close>

definition fire_at :: "u64 \<Rightarrow> u64 \<times> millis \<Rightarrow> hb_fun dispatch_entry" where
  "fire_at oid p = \<lparr>object_id_value = oid, entry_function = Hb_timer oid (Debounce_fire () (fst p)),
     entry_when = snd p\<rparr>"

text \<open>The state but for the timers: two attached objects, the dispatcher and the owner.\<close>

definition hb_idle :: "u64 \<Rightarrow> heartbeat_timers \<Rightarrow> bool" where
  "hb_idle own st \<longleftrightarrow> hb_timers st = [] \<and>
     (\<exists>d. hb_disp st = Some d \<and> queue d = [] \<and> \<not> exiting d \<and> object_ids d = {own, hb_owner st})"

definition hb_armed :: "u64 \<Rightarrow> endpoint \<Rightarrow> u64 \<Rightarrow> u64 \<Rightarrow> (u64 \<times> millis) list \<Rightarrow> heartbeat_timers \<Rightarrow> bool" where
  "hb_armed own ep oid k fs st \<longleftrightarrow> oid \<notin> {own, hb_owner st} \<and>
     hb_timers st = [\<lparr>timer_oid = oid, timer_endpoint = ep, timer_task = \<lparr>task_generation = k\<rparr>,
       slot_generation = hb_generation st\<rparr>] \<and>
     (\<exists>d. hb_disp st = Some d \<and> queue d = map (fire_at oid) fs \<and> \<not> exiting d \<and>
       object_ids d = {own, hb_owner st, oid})"

text \<open>The calls: generations up to the present one, each once, by due time.\<close>

definition fires_ok :: "u64 \<Rightarrow> millis \<Rightarrow> (u64 \<times> millis) list \<Rightarrow> bool" where
  "fires_ok k t fs \<longleftrightarrow> (k, t) \<in> set fs \<and> distinct (map fst fs) \<and> sorted (map snd fs) \<and>
     (\<forall>(h, w) \<in> set fs. h \<le> k \<and> when_immediately < w)"

section \<open>One function at a time\<close>

definition without_hb_head :: "heartbeat_timers \<Rightarrow> heartbeat_timers" where
  "without_hb_head st = st\<lparr>hb_disp := map_option (\<lambda>d. d\<lparr>queue := tl (queue d)\<rparr>) (hb_disp st)\<rparr>"

lemma hb_worker_due:
  assumes "hb_disp st = Some d" and "\<not> exiting d" and "queue d = e # q" and "entry_when e \<le> max now when_immediately"
    and "object_id_value e \<in> object_ids d"
  shows "hb_worker now new (Suc n) st = hb_worker now new n (run_hb (Some now) new (entry_function e) (without_hb_head st))"
  using assms
  by (auto simp: worker_take_def call_function_def without_hb_head_def calculate_duration_def Let_def)

lemma hb_worker_idle:
  assumes "hb_disp st = Some d" and "queue d = [] \<or> max now when_immediately < entry_when (hd (queue d))"
  shows "hb_worker now new n st = st"
  using assms
  by (cases n) (auto simp: worker_take_def calculate_duration_def Let_def split: list.splits)

text \<open>A call that was armed before does nothing.\<close>

lemma stale_fire:
  assumes "hb_armed own ep oid k ((h, w) # fs) st" and "h \<noteq> k" and "w \<le> now"
  shows "hb_worker now new (Suc n) st = hb_worker now new n (without_hb_head st)"
    and "hb_armed own ep oid k fs (without_hb_head st)"
proof -
  obtain d where d: "hb_disp st = Some d" "queue d = fire_at oid (h, w) # map (fire_at oid) fs" "\<not> exiting d"
    "object_ids d = {own, hb_owner st, oid}"
    using assms(1) by (auto simp: hb_armed_def)
  show armed: "hb_armed own ep oid k fs (without_hb_head st)"
    using assms(1) by (auto simp: hb_armed_def without_hb_head_def)
  have "run_timer_closure oid (Debounce_fire () h) (without_hb_head st) = without_hb_head st"
    using armed assms(2) by (auto simp: hb_armed_def run_timer_closure_def update_task_def Let_def)
  then show "hb_worker now new (Suc n) st = hb_worker now new n (without_hb_head st)"
    using d assms(3) by (subst hb_worker_due [OF d(1,3,2)]) (simp_all add: fire_at_def)
qed

text \<open>The armed one signals, and the timer goes with everything that is queued for it.\<close>

lemma armed_fire:
  assumes "hb_armed own ep oid k ((k, t) # fs) st" and "t \<le> now"
  shows "\<exists>st'. hb_worker now new (Suc n) st = hb_worker now new n st' \<and> hb_idle own st' \<and>
    exceeded_signals st' = exceeded_signals st @ [ep] \<and> hb_owner st' = hb_owner st \<and>
    hb_generation st' = hb_generation st"
proof -
  obtain d where d: "hb_disp st = Some d" "queue d = fire_at oid (k, t) # map (fire_at oid) fs" "\<not> exiting d"
    "object_ids d = {own, hb_owner st, oid}"
    using assms(1) by (auto simp: hb_armed_def)
  let ?st = "run_timer_closure oid (Debounce_fire () k) (without_hb_head st)"
  have "filter (\<lambda>e. object_id_value e \<noteq> oid) (map (fire_at oid) fs) = []"
    by (simp add: filter_empty_conv fire_at_def)
  moreover have "{own, hb_owner st, oid} - {oid} = {own, hb_owner st}"
    using assms(1) by (auto simp: hb_armed_def)
  ultimately have "hb_idle own ?st \<and> exceeded_signals ?st = exceeded_signals st @ [ep] \<and> hb_owner ?st = hb_owner st \<and>
      hb_generation ?st = hb_generation st"
    using assms(1) d
    by (simp add: hb_armed_def hb_idle_def run_timer_closure_def without_hb_head_def update_task_def
        timer_exceeded_def destroy_timers_def detach_from_dispatcher_def detach_def Let_def)
  moreover have "hb_worker now new (Suc n) st = hb_worker now new n ?st"
    using d assms(2) by (subst hb_worker_due [OF d(1,3,2)]) (simp_all add: fire_at_def)
  ultimately show ?thesis by blast
qed

section \<open>One reading\<close>

definition same_connection :: "heartbeat_timers \<Rightarrow> heartbeat_timers \<Rightarrow> bool" where
  "same_connection st st' \<longleftrightarrow> hb_owner st' = hb_owner st \<and> hb_generation st' = hb_generation st"

lemma same_connection_refl [simp]: "same_connection st st"
  by (simp add: same_connection_def)

lemma same_connection_trans: "same_connection a b \<Longrightarrow> same_connection b c \<Longrightarrow> same_connection a c"
  by (simp add: same_connection_def)

lemma without_hb_head_fields [simp]:
  "same_connection st (without_hb_head st)" "exceeded_signals (without_hb_head st) = exceeded_signals st"
  by (simp_all add: without_hb_head_def same_connection_def)

lemma hb_worker_no_queue: "hb_idle own st \<Longrightarrow> hb_worker now new n st = st"
  by (auto simp: hb_idle_def intro: hb_worker_idle)

text \<open>The worker runs the calls that are due.\<close>

lemma fires_drained:
  assumes "hb_armed own ep oid k fs st" and "fires_ok k t fs" and "length fs \<le> n" and "0 < now"
  shows "same_connection st (hb_worker now new n st) \<and>
    (if t \<le> now
     then hb_idle own (hb_worker now new n st) \<and>
       exceeded_signals (hb_worker now new n st) = exceeded_signals st @ [ep]
     else exceeded_signals (hb_worker now new n st) = exceeded_signals st \<and>
       (\<exists>fs'. hb_armed own ep oid k fs' (hb_worker now new n st) \<and> fires_ok k t fs' \<and> length fs' \<le> length fs))"
  using assms
proof (induction fs arbitrary: st n)
  case Nil
  then show ?case by (simp add: fires_ok_def)
next
  case (Cons p fs)
  obtain h w where p: "p = (h, w)" by (cases p)
  obtain m where n: "n = Suc m" using Cons.prems(3) by (cases n) auto
  have kt: "(k, t) \<in> set ((h, w) # fs)" using Cons.prems(2) by (simp add: fires_ok_def p)
  show ?case
  proof (cases "w \<le> now")
    case False
    then have "now < t" using Cons.prems(2) kt by (auto simp: fires_ok_def p)
    moreover have "hb_worker now new n st = st"
      using Cons.prems(1,4) False
      by (auto simp: hb_armed_def p fire_at_def when_immediately_def intro!: hb_worker_idle)
    ultimately show ?thesis using Cons.prems(1,2) by auto
  next
    case True
    show ?thesis
    proof (cases "h = k")
      case hk: True
      then have "w = t"
        using Cons.prems(2) kt by (force simp: fires_ok_def p)
      with hk Cons.prems(1) p have "hb_armed own ep oid k ((k, t) # fs) st" by simp
      from armed_fire [OF this, of now new m] True \<open>w = t\<close> obtain u where
        "hb_worker now new n st = hb_worker now new m u" "hb_idle own u"
        "exceeded_signals u = exceeded_signals st @ [ep]" "same_connection st u"
        by (auto simp: n same_connection_def)
      with True \<open>w = t\<close> show ?thesis by (simp add: hb_worker_no_queue)
    next
      case hk: False
      have armed: "hb_armed own ep oid k ((h, w) # fs) st" using Cons.prems(1) p by simp
      have step: "hb_worker now new n st = hb_worker now new m (without_hb_head st)"
        and rest: "hb_armed own ep oid k fs (without_hb_head st)"
        using stale_fire [OF armed hk True] n by simp_all
      have "fires_ok k t fs" using Cons.prems(2) hk by (auto simp: fires_ok_def p)
      have len: "length fs \<le> m" using Cons.prems(3) n by simp
      note ih = Cons.IH [OF rest \<open>fires_ok k t fs\<close> len Cons.prems(4)]
      have same: "same_connection st (hb_worker now new n st)"
        using ih same_connection_trans [OF without_hb_head_fields(1)] by (simp add: step)
      show ?thesis
      proof (cases "t \<le> now")
        case True
        with ih same show ?thesis by (simp add: step)
      next
        case False
        with ih obtain fs' where "hb_armed own ep oid k fs' (hb_worker now new n st)" "fires_ok k t fs'"
          "length fs' \<le> length fs"
          by (auto simp: step)
        with False ih same show ?thesis by (auto simp: step intro!: exI [of _ fs'])
      qed
    qed
  qed
qed

text \<open>A request of the timer arms its next call.\<close>

lemma insert_upper_fire: "insert_upper entry_when (fire_at oid p) (map (fire_at oid) fs) = map (fire_at oid) (insert_upper snd p fs)"
  by (induction fs) (simp_all add: fire_at_def)

lemma rearmed:
  assumes "hb_armed own ep oid k fs st" and "\<forall>(h, w) \<in> set fs. when_immediately < w" and "0 < now" and "0 < deadline"
  shows "\<exists>st'. hb_worker now new (Suc n) (st\<lparr>hb_disp := set_timer (Some now) deadline oid (hb_disp st)\<rparr>)
        = hb_worker now new n st' \<and>
      hb_armed own ep oid (k + 1) (insert_upper snd (k + 1, now + deadline) fs) st' \<and> same_connection st st' \<and>
      exceeded_signals st' = exceeded_signals st"
proof -
  let ?st = "st\<lparr>hb_disp := set_timer (Some now) deadline oid (hb_disp st)\<rparr>"
  let ?f = "Hb_timer oid (Debounce_in_dispatcher () (now + deadline))"
  let ?e = "\<lparr>object_id_value = oid, entry_function = ?f, entry_when = when_immediately\<rparr>"
  obtain d where d: "hb_disp st = Some d" "queue d = map (fire_at oid) fs" "\<not> exiting d"
    "object_ids d = {own, hb_owner st, oid}"
    using assms(1) by (auto simp: hb_armed_def)
  have front: "insert_upper entry_when ?e (map (fire_at oid) fs) = ?e # map (fire_at oid) fs"
    using assms(2) by (cases fs) (auto simp: fire_at_def)
  have disp: "hb_disp ?st = Some (d\<lparr>queue := ?e # map (fire_at oid) fs\<rparr>)"
    using d front by (simp add: set_timer_def debounce_after_def debounce_at_def enqueue_to_dispatcher_def
        enqueue_def when_now_def when_immediately_def when_internal_detached_def Let_def)
  let ?u = "run_timer_closure oid (Debounce_in_dispatcher () (now + deadline)) st"
  have head: "without_hb_head ?st = st"
    using disp d by (cases st) (simp add: without_hb_head_def)
  have "hb_worker now new (Suc n) ?st = hb_worker now new n ?u"
    using disp d(3,4) head
    by (subst hb_worker_due [where d = "d\<lparr>queue := ?e # map (fire_at oid) fs\<rparr>" and e = ?e and q = "map (fire_at oid) fs"])
      simp_all
  moreover have "hb_armed own ep oid (k + 1) (insert_upper snd (k + 1, now + deadline) fs) ?u \<and> same_connection st ?u \<and>
      exceeded_signals ?u = exceeded_signals st"
    using assms(1,3,4) d insert_upper_fire [of oid "(k + 1, now + deadline)" fs]
    by (auto simp: hb_armed_def run_timer_closure_def debounce_in_dispatcher_def enqueue_to_dispatcher_def enqueue_def
        update_task_def same_connection_def when_internal_detached_def fire_at_def Let_def)
  ultimately show ?thesis by blast
qed

lemma distinct_insert_upper: "distinct (map fst (insert_upper snd p fs)) \<longleftrightarrow> distinct (map fst (p # fs))"
  by (induction fs) (auto simp: rev_image_eqI)

lemma fires_ok_insert:
  assumes "fires_ok k t fs \<or> fs = []" and "0 < now" and "0 < deadline" and "Suc (unat k) < 2 ^ 64"
  shows "fires_ok (k + 1) (now + deadline) (insert_upper snd (k + 1, now + deadline) fs)"
proof -
  have k: "unat (k + 1) = Suc (unat k)" using assms(4) by (simp add: unat_word_ariths(1))
  have less: "h < k + 1" if "h \<le> k" for h
    using that k by (simp add: word_less_nat_alt word_le_nat_alt)
  have old: "\<forall>p \<in> set fs. fst p \<le> k"
    using assms(1) by (fastforce simp: fires_ok_def)
  have "k + 1 \<notin> fst ` set fs"
    using old less by fastforce
  moreover have "\<forall>(h, w) \<in> set fs. h \<le> k + 1"
    using old less by (fastforce dest: less_imp_le)
  moreover have "distinct (map fst fs)" "sorted (map snd fs)" "\<forall>(h, w) \<in> set fs. when_immediately < w"
    using assms(1) by (auto simp: fires_ok_def)
  ultimately show ?thesis
    using assms(2,3) sorted_insert_upper [of snd fs "(k + 1, now + deadline)"]
    by (auto simp: fires_ok_def when_immediately_def distinct_insert_upper)
qed

text \<open>A heartbeat is handled first.\<close>

lemma report_handled:
  assumes "hb_disp st = Some d" and "\<not> exiting d" and "hb_owner st \<in> object_ids d"
    and "\<forall>e \<in> set (queue d). when_immediately < entry_when e"
  shows "hb_worker now new (Suc n) (report_heartbeat deadline ep st) =
    hb_worker now new n (heartbeat_received (Some now) new (hb_generation st) deadline ep st)"
proof -
  let ?e = "\<lparr>object_id_value = hb_owner st, entry_function = Hb_received (hb_generation st) deadline ep,
    entry_when = when_immediately\<rparr>"
  have "insert_upper entry_when ?e (queue d) = ?e # queue d"
    using assms(4) by (cases "queue d") auto
  then have disp: "hb_disp (report_heartbeat deadline ep st) = Some (d\<lparr>queue := ?e # queue d\<rparr>)"
    using assms(1-3) by (simp add: report_heartbeat_def enqueue_to_dispatcher_def enqueue_def Let_def
        when_immediately_def when_internal_detached_def)
  have "without_hb_head (report_heartbeat deadline ep st) = st"
    using disp assms(1) by (cases st) (simp add: without_hb_head_def report_heartbeat_def)
  then show ?thesis
    using disp assms(2,3)
    by (subst hb_worker_due [where d = "d\<lparr>queue := ?e # queue d\<rparr>" and e = ?e and q = "queue d"]) simp_all
qed

text \<open>Between two readings, after at most \<open>c\<close> heartbeats.\<close>

definition hb_between :: "u64 \<Rightarrow> endpoint \<Rightarrow> nat \<Rightarrow> millis option \<Rightarrow> heartbeat_timers \<Rightarrow> bool" where
  "hb_between own ep c due st \<longleftrightarrow>
     (case due of
        None \<Rightarrow> hb_idle own st
      | Some t \<Rightarrow> \<exists>oid k fs. hb_armed own ep oid k fs st \<and> fires_ok k t fs \<and> length fs \<le> c \<and> unat k \<le> c)"

lemma rearm_and_drain:
  assumes "hb_armed own ep oid k fs st" and "fires_ok k t fs \<or> fs = []" and "length fs \<le> c" and "unat k \<le> c"
    and "Suc c < 2 ^ 64" and "Suc (Suc c) \<le> n" and "0 < now" and "0 < deadline"
    and "u = hb_worker now new n (st\<lparr>hb_disp := set_timer (Some now) deadline oid (hb_disp st)\<rparr>)"
  shows "hb_between own ep (Suc c) (Some (now + deadline)) u \<and> same_connection st u \<and>
    exceeded_signals u = exceeded_signals st"
proof -
  obtain m where n: "n = Suc m" using assms(6) by (cases n) auto
  let ?fs = "insert_upper snd (k + 1, now + deadline) fs"
  have "\<forall>(h, w) \<in> set fs. when_immediately < w" using assms(2) by (auto simp: fires_ok_def)
  from rearmed [OF assms(1) this assms(7,8), of new m] obtain v where
    v: "u = hb_worker now new m v" "hb_armed own ep oid (k + 1) ?fs v" "same_connection st v"
    "exceeded_signals v = exceeded_signals st"
    using assms(9) n by auto
  have k: "unat (k + 1) \<le> Suc c" using assms(4,5) by (simp add: unat_word_ariths(1))
  have ok: "fires_ok (k + 1) (now + deadline) ?fs"
    using assms(4,5) by (intro fires_ok_insert [OF assms(2,7,8)]) simp
  have "length ?fs \<le> m" using assms(3,6) n by simp
  from fires_drained [OF v(2) ok this assms(7), of new] assms(8)
  have d: "same_connection v u" "exceeded_signals u = exceeded_signals v"
    "\<exists>fs'. hb_armed own ep oid (k + 1) fs' u \<and> fires_ok (k + 1) (now + deadline) fs' \<and> length fs' \<le> length ?fs"
    by (simp_all add: v(1))
  then obtain fs' where "hb_armed own ep oid (k + 1) fs' u" "fires_ok (k + 1) (now + deadline) fs'"
    "length fs' \<le> length ?fs" by blast
  moreover have "length ?fs \<le> Suc c" using assms(3) by simp
  ultimately have "hb_between own ep (Suc c) (Some (now + deadline)) u"
    using k by (auto simp: hb_between_def intro: order_trans)
  with d(1,2) v(3,4) show ?thesis by (auto intro: same_connection_trans)
qed

lemma heartbeat_reading:
  assumes between: "hb_between own ep c due st" and "new \<notin> {own, hb_owner st}"
    and "Suc c < 2 ^ 64" and "c + 3 \<le> n" and "0 < now" and "0 < deadline"
    and u: "u = hb_worker now new n (report_heartbeat deadline ep st)"
  shows "hb_between own ep (Suc c) (Some (now + deadline)) u \<and> same_connection st u \<and>
    exceeded_signals u = exceeded_signals st"
proof -
  obtain m where n: "n = Suc m" and m: "Suc (Suc c) \<le> m" using assms(4) by (cases n) auto
  show ?thesis
  proof (cases due)
    case None
    then obtain d where d: "hb_timers st = []" "hb_disp st = Some d" "queue d = []" "\<not> exiting d"
      "object_ids d = {own, hb_owner st}"
      using between by (auto simp: hb_between_def hb_idle_def)
    let ?st = "st\<lparr>hb_timers := [\<lparr>timer_oid = new, timer_endpoint = ep, timer_task = initial_debounced_task,
      slot_generation = hb_generation st\<rparr>], hb_disp := client_attach new (hb_disp st)\<rparr>"
    have armed: "hb_armed own ep new 0 [] ?st"
      using d assms(2)
      by (auto simp: hb_armed_def client_attach_def attach_def initial_debounced_task_def)
    have "heartbeat_received (Some now) new (hb_generation st) deadline ep st =
        ?st\<lparr>hb_disp := set_timer (Some now) deadline new (hb_disp ?st)\<rparr>"
      using d by (simp add: heartbeat_received_def new_timer_def)
    then have "u = hb_worker now new m (?st\<lparr>hb_disp := set_timer (Some now) deadline new (hb_disp ?st)\<rparr>)"
      using report_handled [OF d(2,4), of now new m deadline ep] d(3,5) u n by simp
    from rearm_and_drain [OF armed _ _ _ assms(3) m assms(5,6) this]
    show ?thesis by (simp add: same_connection_def)
  next
    case (Some t)
    then obtain oid k fs where f: "hb_armed own ep oid k fs st" "fires_ok k t fs" "length fs \<le> c" "unat k \<le> c"
      using between by (auto simp: hb_between_def)
    obtain d where d: "hb_disp st = Some d" "queue d = map (fire_at oid) fs" "\<not> exiting d"
      "object_ids d = {own, hb_owner st, oid}"
      using f(1) by (auto simp: hb_armed_def)
    have later: "\<forall>e \<in> set (queue d). when_immediately < entry_when e"
      using f(2) d(2) by (auto simp: fires_ok_def fire_at_def)
    have "heartbeat_received (Some now) new (hb_generation st) deadline ep st =
        st\<lparr>hb_disp := set_timer (Some now) deadline oid (hb_disp st)\<rparr>"
      using f(1) by (auto simp: hb_armed_def heartbeat_received_def)
    then have "u = hb_worker now new m (st\<lparr>hb_disp := set_timer (Some now) deadline oid (hb_disp st)\<rparr>)"
      using report_handled [OF d(1,3) _ later, of now new m deadline ep] d(4) u n by simp
    from rearm_and_drain [OF f(1) disjI1 [OF f(2)] f(3,4) assms(3) m assms(5,6) this] show ?thesis .
  qed
qed

lemma silent_reading:
  assumes between: "hb_between own ep c due st" and "c \<le> n" and "0 < now"
    and u: "u = hb_worker now new n st"
  shows "hb_between own ep c (snd (deadline_step now None due)) u \<and> same_connection st u \<and>
    exceeded_signals u = exceeded_signals st @ (if fst (deadline_step now None due) then [ep] else [])"
proof (cases due)
  case None
  with between u show ?thesis by (simp add: hb_between_def hb_worker_no_queue)
next
  case (Some t)
  then obtain oid k fs where f: "hb_armed own ep oid k fs st" "fires_ok k t fs" "length fs \<le> c" "unat k \<le> c"
    using between by (auto simp: hb_between_def)
  have "length fs \<le> n" using f(3) assms(2) by simp
  from fires_drained [OF f(1,2) this assms(3), of new] show ?thesis
    using f(3,4) by (cases "t \<le> now") (auto simp: Some u hb_between_def intro: order_trans)
qed

text \<open>All the readings.\<close>

lemma clock_refines:
  assumes "hb_between own ep c due st" and "c + length evs < 2 ^ 64" and "c + length evs + 2 \<le> n"
    and "\<forall>(now, new, hb) \<in> set evs. 0 < now \<and> new \<notin> {own, hb_owner st} \<and> (\<forall>deadline. hb = Some deadline \<longrightarrow> 0 < deadline)"
  shows "exceeded_signals (hb_clock ep n evs st) = exceeded_signals st @ replicate (deadlines_exceeded evs due) ep"
  using assms
proof (induction evs arbitrary: c due st)
  case Nil
  then show ?case by simp
next
  case (Cons ev evs)
  obtain now new hb where ev: "ev = (now, new, hb)" by (cases ev)
  let ?u = "hb_worker now new n (case hb of Some deadline \<Rightarrow> report_heartbeat deadline ep st | None \<Rightarrow> st)"
  let ?s = "deadline_step now hb due"
  have "hb_between own ep (Suc c) (snd ?s) ?u \<and> same_connection st ?u \<and>
      exceeded_signals ?u = exceeded_signals st @ (if fst ?s then [ep] else [])"
  proof (cases hb)
    case None
    from silent_reading [OF Cons.prems(1), of n now _ new] Cons.prems(3,4) ev None
    have "hb_between own ep c (snd ?s) ?u \<and> same_connection st ?u \<and>
      exceeded_signals ?u = exceeded_signals st @ (if fst ?s then [ep] else [])" by simp
    then show ?thesis by (force simp: hb_between_def split: option.splits)
  next
    case (Some deadline)
    from heartbeat_reading [OF Cons.prems(1), of new n now deadline] Cons.prems(2-4) ev Some
    show ?thesis by simp
  qed
  moreover from this have "hb_owner ?u = hb_owner st" by (simp add: same_connection_def)
  ultimately show ?case
    using Cons.IH [of "Suc c" "snd ?s" ?u] Cons.prems(2-4)
    by (simp add: ev split: prod.splits)
qed

section \<open>The property\<close>

text \<open>
  C18. The deadline of a sender is signalled exactly when the specification says so: once for each time
  that the worker, at a reading of the clock, finds that the deadline announced by the last heartbeat has
  passed; never while heartbeats come in time, whatever calls of earlier heartbeats are still queued; and
  after a signal only a new heartbeat starts a new deadline.
\<close>

theorem deadline_signalled_after_silence:
  assumes "hb_timers st = []" and "hb_disp st = Some d" and "queue d = []" and "\<not> exiting d"
    and "object_ids d = {own, hb_owner st}" and "length evs < 2 ^ 64" and "length evs + 2 \<le> n"
    and "\<forall>(now, new, hb) \<in> set evs. 0 < now \<and> new \<notin> {own, hb_owner st} \<and> (\<forall>deadline. hb = Some deadline \<longrightarrow> 0 < deadline)"
  shows "exceeded_signals (hb_clock ep n evs st) = exceeded_signals st @ replicate (deadlines_exceeded evs None) ep"
proof (rule clock_refines [of own ep 0 None st])
  show "hb_between own ep 0 None st" using assms(1-5) by (simp add: hb_between_def hb_idle_def)
qed (use assms(6-8) in simp_all)

text \<open>Two heartbeats, silence, and another heartbeat.\<close>

definition sample_quiet :: heartbeat_timers where
  "sample_quiet = \<lparr>hb_owner = 2, hb_generation = 0, hb_timers = [],
     hb_disp = Some \<lparr>queue = [], exiting = False, own_object_id = 1, object_ids = {1, 2},
                     running_function_object_id = None\<rparr>,
     exceeded_signals = [], closed_signals = 0\<rparr>"

definition sample_readings :: "(millis \<times> u64 \<times> millis option) list" where
  "sample_readings = [(100, 3, Some 3000), (2500, 4, Some 3000), (4000, 5, None), (5600, 6, None),
     (9000, 7, None), (9500, 8, Some 3000), (12000, 9, None)]"

theorem deadline_signalled_after_silence_witness:
  "exceeded_signals (hb_clock (Endpoint ''e'') 9 sample_readings sample_quiet) = [Endpoint ''e'']"
proof -
  have "exceeded_signals (hb_clock (Endpoint ''e'') 9 sample_readings sample_quiet) =
      exceeded_signals sample_quiet @ replicate (deadlines_exceeded sample_readings None) (Endpoint ''e'')"
    by (rule deadline_signalled_after_silence [of _ "the (hb_disp sample_quiet)" 1]) (simp_all add: sample_quiet_def sample_readings_def)
  then show ?thesis by (simp add: sample_quiet_def sample_readings_def)
qed

end
