(* ===== verification/Example_Peers.thy ===== *)
theory Example_Peers
  imports Peer_Manager Endpoint
begin

text \<open>
  \<open>example/extra_peer_manager_example.hpp\<close>: a server that gives each peer a secret and answers only
  the messages that carry it, over a peer manager, and the client that talks to it.

  The payloads are JSON texts.  Reading and printing them (\<open>nlohmann::json::parse\<close> and \<open>dump\<close>) are
  the parameters \<open>parse\<close>, \<open>None\<close> when it throws, and \<open>dump\<close>; how a JSON value is then read is
  modelled as far as the example uses it.  \<open>'x\<close> is the type of the floating point numbers and
  \<open>cast\<close> their conversion to \<open>uint8_t\<close>.
\<close>

section \<open>Payloads\<close>

datatype payload_type = Handshake | Shared_secret | Message | Message_response

datatype 'x json =
    Json_null
  | Json_bool bool
  | Json_number int
  | Json_float 'x
  | Json_string string
  | Json_array "'x json list"
  | Json_object "(string \<times> 'x json) list"

text \<open>The table of \<open>NLOHMANN_JSON_SERIALIZE_ENUM\<close>.\<close>

definition payload_names :: "(payload_type \<times> string) list" where
  "payload_names =
     [(Handshake, ''handshake''), (Shared_secret, ''shared_secret''), (Message, ''message''),
      (Message_response, ''message_response'')]"

text \<open>\<open>to_json\<close> and \<open>from_json\<close> both fall back on the first pair of the table.\<close>

definition payload_to_json :: "payload_type \<Rightarrow> 'x json" where
  "payload_to_json t =
     Json_string (case find (\<lambda>(u, n). u = t) payload_names of
                    Some (u, n) \<Rightarrow> n | None \<Rightarrow> snd (hd payload_names))"

definition payload_from_json :: "'x json \<Rightarrow> payload_type" where
  "payload_from_json j =
     (case find (\<lambda>(u, n). Json_string n = j) payload_names of
        Some (u, n) \<Rightarrow> u | None \<Rightarrow> fst (hd payload_names))"

text \<open>What the library throws; the slots catch \<open>std::exception\<close>.\<close>

datatype json_exception = Parse_error | Type_error

text \<open>
  \<open>json[key]\<close> on a value that is not constant: a missing member is inserted as \<open>null\<close>, a \<open>null\<close>
  becomes an object first, every other value throws.  What is inserted is \<open>null\<close>, so that looking
  another key up afterwards finds what it would have found before.
\<close>

fun json_at :: "string \<Rightarrow> 'x json \<Rightarrow> json_exception + 'x json" where
  "json_at key Json_null = Inr Json_null"
| "json_at key (Json_object ms) =
     Inr (case map_of ms key of Some j \<Rightarrow> j | None \<Rightarrow> Json_null)"
| "json_at key _ = Inl Type_error"

text \<open>\<open>get<uint8_t>\<close> and \<open>get<std::vector<uint8_t>>\<close>: numbers are cast, anything else throws.\<close>

fun json_byte :: "('x \<Rightarrow> u8) \<Rightarrow> 'x json \<Rightarrow> json_exception + u8" where
  "json_byte cast (Json_number n) = Inr (word_of_int n)"
| "json_byte cast (Json_float x) = Inr (cast x)"
| "json_byte cast (Json_bool b) = Inr (if b then 1 else 0)"
| "json_byte cast _ = Inl Type_error"

fun json_elements :: "('x \<Rightarrow> u8) \<Rightarrow> 'x json list \<Rightarrow> json_exception + bytes" where
  "json_elements cast [] = Inr []"
| "json_elements cast (j # js) =
     (case json_byte cast j of
        Inl e \<Rightarrow> Inl e
      | Inr b \<Rightarrow> (case json_elements cast js of Inl e \<Rightarrow> Inl e | Inr bs \<Rightarrow> Inr (b # bs)))"

fun json_bytes :: "('x \<Rightarrow> u8) \<Rightarrow> 'x json \<Rightarrow> json_exception + bytes" where
  "json_bytes cast (Json_array js) = json_elements cast js"
| "json_bytes cast _ = Inl Type_error"

definition json_of_bytes :: "bytes \<Rightarrow> 'x json" where
  "json_of_bytes v = Json_array (map (\<lambda>b. Json_number (uint b)) v)"

definition handshake_payload :: "'x json" where
  "handshake_payload = Json_object [(''type'', payload_to_json Handshake)]"

definition secret_payload :: "bytes \<Rightarrow> 'x json" where
  "secret_payload k =
     Json_object [(''type'', payload_to_json Shared_secret), (''secret'', json_of_bytes k)]"

definition message_payload :: "bytes \<Rightarrow> 'x json" where
  "message_payload k =
     Json_object [(''type'', payload_to_json Message), (''message'', Json_string ''hello''),
       (''secret'', json_of_bytes k)]"

definition response_payload :: "string \<Rightarrow> 'x json" where
  "response_payload m =
     Json_object [(''type'', payload_to_json Message_response), (''message_response'', Json_string m)]"

section \<open>The server\<close>

text \<open>
  The peer manager and the messages it was asked to send: the functions it has enqueued, which the
  dispatcher runs in order.
\<close>

record example_server =
  ex_manager :: peer_manager
  ex_queue :: "(path \<times> bytes) list"

definition new_example_server :: example_server where
  "new_example_server = \<lparr>ex_manager = new_peer_manager, ex_queue = []\<rparr>"

text \<open>Every peer is accepted.\<close>

definition verify_example_peer :: "int option \<Rightarrow> path \<Rightarrow> bool" where
  "verify_example_peer pid p = True"

definition manager_async_send :: "path \<Rightarrow> bytes \<Rightarrow> example_server \<Rightarrow> example_server" where
  "manager_async_send p v s = s\<lparr>ex_queue := ex_queue s @ [(p, v)]\<rparr>"

definition with_manager :: "(peer_manager \<Rightarrow> peer_manager) \<Rightarrow> example_server \<Rightarrow> example_server" where
  "with_manager f s = s\<lparr>ex_manager := f (ex_manager s)\<rparr>"

text \<open>The two cases of the switch; \<open>k\<close> is what \<open>arc4random_buf\<close> filled the secret with.\<close>

definition answer_handshake ::
    "('x json \<Rightarrow> bytes) \<Rightarrow> bytes \<Rightarrow> path \<Rightarrow> example_server \<Rightarrow> example_server" where
  "answer_handshake dump k p s =
     manager_async_send p (dump (secret_payload k)) (with_manager (manager_insert_secret p k) s)"

definition answer_message ::
    "('x json \<Rightarrow> bytes) \<Rightarrow> bytes \<Rightarrow> path \<Rightarrow> example_server \<Rightarrow> example_server" where
  "answer_message dump k p s =
     manager_async_send p
       (dump (response_payload
          (if verify_shared_secret p k (pm_secrets (ex_manager s)) then ''world'' else ''invalid secret'')))
       s"

text \<open>The slot of \<open>received\<close> inside its \<open>try\<close>, and with the \<open>catch\<close>, which prints and goes on.\<close>

definition server_try ::
    "(bytes \<Rightarrow> 'x json option) \<Rightarrow> ('x json \<Rightarrow> bytes) \<Rightarrow> ('x \<Rightarrow> u8) \<Rightarrow> bytes \<Rightarrow> bytes \<Rightarrow> endpoint
      \<Rightarrow> example_server \<Rightarrow> json_exception + example_server" where
  "server_try parse dump cast k v ep s =
     (case parse v of
        None \<Rightarrow> Inl Parse_error
      | Some j \<Rightarrow>
          (case json_at ''type'' j of
             Inl e \<Rightarrow> Inl e
           | Inr t \<Rightarrow>
               (case payload_from_json t of
                  Handshake \<Rightarrow> Inr (answer_handshake dump k (endpoint_path ep) s)
                | Message \<Rightarrow>
                    (case json_at ''secret'' j of
                       Inl e \<Rightarrow> Inl e
                     | Inr js \<Rightarrow>
                         (case json_bytes cast js of
                            Inl e \<Rightarrow> Inl e
                          | Inr k' \<Rightarrow> Inr (answer_message dump k' (endpoint_path ep) s)))
                | _ \<Rightarrow> Inr s)))"

definition server_received ::
    "(bytes \<Rightarrow> 'x json option) \<Rightarrow> ('x json \<Rightarrow> bytes) \<Rightarrow> ('x \<Rightarrow> u8) \<Rightarrow> bytes \<Rightarrow> bytes \<Rightarrow> endpoint
      \<Rightarrow> example_server \<Rightarrow> example_server" where
  "server_received parse dump cast k v ep s =
     (case server_try parse dump cast k v ep s of Inl e \<Rightarrow> s | Inr s' \<Rightarrow> s')"

text \<open>The dispatcher runs the oldest function of the manager; \<open>i\<close> is the identity of a new entry.\<close>

definition run_manager :: "nat \<Rightarrow> example_server \<Rightarrow> example_server" where
  "run_manager i s =
     (case ex_queue s of
        [] \<Rightarrow> s
      | (p, v) # q \<Rightarrow> with_manager (manager_send i p v) (s\<lparr>ex_queue := q\<rparr>))"

section \<open>The client\<close>

text \<open>The calls made to the \<open>client\<close>, and whether the main thread was notified.\<close>

record example_client =
  client_calls :: "client_call list"
  notified :: bool

definition new_example_client :: example_client where
  "new_example_client = \<lparr>client_calls = [Call_start], notified = False\<rparr>"

definition client_says :: "bytes \<Rightarrow> example_client \<Rightarrow> example_client" where
  "client_says v c = c\<lparr>client_calls := client_calls c @ [Call_send v]\<rparr>"

definition notify :: "example_client \<Rightarrow> example_client" where
  "notify c = c\<lparr>notified := True\<rparr>"

definition client_connected :: "('x json \<Rightarrow> bytes) \<Rightarrow> example_client \<Rightarrow> example_client" where
  "client_connected dump c = client_says (dump handshake_payload) c"

definition client_try ::
    "(bytes \<Rightarrow> 'x json option) \<Rightarrow> ('x json \<Rightarrow> bytes) \<Rightarrow> ('x \<Rightarrow> u8) \<Rightarrow> bytes
      \<Rightarrow> example_client \<Rightarrow> json_exception + example_client" where
  "client_try parse dump cast v c =
     (case parse v of
        None \<Rightarrow> Inl Parse_error
      | Some j \<Rightarrow>
          (case json_at ''type'' j of
             Inl e \<Rightarrow> Inl e
           | Inr t \<Rightarrow>
               (case payload_from_json t of
                  Shared_secret \<Rightarrow>
                    (case json_at ''secret'' j of
                       Inl e \<Rightarrow> Inl e
                     | Inr js \<Rightarrow>
                         (case json_bytes cast js of
                            Inl e \<Rightarrow> Inl e
                          | Inr k \<Rightarrow> Inr (client_says (dump (message_payload k)) c)))
                | Message_response \<Rightarrow> Inr (notify c)
                | _ \<Rightarrow> Inr c)))"

definition client_received ::
    "(bytes \<Rightarrow> 'x json option) \<Rightarrow> ('x json \<Rightarrow> bytes) \<Rightarrow> ('x \<Rightarrow> u8) \<Rightarrow> bytes
      \<Rightarrow> example_client \<Rightarrow> example_client" where
  "client_received parse dump cast v c =
     (case client_try parse dump cast v c of Inl e \<Rightarrow> notify c | Inr c' \<Rightarrow> c')"

section \<open>Reading back what was printed\<close>

lemma payload_from_json_to_json [simp]: "payload_from_json (payload_to_json t) = t"
  by (cases t) (simp_all add: payload_from_json_def payload_to_json_def payload_names_def)

text \<open>Anything that is not one of the four names is read as a handshake.\<close>

lemma payload_from_json_other:
  assumes "\<And>t. j \<noteq> payload_to_json t"
  shows "payload_from_json j = Handshake"
proof -
  have "Json_string n \<noteq> j" if "(t, n) \<in> set payload_names" for t n
    using that assms [of t] by (auto simp: payload_to_json_def payload_names_def)
  then have "find (\<lambda>(t, n). Json_string n = j) payload_names = None"
    by (auto simp: find_None_iff)
  then show ?thesis by (simp add: payload_from_json_def payload_names_def)
qed

lemma json_bytes_of_bytes [simp]: "json_bytes cast (json_of_bytes v) = Inr v"
  by (induction v) (simp_all add: json_of_bytes_def)

lemma payload_members [simp]:
  "json_at ''type'' handshake_payload = Inr (payload_to_json Handshake)"
  "json_at ''type'' (secret_payload k) = Inr (payload_to_json Shared_secret)"
  "json_at ''secret'' (secret_payload k) = Inr (json_of_bytes k)"
  "json_at ''type'' (message_payload k) = Inr (payload_to_json Message)"
  "json_at ''secret'' (message_payload k) = Inr (json_of_bytes k)"
  "json_at ''type'' (response_payload m) = Inr (payload_to_json Message_response)"
  by (simp_all add: handshake_payload_def secret_payload_def message_payload_def response_payload_def)

text \<open>The four payloads are told apart by their types.\<close>

lemma payload_names_differ [simp]:
  "payload_to_json t = payload_to_json u \<longleftrightarrow> t = u"
  by (metis payload_from_json_to_json)

lemma payloads_differ [simp]:
  "handshake_payload \<noteq> secret_payload k" "handshake_payload \<noteq> message_payload k"
  "handshake_payload \<noteq> response_payload m" "secret_payload k \<noteq> handshake_payload"
  "secret_payload k \<noteq> message_payload k'" "secret_payload k \<noteq> response_payload m"
  "message_payload k \<noteq> handshake_payload" "message_payload k \<noteq> secret_payload k'"
  "message_payload k \<noteq> response_payload m" "response_payload m \<noteq> handshake_payload"
  "response_payload m \<noteq> secret_payload k" "response_payload m \<noteq> message_payload k"
  by (auto simp: handshake_payload_def secret_payload_def message_payload_def response_payload_def)

text \<open>What the slots do with the payloads the two programs send each other.\<close>

lemma server_received_payloads:
  "parse v = Some handshake_payload \<Longrightarrow>
   server_received parse dump cast k v (Endpoint p) s = answer_handshake dump k p s"
  "parse v = Some (message_payload k') \<Longrightarrow>
   server_received parse dump cast k v (Endpoint p) s = answer_message dump k' p s"
  by (simp_all add: server_received_def server_try_def)

lemma client_received_payloads:
  "parse v = Some (secret_payload k) \<Longrightarrow>
   client_received parse dump cast v c = client_says (dump (message_payload k)) c"
  "parse v = Some (response_payload m) \<Longrightarrow> client_received parse dump cast v c = notify c"
  by (simp_all add: client_received_def client_try_def)

section \<open>What happens to the server\<close>

text \<open>
  A datagram from an endpoint, with the secret the server would make up for it; the dispatcher running
  a function of the manager; the signals of the manager's clients.
\<close>

datatype server_event =
    Gets bytes bytes endpoint
  | Runs nat
  | Peer_connects nat path "int option"
  | Peer_fails path error_code
  | Peer_closes path

fun run_server_event ::
    "(bytes \<Rightarrow> 'x json option) \<Rightarrow> ('x json \<Rightarrow> bytes) \<Rightarrow> ('x \<Rightarrow> u8) \<Rightarrow> server_event
      \<Rightarrow> example_server \<Rightarrow> example_server" where
  "run_server_event parse dump cast (Gets k v ep) s = server_received parse dump cast k v ep s"
| "run_server_event parse dump cast (Runs i) s = run_manager i s"
| "run_server_event parse dump cast (Peer_connects i p pid) s =
     with_manager (connected_slot verify_example_peer i p pid) s"
| "run_server_event parse dump cast (Peer_fails p ec) s = with_manager (connect_failed_of_peer p ec) s"
| "run_server_event parse dump cast (Peer_closes p) s = with_manager (closed_of_peer p) s"

text \<open>How the server reads the type of a datagram, \<open>None\<close> when that throws.\<close>

definition received_type :: "(bytes \<Rightarrow> 'x json option) \<Rightarrow> bytes \<Rightarrow> payload_type option" where
  "received_type parse v =
     (case parse v of
        None \<Rightarrow> None
      | Some j \<Rightarrow>
          (case json_at ''type'' j of Inl e \<Rightarrow> None | Inr t \<Rightarrow> Some (payload_from_json t)))"

text \<open>
  The secret a peer was given, from the history alone (the newest event first): the one made up for
  its last handshake, unless the client of the peer has closed or failed since.
\<close>

fun issued :: "(bytes \<Rightarrow> 'x json option) \<Rightarrow> server_event list \<Rightarrow> path \<Rightarrow> bytes option" where
  "issued parse [] p = None"
| "issued parse (Gets k v ep # es) p =
     (if endpoint_path ep = p \<and> received_type parse v = Some Handshake then Some k
      else issued parse es p)"
| "issued parse (Peer_fails q ec # es) p = (if q = p then None else issued parse es p)"
| "issued parse (Peer_closes q # es) p = (if q = p then None else issued parse es p)"
| "issued parse (_ # es) p = issued parse es p"

definition secret_of :: "path \<Rightarrow> example_server \<Rightarrow> bytes option" where
  "secret_of p s = find_shared_secret p (pm_secrets (ex_manager s))"

lemma manager_secrets [simp]:
  "pm_secrets (manager_send i p v m) = pm_secrets m"
  "pm_secrets (connected_slot verify i p pid m) = pm_secrets m"
  "pm_secrets (connect_failed_of_peer p ec m) = erase_shared_secret p (pm_secrets m)"
  "pm_secrets (closed_of_peer p m) = erase_shared_secret p (pm_secrets m)"
  "pm_secrets (manager_insert_secret p k m) = insert_shared_secret p k (pm_secrets m)"
  by (simp_all add: manager_send_def connected_slot_def connect_failed_of_peer_def closed_of_peer_def
      report_def erase_peer_def put_entry_def manager_insert_secret_def Let_def split: option.splits)

lemma secret_of_received:
  "secret_of p (server_received parse dump cast k v ep s) =
     (if endpoint_path ep = p \<and> received_type parse v = Some Handshake then Some k else secret_of p s)"
  by (auto simp: server_received_def server_try_def received_type_def answer_handshake_def
      answer_message_def manager_async_send_def with_manager_def secret_of_def secrets.get_put
      split: option.splits sum.splits payload_type.splits)

lemma secret_of_event:
  "secret_of p (run_server_event parse dump cast e s) =
     (case e of
        Gets k v ep \<Rightarrow>
          if endpoint_path ep = p \<and> received_type parse v = Some Handshake then Some k else secret_of p s
      | Peer_fails q ec \<Rightarrow> if q = p then None else secret_of p s
      | Peer_closes q \<Rightarrow> if q = p then None else secret_of p s
      | _ \<Rightarrow> secret_of p s)"
  by (cases e) (auto simp: secret_of_received, auto simp: secret_of_def with_manager_def run_manager_def
      secrets.get_remove split: list.splits)

lemma secret_of_history:
  "secret_of p (fold (run_server_event parse dump cast) evs new_example_server) = issued parse (rev evs) p"
proof (induction evs rule: rev_induct)
  case Nil
  then show ?case
    by (simp add: secret_of_def new_example_server_def new_peer_manager_def find_shared_secret_def)
next
  case (snoc e evs)
  then show ?case by (cases e) (simp_all add: secret_of_event del: run_server_event.simps)
qed

section \<open>The entry of a peer\<close>

lemma manager_send_entry:
  "map_of (pm_entries (manager_send i p v m)) p = Some (entry_async_send v
     (case map_of (pm_entries m) p of Some e \<Rightarrow> e | None \<Rightarrow> call_client Call_start (new_entry i)))"
  by (simp add: manager_send_def put_entry_def Let_def update_conv')

lemma connected_slot_entry:
  "map_of (pm_entries m) p = Some e \<Longrightarrow> entry_id e = i \<Longrightarrow>
   map_of (pm_entries (connected_slot verify i p pid m)) p =
     Some (flush (set_verified (verify pid p) (set_connected True e)))"
  by (simp add: connected_slot_def put_entry_def update_conv')

lemma run_manager_only:
  "ex_queue s = [] \<Longrightarrow>
   run_manager i (manager_async_send p v s) = with_manager (manager_send i p v) s"
  by (simp add: run_manager_def manager_async_send_def with_manager_def)

end
