(* ===== verification/Example_Main.thy ===== *)
theory Example_Main
  imports Datagram_Client Datagram_Server "HOL-Library.Char_ord"
begin

text \<open>
  \<open>example/main.cpp\<close>: a server that echoes what it receives and a client that sends four datagrams,
  the last of them longer than the server's buffer.  What they print is the text \<open>console\<close>;
  \<open>message\<close> is \<open>error_code::message\<close> and \<open>show_endpoint\<close> how an endpoint is printed.
\<close>

section \<open>Printing\<close>

fun decimal :: "nat \<Rightarrow> string" where
  "decimal n = (if n < 10 then [char_of (48 + n)] else decimal (n div 10) @ [char_of (48 + n mod 10)])"

declare decimal.simps [simp del]

definition decimal_int :: "int \<Rightarrow> string" where
  "decimal_int i = (if i < 0 then ''-'' @ decimal (nat (- i)) else decimal (nat i))"

definition endl :: string where
  "endl = [CHR 0x0A]"

definition char_of_byte :: "u8 \<Rightarrow> char" where
  "char_of_byte b = char_of (unat b)"

definition bytes_of_string :: "string \<Rightarrow> bytes" where
  "bytes_of_string = map (\<lambda>c. of_nat (of_char c))"

text \<open>The loop over the bytes: it stops behind the 41st, and then prints how many there are.\<close>

fun output_loop :: "nat \<Rightarrow> nat \<Rightarrow> bytes \<Rightarrow> string" where
  "output_loop n k [] = []"
| "output_loop n k (c # cs) =
     char_of_byte c #
       (if k + 1 > 40 then ''... ('' @ decimal n @ ''bytes)''
        else output_loop n (k + 1) cs)"

definition output_received_data :: "bytes \<Rightarrow> string" where
  "output_received_data v =
     (if v \<noteq> [] then ''buffer: `'' @ output_loop (length v) 0 v @ ''`'' @ endl else [])"

section \<open>The program\<close>

record main_program =
  the_server :: datagram_server
  the_client :: datagram_client
  console :: string
  next_ref :: entry_ref

definition print :: "string \<Rightarrow> main_program \<Rightarrow> main_program" where
  "print t m = m\<lparr>console := console m @ t @ endl\<rparr>"

definition print_buffer :: "bytes \<Rightarrow> main_program \<Rightarrow> main_program" where
  "print_buffer v m = m\<lparr>console := console m @ output_received_data v\<rparr>"

text \<open>A send wraps the bytes in a new object.\<close>

definition main_server_sends :: "bytes \<Rightarrow> endpoint \<Rightarrow> main_program \<Rightarrow> main_program" where
  "main_server_sends v ep m =
     m\<lparr>the_server := server_async_send (next_ref m) v ep None (the_server m),
       next_ref := next_ref m + 1\<rparr>"

definition main_client_sends :: "bytes \<Rightarrow> callback option \<Rightarrow> main_program \<Rightarrow> main_program" where
  "main_client_sends v cb m =
     m\<lparr>the_client := client_async_send (next_ref m) v cb (the_client m),
       next_ref := next_ref m + 1\<rparr>"

text \<open>The slots; the signals without a slot change nothing.\<close>

fun main_server_slot ::
    "(error_code \<Rightarrow> string) \<Rightarrow> (endpoint \<Rightarrow> string) \<Rightarrow> server_signal \<Rightarrow> main_program \<Rightarrow> main_program" where
  "main_server_slot message show_endpoint Server_bound m = print ''server bound'' m"
| "main_server_slot message show_endpoint (Server_bind_failed ec) m =
     print (''server bind_failed:'' @ message ec) m"
| "main_server_slot message show_endpoint Server_closed m = print ''server closed'' m"
| "main_server_slot message show_endpoint (Server_received v ep) m =
     (let m' = print_buffer v (print (''server received size:'' @ decimal (length v)) m)
      in if non_empty_filesystem_endpoint_path ep then main_server_sends v ep m' else m')"
| "main_server_slot message show_endpoint (Server_deadline_exceeded ep) m =
     print (''server next_heartbeat_deadline_exceeded '' @ show_endpoint ep) m"
| "main_server_slot message show_endpoint (Server_warning w) m = m"

fun main_client_slot ::
    "(error_code \<Rightarrow> string) \<Rightarrow> client_signal \<Rightarrow> main_program \<Rightarrow> main_program" where
  "main_client_slot message (Client_connected pid) m =
     main_client_sends (bytes_of_string ''Type control-c to quit.'') None
       (print (''peer_pid: '' @ decimal_int (case pid of Some p \<Rightarrow> p | None \<Rightarrow> - 1))
         (print ''client connected'' m))"
| "main_client_slot message (Client_connect_failed ec) m =
     print (''client connect_failed:'' @ message ec) m"
| "main_client_slot message Client_closed m = print ''client closed'' m"
| "main_client_slot message (Client_error ec) m = print (''client error_occurred:'' @ message ec) m"
| "main_client_slot message (Client_received v ep) m =
     print_buffer v (print (''client received size:'' @ decimal (length v)) m)"
| "main_client_slot message (Client_deadline_exceeded ep) m = m"
| "main_client_slot message (Client_warning w) m = m"

text \<open>The callbacks of the first and the last datagram are numbered by what they print.\<close>

definition main_processed :: "callback \<Rightarrow> main_program \<Rightarrow> main_program" where
  "main_processed cb m = print (''processed `'' @ decimal cb @ ''`'') m"

section \<open>Start and end\<close>

definition server_buffer_bytes :: size_t where
  "server_buffer_bytes = 32 * 1024"

definition client_buffer_bytes :: size_t where
  "client_buffer_bytes = 64 * 1024"

definition new_main_server ::
    "u64 \<Rightarrow> path set \<Rightarrow> int \<Rightarrow> server_fun weak_dispatcher \<Rightarrow> datagram_server" where
  "new_main_server oid fs now w =
     server_async_start (server_set_reconnect_interval (Some 1000)
       (server_set_check_interval (Some 3000)
         (new_datagram_server oid ''tmp/server.sock'' server_buffer_bytes fs now w)))"

definition new_main_client ::
    "u64 \<Rightarrow> client_impl \<Rightarrow> client_fun weak_dispatcher \<Rightarrow> datagram_client" where
  "new_main_client oid i w =
     client_async_start (set_reconnect_interval (Some 1000)
       (set_next_heartbeat_deadline (Some 10000) (set_server_check_interval (Some 3000)
         (new_datagram_client oid ''tmp/server.sock'' (Some ''tmp/client.sock'') client_buffer_bytes i w))))"

definition main_datagrams :: "(bytes \<times> callback option) list" where
  "main_datagrams =
     [(bytes_of_string ''1'', Some 1), (bytes_of_string ''12'', None),
      (replicate (30 * 1024) (0x33), None),
      (replicate (unat client_buffer_bytes) (0x34), Some 4)]"

definition main_start ::
    "u64 \<Rightarrow> u64 \<Rightarrow> path set \<Rightarrow> int \<Rightarrow> client_impl \<Rightarrow> server_fun weak_dispatcher
      \<Rightarrow> client_fun weak_dispatcher \<Rightarrow> main_program" where
  "main_start soid coid fs now i sw cw =
     fold (\<lambda>(v, cb). main_client_sends v cb) main_datagrams
       \<lparr>the_server = new_main_server soid fs now sw, the_client = new_main_client coid i cw,
        console = [], next_ref = 0\<rparr>"

text \<open>Giving both objects up, in the main thread; \<open>final\<close> is what the socket object of the server leaves.\<close>

definition main_end :: "server_impl \<Rightarrow> main_program \<Rightarrow> main_program" where
  "main_end final m =
     m\<lparr>the_client := destroy_client False (the_client m),
       the_server := destroy_server False final (the_server m)\<rparr>"

section \<open>What is printed of a datagram\<close>

lemma output_loop_long:
  "k \<le> 40 \<Longrightarrow> output_loop n k cs =
     map char_of_byte (take (41 - k) cs)
       @ (if length cs > 40 - k then ''... ('' @ decimal n @ ''bytes)'' else [])"
proof (induction n k cs rule: output_loop.induct)
  case (2 n k c cs)
  then show ?case by (cases "k = 40") (auto simp: take_Cons')
qed simp

text \<open>At most 41 bytes, and the count of the bytes exactly when there are more than 40.\<close>

lemma output_received_data_eq:
  "output_received_data v =
     (if v = [] then []
      else ''buffer: `'' @ map char_of_byte (take 41 v)
        @ (if length v > 40 then ''... ('' @ decimal (length v) @ ''bytes)'' else []) @ ''`'' @ endl)"
  by (simp add: output_received_data_def output_loop_long)

section \<open>The echo\<close>

definition server_accepts :: "datagram_server \<Rightarrow> bool" where
  "server_accepts c \<longleftrightarrow>
     (case server_disp c of Some d \<Rightarrow> server_oid c \<in> object_ids d \<and> \<not> exiting d | None \<Rightarrow> False)"

lemma server_enqueue_accepted:
  assumes "server_accepts c"
  shows "set (queued (server_disp (server_enqueue f t c))) =
    insert \<lparr>object_id_value = server_oid c, entry_function = f, entry_when = t\<rparr>
      (set (queued (server_disp c)))"
proof -
  obtain d where d: "server_disp c = Some d" "server_oid c \<in> object_ids d" "\<not> exiting d"
    using assms by (auto simp: server_accepts_def split: option.splits)
  obtain d' where "enqueue_to_dispatcher (server_oid c) f t (Some d) = (True, Some d')"
    "set (queue d') = insert \<lparr>object_id_value = server_oid c, entry_function = f, entry_when = t\<rparr>
      (set (queue d))"
    using enqueue_to_accepting [OF d(2,3)] by blast
  with d(1) show ?thesis by (simp add: server_enqueue_def queued_def)
qed

end
