(* ===== verification/Example_Properties.thy ===== *)
theory Example_Properties
  imports Example_Peers Example_Main Sender_Properties
begin

text \<open>The properties of the example programs.\<close>

section \<open>Secrets\<close>

text \<open>
  C35. The server answers a message with \<open>world\<close> exactly when the secret in it is the one it made up
  for the last handshake from the same endpoint, and the peer's client has neither closed nor failed to
  connect since; otherwise it answers \<open>invalid secret\<close>.  The secrets stay as they are.
\<close>

theorem world_needs_the_issued_secret:
  assumes "s = fold (run_server_event parse dump cast) evs new_example_server"
    and "parse v = Some j" and "json_at ''type'' j = Inr (payload_to_json Message)"
    and "json_at ''secret'' j = Inr js" and "json_bytes cast js = Inr k"
  shows "server_received parse dump cast k' v (Endpoint p) s =
    manager_async_send p
      (dump (response_payload
        (if issued parse (rev evs) p = Some k then ''world'' else ''invalid secret''))) s"
proof -
  have "verify_shared_secret p k (pm_secrets (ex_manager s)) \<longleftrightarrow> issued parse (rev evs) p = Some k"
    using secret_of_history [of p parse dump cast evs]
    by (simp add: verify_shared_secret_iff secret_of_def assms(1))
  then show ?thesis
    using assms(2-5) by (simp add: server_received_def server_try_def answer_message_def)
qed

text \<open>Texts for the payloads of one exchange, with a secret of two bytes.\<close>

definition sample_dump :: "unit json \<Rightarrow> bytes" where
  "sample_dump j =
     (if j = handshake_payload then [1] else if j = secret_payload [7, 8] then [2]
      else if j = message_payload [7, 8] then [3] else if j = response_payload ''world'' then [4]
      else [5])"

definition sample_parse :: "bytes \<Rightarrow> unit json option" where
  "sample_parse v =
     (if v = [1] then Some handshake_payload else if v = [2] then Some (secret_payload [7, 8])
      else if v = [3] then Some (message_payload [7, 8])
      else if v = [4] then Some (response_payload ''world'') else None)"

lemma sample_texts [simp]:
  "sample_dump handshake_payload = [1]" "sample_dump (secret_payload [7, 8]) = [2]"
  "sample_dump (message_payload [7, 8]) = [3]" "sample_dump (response_payload ''world'') = [4]"
  "sample_parse [1] = Some handshake_payload" "sample_parse [2] = Some (secret_payload [7, 8])"
  "sample_parse [3] = Some (message_payload [7, 8])"
  "sample_parse [4] = Some (response_payload ''world'')"
  by (simp_all add: sample_dump_def sample_parse_def)

definition sample_issued :: example_server where
  "sample_issued = answer_handshake sample_dump [7, 8] ''p'' new_example_server"

lemma sample_issued_history:
  "sample_issued = fold (run_server_event sample_parse sample_dump (\<lambda>_. 0))
     [Gets [7, 8] [1] (Endpoint ''p'')] new_example_server"
  by (simp add: sample_issued_def server_received_payloads)

theorem world_needs_the_issued_secret_witness:
  "server_received sample_parse sample_dump (\<lambda>_. 0) [] [3] (Endpoint ''p'') sample_issued =
     manager_async_send ''p'' [4] sample_issued"
  using world_needs_the_issued_secret [OF sample_issued_history, of "[3]" "message_payload [7, 8]"
      "json_of_bytes [7, 8]" "[7, 8]" "[]" "''p''"]
  by (simp add: received_type_def)

text \<open>
  C37. Any object whose type is not one of the four names, or that has none, counts as a handshake: the
  server makes up a new secret for the endpoint, which replaces the one it had, so that the peer's
  messages with the old secret are refused.
\<close>

theorem unknown_type_replaces_the_secret:
  assumes "parse v = Some (Json_object ms)" and "\<And>t. map_of ms ''type'' \<noteq> Some (payload_to_json t)"
  shows "server_received parse dump cast k v (Endpoint p) s = answer_handshake dump k p s \<and>
    (\<forall>k'. k' \<noteq> k \<longrightarrow>
       answer_message dump k' p (server_received parse dump cast k v (Endpoint p) s) =
         manager_async_send p (dump (response_payload ''invalid secret'')) (answer_handshake dump k p s))"
proof -
  let ?t = "case map_of ms ''type'' of Some j \<Rightarrow> j | None \<Rightarrow> Json_null"
  have "?t \<noteq> payload_to_json t" for t
    using assms(2) [of t] by (auto simp: payload_to_json_def split: option.splits)
  then have "payload_from_json ?t = Handshake" by (rule payload_from_json_other)
  then have "server_received parse dump cast k v (Endpoint p) s = answer_handshake dump k p s"
    using assms(1) by (simp add: server_received_def server_try_def)
  moreover have "verify_shared_secret p k' (pm_secrets (ex_manager (answer_handshake dump k p s))) \<longleftrightarrow> k' = k"
    for k'
    by (auto simp: answer_handshake_def manager_async_send_def with_manager_def
        verify_shared_secret_iff secrets.get_put)
  ultimately show ?thesis by (simp add: answer_message_def)
qed

theorem unknown_type_replaces_the_secret_witness:
  "server_received (\<lambda>_. Some (Json_object [(''type'', Json_string ''ping'')])) sample_dump (\<lambda>_. 0) [9] [6]
     (Endpoint ''p'') sample_issued = answer_handshake sample_dump [9] ''p'' sample_issued"
  using unknown_type_replaces_the_secret [of "\<lambda>_. Some (Json_object [(''type'', Json_string ''ping'')])"
      "[6]" "[(''type'', Json_string ''ping'')]" sample_dump "\<lambda>_. 0" "[9]" "''p''" sample_issued]
  by (simp add: payload_to_json_def payload_names_def split: payload_type.splits)

section \<open>The exchange\<close>

text \<open>
  C15. The exchange of the example comes to its end: when printed payloads are read back as they were,
  the client's handshake, the secret the server sends once the peer's client is connected, the message
  and the answer follow from each other, the answer is \<open>world\<close>, and the client's main thread is
  notified.
\<close>

theorem exchange_ends_with_world:
  assumes "\<forall>j \<in> {handshake_payload, secret_payload k, message_payload k, response_payload ''world''}.
      parse (dump j) = Some j"
    and "map_of (pm_entries (ex_manager s)) p = None" and "ex_queue s = []"
    and "c = client_connected dump new_example_client"
    and "t = run_manager i (server_received parse dump cast k (dump handshake_payload) (Endpoint p) s)"
    and "u = with_manager (connected_slot verify_example_peer i p pid) t"
    and "d = client_received parse dump cast (dump (secret_payload k)) c"
    and "w = run_manager i' (server_received parse dump cast k' (dump (message_payload k)) (Endpoint p) u)"
    and "f = client_received parse dump cast (dump (response_payload ''world'')) d"
  shows "(\<exists>e. map_of (pm_entries (ex_manager t)) p = Some e \<and> sent (entry_calls e) = []) \<and>
    (\<exists>e. map_of (pm_entries (ex_manager u)) p = Some e \<and>
       sent (entry_calls e) = [dump (secret_payload k)]) \<and>
    (\<exists>e. map_of (pm_entries (ex_manager w)) p = Some e \<and>
       sent (entry_calls e) = [dump (secret_payload k), dump (response_payload ''world'')]) \<and>
    client_calls f =
      [Call_start, Call_send (dump handshake_payload), Call_send (dump (message_payload k))] \<and>
    \<not> notified d \<and> notified f"
proof -
  let ?secret = "dump (secret_payload k)" and ?world = "dump (response_payload ''world'')"
  let ?e1 = "entry_async_send ?secret (call_client Call_start (new_entry i))"
  let ?e2 = "flush (set_verified True (set_connected True ?e1))"
  let ?m = "manager_send i p ?secret (manager_insert_secret p k (ex_manager s))"
  let ?m2 = "connected_slot verify_example_peer i p pid ?m"
  have t: "t = s\<lparr>ex_manager := ?m\<rparr>"
    using assms(1,3) run_manager_only [of "with_manager (manager_insert_secret p k) s" i p ?secret]
    by (simp add: assms(5) server_received_payloads answer_handshake_def with_manager_def)
  have e1: "map_of (pm_entries ?m) p = Some ?e1"
    using assms(2) by (simp add: manager_send_entry manager_insert_secret_def)
  have e2: "map_of (pm_entries ?m2) p = Some ?e2"
    using connected_slot_entry [OF e1, of i verify_example_peer pid]
    by (simp add: verify_example_peer_def entry_async_send_def call_client_def new_entry_def flush_def)
  have "verify_shared_secret p k (pm_secrets ?m2)"
    by (simp add: verify_shared_secret_iff secrets.get_put)
  then have w: "w = u\<lparr>ex_manager := manager_send i' p ?world ?m2\<rparr>"
    using assms(1,3) run_manager_only [of u i' p ?world]
    by (simp add: assms(6,8) t server_received_payloads answer_message_def with_manager_def)
  have e3: "map_of (pm_entries (manager_send i' p ?world ?m2)) p = Some (entry_async_send ?world ?e2)"
    by (simp add: manager_send_entry e2)
  have "sent (entry_calls ?e1) = []" "sent (entry_calls ?e2) = [?secret]"
    "sent (entry_calls (entry_async_send ?world ?e2)) = [?secret, ?world]"
    by (simp_all add: entry_async_send_sent entry_async_send_queue set_verified_def set_connected_def
        call_client_def new_entry_def)
  moreover have "client_calls f =
      [Call_start, Call_send (dump handshake_payload), Call_send (dump (message_payload k))] \<and>
    \<not> notified d \<and> notified f"
    using assms(1)
    by (simp add: assms(4,7,9) client_received_payloads client_connected_def client_says_def notify_def
        new_example_client_def)
  ultimately show ?thesis
    using e1 e2 e3 by (simp add: t w assms(6) with_manager_def)
qed

definition sample_connected_peer :: example_server where
  "sample_connected_peer = with_manager (connected_slot verify_example_peer 0 ''p'' None)
     (run_manager 0 (server_received sample_parse sample_dump (\<lambda>_. 0) [7, 8]
       (sample_dump handshake_payload) (Endpoint ''p'') new_example_server))"

definition sample_answered :: example_server where
  "sample_answered = run_manager 1 (server_received sample_parse sample_dump (\<lambda>_. 0) [9]
     (sample_dump (message_payload [7, 8])) (Endpoint ''p'') sample_connected_peer)"

theorem exchange_ends_with_world_witness:
  "\<exists>e. map_of (pm_entries (ex_manager sample_answered)) ''p'' = Some e \<and>
     sent (entry_calls e) = [[2], [4]]"
proof -
  have texts: "\<forall>j \<in> {handshake_payload, secret_payload [7, 8], message_payload [7, 8],
      response_payload ''world''}. sample_parse (sample_dump j) = Some j"
    by simp
  have new: "map_of (pm_entries (ex_manager new_example_server)) ''p'' = None"
    "ex_queue new_example_server = []"
    by (simp_all add: new_example_server_def new_peer_manager_def)
  show ?thesis
    using exchange_ends_with_world [OF texts new refl refl sample_connected_peer_def refl
        sample_answered_def refl]
    by (simp only: sample_texts)
qed

section \<open>The echo\<close>


definition sample_program :: main_program where
  "sample_program = main_start 2 3 {} 0 sample_connected (Some (initial_dispatcher 1)) None"

lemma main_client_sends_server [simp]:
  "the_server (fold (\<lambda>(v, cb). main_client_sends v cb) ds m) = the_server m"
  by (induction ds arbitrary: m) (auto simp: main_client_sends_def)

lemma sample_program_accepts: "server_accepts (the_server sample_program)"
  by (simp add: sample_program_def main_start_def new_main_server_def server_async_start_def
      server_enqueue_def server_set_reconnect_interval_def server_set_check_interval_def
      new_datagram_server_def client_attach_def server_accepts_def enqueue_to_dispatcher_def
      enqueue_def initial_dispatcher_def attach_def Let_def)


end
