(* ===== verification/Bind_Outcome.thy ===== *)
theory Bind_Outcome
  imports Impl_Shutdown Datagram_Server
begin

text \<open>
  A server without a reconnect interval binds once, and tells its owner once how that ended: \<open>bound\<close> or
  \<open>bind_failed\<close>, whatever its implementation, the dispatcher and the network do.
\<close>

section \<open>What an implementation tells of its bind\<close>

fun bind_task :: "impl_task \<Rightarrow> bool" where
  "bind_task Bound = True"
| "bind_task (Bind_failed ec) = True"
| "bind_task _ = False"

text \<open>The tasks told, and the binds that are still queued; the slots of the first \<open>k\<close> tasks have run.\<close>

definition bind_outcomes :: "nat \<Rightarrow> 'z base_impl_scheme \<Rightarrow> nat" where
  "bind_outcomes k s = length (filter bind_task (drop k (dispatched s))) + length (filter is_bind (io_ready s))"

text \<open>An operation tells nothing of a bind.\<close>

definition tells :: "'z base_impl_scheme \<Rightarrow> 'z base_impl_scheme \<Rightarrow> bool" where
  "tells s t \<longleftrightarrow> (\<exists>ts. dispatched t = dispatched s @ ts \<and> \<not> list_ex bind_task ts)"

lemma tells_same: "dispatched t = dispatched s \<Longrightarrow> tells s t"
  by (simp add: tells_def)

lemma tells_trans: "tells s t \<Longrightarrow> tells t u \<Longrightarrow> tells s u"
  by (force simp: tells_def)

lemma tells_dispatch: "\<not> bind_task t \<Longrightarrow> tells s (dispatch_task t s)"
  by (simp add: tells_def dispatch_task_def)

lemma tells_io [simp]:
  "tells s (post h s)" "tells s (update_entry r f s)" "tells s (deadline_expires_at tp s)"
  "tells s (async_receive s)" "tells s (await_send_entry d s)" "tells s (check_send_deadline s)"
  "tells s (send_handler r s)" "tells s (reset_work_guard s)" "tells s s"
  by (rule tells_same; simp add: impl_simps update_entry_def async_receive_def await_send_entry_def
      start_send_def check_send_deadline_def async_close_def send_handler_def reset_work_guard_def
      split: list.splits option.splits)+

lemma tells_pop: "tells s (pop_front_send_entry s)"
  by (auto simp: pop_front_send_entry_def Let_def tells_def dispatch_task_def split: list.splits option.splits)

lemma tells_finish: "tells s (finish_send r d s)"
  by (auto simp: finish_send_def intro: tells_trans [OF tells_pop])

lemma tells_handle_send: "tells s (handle_send ec n r s)"
proof -
  let ?s1 = "deadline_expires_at pos_infin (update_entry r (add_bytes_transferred n) s)"
  have s1: "tells s ?s1" by (rule tells_same) (simp add: update_entry_def impl_simps)
  have fin: "tells s (finish_send r d t)" if "tells ?s1 t" for d t
    using tells_trans [OF tells_trans [OF s1 that] tells_finish] .
  have "tells ?s1 (handle_no_buffer_space r ?s1)"
    by (simp add: handle_no_buffer_space_def tells_def update_entry_def dispatch_task_def Let_def)
  moreover have "tells ?s1 (dispatch_task (Error_occurred ec) (update_entry r drop_entry ?s1))"
    by (rule tells_trans [OF tells_io(2) tells_dispatch]) simp
  moreover have "tells s (async_close (dispatch_task (Error_occurred ec) ?s1))"
    using s1 by (auto simp: tells_def async_close_def post_def dispatch_task_def)
  ultimately show ?thesis using fin fin [of ?s1] by (auto simp: handle_send_def Let_def)
qed

lemma tells_receive: "tells s (receive_handler dec ec n s)"
proof -
  have d: "tells s (receive_datagram dec n s)"
    by (auto simp: receive_datagram_def Let_def tells_dispatch split: option.splits entry_type.splits)
  then show ?thesis using tells_trans [OF d tells_io(4)] by (simp add: receive_handler_def Let_def)
qed

lemma tells_close: "tells s (close_handler s)"
  by (cases "impl_socket s") (auto simp: close_handler_def remove_bound_path_def impl_simps Let_def tells_def)

lemma tells_run: "run_base_handler dec h s = Some t \<Longrightarrow> tells s t"
  by (cases h) (auto intro: tells_handle_send tells_receive tells_close)

lemma tells_start: "tells s (start_actors s)"
  by (auto simp: start_actors_def Let_def intro!: tells_trans [OF _ tells_io(4)]
      tells_trans [OF _ tells_io(6)] tells_trans [OF _ tells_io(3)])

lemma filter_tasks_tells:
  assumes "tells s t"
  shows "length (filter bind_task (drop k (dispatched t))) = length (filter bind_task (drop k (dispatched s)))"
proof -
  obtain ts where ts: "dispatched t = dispatched s @ ts" "\<not> list_ex bind_task ts"
    using assms by (auto simp: tells_def)
  have "filter bind_task (drop n ts) = []" for n
    using ts(2) in_set_dropD by (fastforce simp: filter_empty_conv list_ex_iff)
  with ts(1) show ?thesis by simp
qed

text \<open>Handlers that are appended are no binds.\<close>

lemma harmless_no_bind: "harmless h \<Longrightarrow> \<not> is_bind h"
  by (cases h) simp_all

lemma filter_binds_harmless:
  assumes "posts_harmless s t"
  shows "filter is_bind (io_ready t) = filter is_bind (io_ready s)"
proof -
  obtain hs where "io_ready t = io_ready s @ hs" "list_all harmless hs"
    using assms by (auto simp: posts_harmless_def)
  then show ?thesis using harmless_no_bind by (auto simp: filter_empty_conv list_all_iff)
qed

lemma bind_outcomes_keeps:
  "tells s t \<Longrightarrow> filter is_bind (io_ready t) = filter is_bind (io_ready s) \<Longrightarrow>
   bind_outcomes k t = bind_outcomes k s"
  by (simp add: bind_outcomes_def filter_tasks_tells)

lemma bind_outcomes_base_step:
  assumes "base_step dec s t"
  shows "bind_outcomes k t = bind_outcomes k s"
  using assms
proof cases
  case (handler h s')
  then obtain hs where hs: "io_ready s = h # hs" "s' = s\<lparr>io_ready := hs\<rparr>"
    by (auto simp: next_handler_def split: list.splits)
  have "\<not> is_bind h" using handler(2) by (cases h) simp_all
  then have "bind_outcomes k s' = bind_outcomes k s" using hs by (simp add: bind_outcomes_def)
  moreover have "bind_outcomes k t = bind_outcomes k s'"
    using handler(2) by (intro bind_outcomes_keeps tells_run filter_binds_harmless posts_harmless_base)
  ultimately show ?thesis by simp
qed (simp_all add: bind_outcomes_def post_def async_send_def async_close_def terminate_base_impl_def)

text \<open>The handler of a bind tells at most once.\<close>

lemma replace_socket_tells:
  "posts_harmless s (replace_socket k s) \<and> dispatched (replace_socket k s) = dispatched s"
  by (auto simp: replace_socket_def socket_cancel_def posts_harmless_def list_all_replicate_harmless
      list_all_iff is_error_def)

lemma bind_handler_cases:
  assumes "bind_handler env f sz interval s = Inr t"
  obtains v x where "tells s v" and "posts_harmless s v"
    and "t = dispatch_task x v \<or> t = start_actors (dispatch_task x v)"
proof -
  define s1 where "s1 = replace_socket (default_socket env) (remove_file f (s\<lparr>socket_ready := False\<rparr>))"
  have s1: "dispatched s1 = dispatched s" "posts_harmless s s1"
    using replace_socket_tells [of "remove_file f (s\<lparr>socket_ready := False\<rparr>)" "default_socket env"]
    by (simp_all add: s1_def remove_file_def posts_harmless_def)
  note run = assms [unfolded bind_handler_def Let_def, folded s1_def]
  show ?thesis
  proof (cases "is_error (open_result env)")
    case True
    with run have "t = dispatch_task (Bind_failed (open_result env)) s1" by simp
    then show ?thesis using that [OF tells_same [OF s1(1)] s1(2)] by blast
  next
    case False
    with run obtain s2 where s2: "set_socket_options sz (options_accepted env) s1 = Inr s2"
      by (auto split: sum.splits)
    note g = set_socket_options_fields [OF s2]
    have "posts_harmless s s2" using s1(2) g by (simp add: posts_harmless_def)
    show ?thesis
    proof (cases "is_error (bind_result env)")
      case True
      with run False s2 have "t = dispatch_task (Bind_failed (bind_result env)) s2" by simp
      moreover have "tells s s2" using s1 g by (intro tells_same) simp
      ultimately show ?thesis using that [OF _ \<open>posts_harmless s s2\<close>] by blast
    next
      case ok: False
      let ?s3 = "bind_socket f s2"
      let ?v = "start_bind_check f interval
        (?s3\<lparr>socket_ready := True, timers_generation := timers_generation ?s3 + 1\<rparr>)"
      have "t = start_actors (dispatch_task Bound ?v)" using run False s2 ok by (simp add: Let_def)
      moreover have "tells s ?v"
        using s1 g by (cases interval) (simp_all add: tells_def start_bind_check_def bind_socket_def dispatch_task_def)
      moreover have "posts_harmless s ?v"
        using \<open>posts_harmless s s2\<close>
        by (cases interval) (simp_all add: posts_harmless_def start_bind_check_def bind_socket_def dispatch_task_def)
      ultimately show ?thesis using that by blast
    qed
  qed
qed

lemma bind_handler_tells:
  assumes "bind_handler env f sz interval s = Inr t"
  shows "bind_outcomes k t \<le> bind_outcomes k s + 1"
proof -
  obtain v x where v: "tells s v" "posts_harmless s v"
    "t = dispatch_task x v \<or> t = start_actors (dispatch_task x v)"
    using assms by (rule bind_handler_cases)
  have "bind_outcomes k (start_actors u) = bind_outcomes k u" for u :: "'a base_impl_scheme"
    by (intro bind_outcomes_keeps tells_start filter_binds_harmless posts_harmless_appends appends_start_actors)
  then have "bind_outcomes k t = bind_outcomes k (dispatch_task x v)" using v(3) by auto
  also have "\<dots> \<le> bind_outcomes k v + 1"
    by (auto simp: bind_outcomes_def dispatch_task_def drop_Cons')
  also have "bind_outcomes k v = bind_outcomes k s"
    using v(1,2) by (intro bind_outcomes_keeps filter_binds_harmless)
  finally show ?thesis .
qed

lemma bind_outcomes_step:
  assumes "server_step dec s t"
  shows "bind_outcomes k t \<le> bind_outcomes k s"
  using assms
proof cases
  case base
  then show ?thesis using bind_outcomes_base_step by (metis order_refl)
next
  case (runs h s' env)
  then obtain hs where hs: "io_ready s = h # hs" "s' = s\<lparr>io_ready := hs\<rparr>"
    by (auto simp: next_handler_def split: list.splits)
  have take: "bind_outcomes k s' = bind_outcomes k s" if "\<not> is_bind h"
    using hs that by (simp add: bind_outcomes_def)
  have base: "bind_outcomes k t = bind_outcomes k s" if "run_base_handler dec h s' = Some t" "\<not> is_bind h"
  proof -
    have "bind_outcomes k t = bind_outcomes k s'"
      using that(1) by (intro bind_outcomes_keeps tells_run filter_binds_harmless posts_harmless_base)
    with take that(2) show ?thesis by simp
  qed
  show ?thesis
  proof (cases h)
    case (Io_bind f sz interval)
    with runs(2) have "bind_outcomes k t \<le> bind_outcomes k s' + 1"
      using bind_handler_tells [of env f sz interval s' t k] by simp
    also have "bind_outcomes k s' + 1 = bind_outcomes k s" using hs Io_bind by (simp add: bind_outcomes_def)
    finally show ?thesis .
  next
    case (Io_check_server f)
    with runs(2) take show ?thesis
      by (auto simp: check_bind_def stop_bind_check_def bind_outcomes_def dispatch_task_def drop_Cons'
          split: if_splits)
  next
    case Io_drop_server_probe
    with runs(2) take show ?thesis by (auto simp: bind_outcomes_def)
  qed (use runs(2) base in auto)
qed (simp_all add: bind_outcomes_def post_def async_close_def)

text \<open>A new implementation has one outcome to tell.\<close>

lemma bind_outcomes_new:
  "bind_outcomes 0 (async_bind f sz interval (new_server_impl es store fs now)) = 1"
  by (simp add: bind_outcomes_def async_bind_def async_close_def post_def new_server_impl_def
      new_base_impl_def base_impl.defs)

section \<open>The life of a server\<close>

text \<open>
  What the worker of the dispatcher does to a server; \<open>k\<close> of the tasks the implementation has told are
  handled.  The label is the function of the server the worker calls, if any.  Giving the implementation up
  detaches it, so that its further tasks are not called.
\<close>

inductive server_life ::
    "server_fun option \<Rightarrow> nat \<Rightarrow> datagram_server \<Rightarrow> nat \<Rightarrow> datagram_server \<Rightarrow> bool" where
  works: "server_disp c = Some d \<Longrightarrow> worker_take src d = (Worker_run e, d') \<Longrightarrow> call_function e d' = Some f \<Longrightarrow>
    run_server_fun src final f (c\<lparr>server_disp := Some d'\<rparr>) = Inr c' \<Longrightarrow> server_life (Some f) k c k c'"
| skips: "server_disp c = Some d \<Longrightarrow> worker_take src d = (Worker_run e, d') \<Longrightarrow> call_function e d' = None \<Longrightarrow>
    server_life None k c k (c\<lparr>server_disp := Some d'\<rparr>)"
| slot: "the_server_impl c = Some i \<Longrightarrow> k < length (dispatched i) \<Longrightarrow>
    c' = server_slot src final (dispatched i ! k) c \<Longrightarrow>
    server_life None k c (if the_server_impl c' = None then 0 else Suc k) c'"
| deadline: "server_life None k c k (server_deadline_slot ep c)"

text \<open>What the thread of the io context and the operating system do.\<close>

inductive server_acts :: "(bytes \<Rightarrow> u32) \<Rightarrow> datagram_server \<Rightarrow> datagram_server \<Rightarrow> bool" for dec where
  "the_server_impl c = Some i \<Longrightarrow> server_step dec i j \<Longrightarrow> server_acts dec c (c\<lparr>the_server_impl := Some j\<rparr>)"

fun outcome_signal :: "server_signal \<Rightarrow> bool" where
  "outcome_signal Server_bound = True"
| "outcome_signal (Server_bind_failed ec) = True"
| "outcome_signal _ = False"

fun outcome_fun :: "server_fun \<Rightarrow> bool" where
  "outcome_fun Srv_bind = True"
| "outcome_fun (Srv_signal sg) = outcome_signal sg"
| "outcome_fun _ = False"

text \<open>The functions of a server that was only started, and has no reconnect interval.\<close>

fun calm_fun :: "server_fun \<Rightarrow> bool" where
  "calm_fun Srv_bind = True"
| "calm_fun (Srv_signal sg) = True"
| "calm_fun (Srv_timer f) = (f = Timer_stop)"
| "calm_fun _ = False"

definition server_outcomes :: "nat \<Rightarrow> datagram_server \<Rightarrow> nat" where
  "server_outcomes k c =
     length (filter outcome_signal (srv_emitted c)) +
     length (filter (\<lambda>e. outcome_fun (entry_function e)) (queued (server_disp c))) +
     (case the_server_impl c of None \<Rightarrow> 0 | Some i \<Rightarrow> bind_outcomes k i)"

definition binds_once :: "nat \<Rightarrow> datagram_server \<Rightarrow> bool" where
  "binds_once k c \<longleftrightarrow> server_outcomes k c \<le> 1 \<and> rebind_interval c = None \<and>
     (\<forall>e \<in> set (queued (server_disp c)). calm_fun (entry_function e)) \<and>
     (the_server_impl c = None \<longrightarrow> k = 0)"

text \<open>Enqueuing adds the function at most.\<close>

lemma server_enqueue_fields [simp]:
  "srv_emitted (server_enqueue f when c) = srv_emitted c"
  "the_server_impl (server_enqueue f when c) = the_server_impl c"
  "rebind_interval (server_enqueue f when c) = rebind_interval c"
  by (simp_all add: server_enqueue_def)

lemma binds_once_enqueue:
  assumes "server_outcomes k c + (if outcome_fun f then 1 else 0) \<le> 1" and "calm_fun f"
    and "rebind_interval c = None" and "\<forall>e \<in> set (queued (server_disp c)). calm_fun (entry_function e)"
    and "the_server_impl c = None \<longrightarrow> k = 0"
  shows "binds_once k (server_enqueue f when c)"
  using assms
  by (auto simp: binds_once_def server_outcomes_def server_enqueue_def queued_enqueue_filter
      queued_enqueue_set split: if_splits option.splits)

lemma binds_once_signal: "binds_once k c \<Longrightarrow> \<not> outcome_signal sg \<Longrightarrow> binds_once k (server_enqueue (Srv_signal sg) at c)"
  by (rule binds_once_enqueue) (simp_all add: binds_once_def)

text \<open>Giving the implementation up, and the stop of the timer.\<close>

lemma binds_once_close:
  assumes "binds_once k c"
  shows "binds_once 0 (server_close final c)"
  using assms by (auto simp: binds_once_def server_outcomes_def server_close_def split: option.splits)

lemma stop_rebind_timer_enqueues:
  "\<exists>t. stop_rebind_timer c = (server_enqueue (Srv_timer Timer_stop) when_immediately c)\<lparr>rebind_timer := t\<rparr>"
  by (intro exI [of _ "(rebind_timer c)\<lparr>timer_enabled := False\<rparr>"])
    (simp add: stop_rebind_timer_def timer_stop_def server_enqueue_def)

lemma binds_once_stop_timer:
  assumes "binds_once k c"
  shows "binds_once k (stop_rebind_timer c)"
proof -
  obtain t where "stop_rebind_timer c = (server_enqueue (Srv_timer Timer_stop) when_immediately c)\<lparr>rebind_timer := t\<rparr>"
    using stop_rebind_timer_enqueues by blast
  moreover have "binds_once k (server_enqueue (Srv_timer Timer_stop) when_immediately c)"
    using assms by (intro binds_once_enqueue) (simp_all add: binds_once_def)
  ultimately show ?thesis by (simp add: binds_once_def server_outcomes_def)
qed

section \<open>Preservation\<close>

lemma worker_take_filter:
  assumes "worker_take src d = (Worker_run e, d')"
  shows "length (filter P (queue d)) = length (filter P (queue d')) + (if P e then 1 else 0)"
    and "set (queue d) = insert e (set (queue d'))"
proof -
  have "queue d = e # queue d'"
    using assms by (auto simp: worker_take_def split: if_splits list.splits)
  then show "length (filter P (queue d)) = length (filter P (queue d')) + (if P e then 1 else 0)"
    "set (queue d) = insert e (set (queue d'))" by simp_all
qed

lemma binds_once_take:
  assumes "binds_once k c" and "server_disp c = Some d" and "worker_take src d = (Worker_run e, d')"
  shows "calm_fun (entry_function e)" and "binds_once k (c\<lparr>server_disp := Some d'\<rparr>)"
    and "outcome_fun (entry_function e) \<Longrightarrow> server_outcomes k (c\<lparr>server_disp := Some d'\<rparr>) = 0"
  using assms worker_take_filter [OF assms(3)]
  by (auto simp: binds_once_def server_outcomes_def queued_def split: option.splits if_splits)

lemma call_function_entry: "call_function e d = Some f \<Longrightarrow> f = entry_function e"
  by (auto simp: call_function_def split: if_splits)

lemma binds_once_run:
  assumes "binds_once k c" and "calm_fun f" and "outcome_fun f \<Longrightarrow> server_outcomes k c = 0"
    and "run_server_fun src final f c = Inr c'"
  shows "binds_once k c'"
proof -
  consider "f = Srv_bind" | sg where "f = Srv_signal sg" | "f = Srv_timer Timer_stop"
    using assms(2) by (cases f) auto
  then show ?thesis
  proof cases
    case 1
    with assms show ?thesis
      by (cases "the_server_impl c") (auto simp: server_bind_def binds_once_def server_outcomes_def bind_outcomes_new)
  next
    case (2 sg)
    with assms show ?thesis by (auto simp: binds_once_def server_outcomes_def)
  next
    case 3
    with assms show ?thesis by (auto simp: binds_once_def server_outcomes_def Let_def)
  qed
qed

lemma bind_outcomes_next:
  "k < length (dispatched i) \<Longrightarrow>
   bind_outcomes k i = (if bind_task (dispatched i ! k) then 1 else 0) + bind_outcomes (Suc k) i"
  by (simp add: bind_outcomes_def Cons_nth_drop_Suc [symmetric])

lemma binds_once_slot:
  assumes inv: "binds_once k c" and i: "the_server_impl c = Some i" and k: "k < length (dispatched i)"
    and c': "c' = server_slot src final (dispatched i ! k) c"
  shows "binds_once (if the_server_impl c' = None then 0 else Suc k) c'"
proof -
  have nxt: "server_outcomes (Suc k) c + (if bind_task (dispatched i ! k) then 1 else 0) = server_outcomes k c"
    using bind_outcomes_next [OF k] i by (simp add: server_outcomes_def)
  have rest: "rebind_interval c = None" "\<forall>e \<in> set (queued (server_disp c)). calm_fun (entry_function e)"
    using inv by (simp_all add: binds_once_def)
  have later: "binds_once (Suc k) c" using inv nxt i by (simp add: binds_once_def)
  have told: "binds_once (Suc k) (server_enqueue (Srv_signal sg) at c)"
    if "outcome_signal sg \<longrightarrow> bind_task (dispatched i ! k)" for sg at
    using inv nxt rest i that by (intro binds_once_enqueue) (auto simp: binds_once_def)
  have given_up: "binds_once 0 (start_rebind_timer src (server_close final (server_enqueue (Srv_signal sg) at c)))
      \<and> the_server_impl (start_rebind_timer src (server_close final (server_enqueue (Srv_signal sg) at c))) = None"
    if "outcome_signal sg \<longrightarrow> bind_task (dispatched i ! k)" for sg at
  proof -
    let ?c = "server_close final (server_enqueue (Srv_signal sg) at c)"
    have "start_rebind_timer src ?c = stop_rebind_timer ?c"
      using rest(1) by (simp add: start_rebind_timer_def server_close_def)
    moreover have "the_server_impl ?c = None" by (simp add: server_close_def)
    ultimately show ?thesis using binds_once_stop_timer [OF binds_once_close [OF told [OF that]]] by simp
  qed
  show ?thesis
    using c' told later given_up i
    by (cases "dispatched i ! k") (auto simp: bind_failed_slot_def closed_slot_def)
qed

lemma server_life_binds_once:
  assumes "server_life f k c k' c'" and inv: "binds_once k c"
  shows "binds_once k' c'"
  using assms(1)
proof cases
  case (works d src e d' f final)
  note take = binds_once_take [OF inv works(3,4)]
  have "f = entry_function e" using works(5) by (rule call_function_entry)
  with take works(2,6) show ?thesis by (auto intro: binds_once_run)
next
  case (skips d src e d')
  then show ?thesis using binds_once_take(2) [OF inv] by simp
next
  case (slot i src final)
  then show ?thesis using binds_once_slot [OF inv] by blast
next
  case (deadline ep)
  then show ?thesis using inv by (simp add: server_deadline_slot_def binds_once_signal)
qed

lemma server_acts_binds_once:
  assumes "server_acts dec c c'" and inv: "binds_once k c"
  shows "binds_once k c'"
  using assms(1)
proof cases
  case (1 i j)
  then show ?thesis
    using inv bind_outcomes_step [OF 1(3), of k] by (auto simp: binds_once_def server_outcomes_def)
qed

text \<open>The signals made so far stay.\<close>

lemma server_life_emitted:
  assumes "server_life f k c k' c'" and "binds_once k c"
  shows "srv_emitted c' = srv_emitted c @ (case f of Some (Srv_signal sg) \<Rightarrow> [sg] | _ \<Rightarrow> [])"
  using assms(1)
proof cases
  case (works d src e d' g final)
  have "calm_fun g"
    using binds_once_take(1) [OF assms(2) works(3,4)] call_function_entry [OF works(5)] by simp
  with works show ?thesis
    by (cases g) (auto simp: server_bind_def Let_def split: if_splits)
next
  case (slot i src final)
  have "srv_emitted (start_rebind_timer src (server_close final (server_enqueue g at c))) = srv_emitted c" for g at
    by (auto simp: start_rebind_timer_def stop_rebind_timer_def server_close_def split: option.splits prod.splits)
  with slot show ?thesis
    by (cases "dispatched i ! k") (auto simp: bind_failed_slot_def closed_slot_def)
qed (simp_all add: server_deadline_slot_def)

text \<open>Both outcomes are never signalled.\<close>

lemma binds_once_outcome:
  assumes "binds_once k c" and "Server_bound \<in> set (srv_emitted c)"
  shows "Server_bind_failed ec \<notin> set (srv_emitted c)"
proof
  assume failed: "Server_bind_failed ec \<in> set (srv_emitted c)"
  let ?o = "filter outcome_signal (srv_emitted c)"
  have "{Server_bound, Server_bind_failed ec} \<subseteq> set ?o" using assms(2) failed by simp
  then have "card {Server_bound, Server_bind_failed ec} \<le> length ?o"
    by (meson List.finite_set card_length card_mono le_trans)
  then show False using assms(1) by (auto simp: binds_once_def server_outcomes_def)
qed

end
