(* ===== verification/Thread_Wait.thy ===== *)
theory Thread_Wait
  imports Main
begin

text \<open>
  \<open>vendor/vendor/include/pqrs/thread_wait.hpp\<close>: one or more threads wait until some thread has called
  \<open>notify\<close>.  The calls are split at the acquisitions of the mutex and at the operations of the
  condition variable, between which other threads act; a waiting thread may wake up without a reason.
\<close>

section \<open>Threads\<close>

text \<open>
  Where a thread is.  A waiting call carries whether it has a timeout; once it has left the sleep by the
  timeout it checks the flag a last time.  \<open>Sleeping\<close> is inside the condition variable, with the mutex
  released; \<open>Announcing\<close> is between the release of the mutex in \<open>notify\<close> and \<open>notify_all\<close>.
\<close>

datatype wait_pc =
    Outside
  | Acquiring bool bool
  | Checking bool bool
  | Sleeping bool
  | Leaving bool bool
  | Back bool bool
  | Notify_acquiring
  | Storing
  | Stored
  | Announcing
  | Notify_back

text \<open>The state: the flag, the owner of the mutex, and the threads.\<close>

record thread_wait =
  notify_flag :: bool
  mutex_owner :: "nat option"
  pc_of :: "nat \<Rightarrow> wait_pc"

definition make_thread_wait :: thread_wait where
  "make_thread_wait = \<lparr>notify_flag = False, mutex_owner = None, pc_of = (\<lambda>_. Outside)\<rparr>"

fun holds_mutex :: "wait_pc \<Rightarrow> bool" where
  "holds_mutex (Checking timed expired) = True"
| "holds_mutex (Leaving timed r) = True"
| "holds_mutex Storing = True"
| "holds_mutex Stored = True"
| "holds_mutex _ = False"

text \<open>A thread that is in no call.\<close>

fun may_call :: "wait_pc \<Rightarrow> bool" where
  "may_call Outside = True"
| "may_call (Back timed r) = True"
| "may_call Notify_back = True"
| "may_call _ = False"

definition goto :: "nat \<Rightarrow> wait_pc \<Rightarrow> thread_wait \<Rightarrow> thread_wait" where
  "goto t p s = s\<lparr>pc_of := (pc_of s)(t := p)\<rparr>"

text \<open>Going to \<open>p\<close> with the mutex, and giving it up.\<close>

definition locked :: "nat \<Rightarrow> wait_pc \<Rightarrow> thread_wait \<Rightarrow> thread_wait" where
  "locked t p s = goto t p (s\<lparr>mutex_owner := Some t\<rparr>)"

definition unlocked :: "nat \<Rightarrow> wait_pc \<Rightarrow> thread_wait \<Rightarrow> thread_wait" where
  "unlocked t p s = goto t p (s\<lparr>mutex_owner := None\<rparr>)"

fun wake :: "wait_pc \<Rightarrow> wait_pc" where
  "wake (Sleeping timed) = Acquiring timed False"
| "wake p = p"

text \<open>
  What thread \<open>t\<close> does next inside the calls.  The predicate of \<open>condition_variable::wait\<close> is read with the
  mutex held; when it is false the thread releases the mutex and sleeps in one step.
\<close>

inductive thread_step :: "nat \<Rightarrow> thread_wait \<Rightarrow> thread_wait \<Rightarrow> bool" for t where
  acquires: "pc_of s t = Acquiring timed expired \<Longrightarrow> mutex_owner s = None \<Longrightarrow>
    thread_step t s (locked t (Checking timed expired) s)"
| finds: "pc_of s t = Checking timed expired \<Longrightarrow> notify_flag s \<Longrightarrow>
    thread_step t s (goto t (Leaving timed True) s)"
| gives_up: "pc_of s t = Checking timed True \<Longrightarrow> \<not> notify_flag s \<Longrightarrow>
    thread_step t s (goto t (Leaving timed False) s)"
| sleeps: "pc_of s t = Checking timed False \<Longrightarrow> \<not> notify_flag s \<Longrightarrow>
    thread_step t s (unlocked t (Sleeping timed) s)"
| leaves: "pc_of s t = Leaving timed r \<Longrightarrow> thread_step t s (unlocked t (Back timed r) s)"
| notify_acquires: "pc_of s t = Notify_acquiring \<Longrightarrow> mutex_owner s = None \<Longrightarrow>
    thread_step t s (locked t Storing s)"
| stores: "pc_of s t = Storing \<Longrightarrow> thread_step t s (goto t Stored (s\<lparr>notify_flag := True\<rparr>))"
| releases: "pc_of s t = Stored \<Longrightarrow> thread_step t s (unlocked t Announcing s)"
| announces: "pc_of s t = Announcing \<Longrightarrow>
    thread_step t s (goto t Notify_back (s\<lparr>pc_of := wake \<circ> pc_of s\<rparr>))"

text \<open>The calls, and the ends of a sleep that no notification causes.\<close>

inductive outside_step :: "thread_wait \<Rightarrow> thread_wait \<Rightarrow> bool" where
  wait_notice: "may_call (pc_of s t) \<Longrightarrow> outside_step s (goto t (Acquiring False False) s)"
| wait_notice_for: "may_call (pc_of s t) \<Longrightarrow> outside_step s (goto t (Acquiring True False) s)"
| notify: "may_call (pc_of s t) \<Longrightarrow> outside_step s (goto t Notify_acquiring s)"
| spurious: "pc_of s t = Sleeping timed \<Longrightarrow> outside_step s (goto t (Acquiring timed False) s)"
| times_out: "pc_of s t = Sleeping True \<Longrightarrow> outside_step s (goto t (Acquiring True True) s)"

inductive wait_reachable :: "thread_wait \<Rightarrow> bool" where
  made: "wait_reachable make_thread_wait"
| inside: "wait_reachable s \<Longrightarrow> thread_step t s u \<Longrightarrow> wait_reachable u"
| outside: "wait_reachable s \<Longrightarrow> outside_step s u \<Longrightarrow> wait_reachable u"

section \<open>The invariant\<close>

text \<open>
  The owner of the mutex is the thread inside a critical section; a wait that found the flag, and a
  notification that stored it, left it set; only a wait with a timeout expires; and while the flag is set a thread sleeps only if the
  notification that will wake it is still on its way.
\<close>

fun knows_flag :: "wait_pc \<Rightarrow> bool" where
  "knows_flag (Leaving timed r) = r"
| "knows_flag (Back timed r) = r"
| "knows_flag Stored = True"
| "knows_flag Announcing = True"
| "knows_flag Notify_back = True"
| "knows_flag _ = False"

fun timeout_ok :: "wait_pc \<Rightarrow> bool" where
  "timeout_ok (Acquiring timed expired) = (expired \<longrightarrow> timed)"
| "timeout_ok (Checking timed expired) = (expired \<longrightarrow> timed)"
| "timeout_ok (Leaving timed r) = (timed \<or> r)"
| "timeout_ok (Back timed r) = (timed \<or> r)"
| "timeout_ok _ = True"

definition will_announce :: "thread_wait \<Rightarrow> bool" where
  "will_announce s \<longleftrightarrow> (\<exists>u. pc_of s u = Stored \<or> pc_of s u = Announcing)"

definition wait_inv :: "thread_wait \<Rightarrow> bool" where
  "wait_inv s \<longleftrightarrow>
     (\<forall>t. mutex_owner s = Some t \<longleftrightarrow> holds_mutex (pc_of s t)) \<and>
     (\<forall>t. knows_flag (pc_of s t) \<longrightarrow> notify_flag s) \<and>
     (\<forall>t. timeout_ok (pc_of s t)) \<and>
     (\<forall>t timed. notify_flag s \<longrightarrow> pc_of s t = Sleeping timed \<longrightarrow> will_announce s)"

lemma wake_pc [simp]:
  "holds_mutex (wake p) = holds_mutex p" "knows_flag (wake p) = knows_flag p" "timeout_ok (wake p) = timeout_ok p"
  "wake p \<noteq> Sleeping timed"
  by (cases p; simp)+

lemma wait_inv_made: "wait_inv make_thread_wait"
  by (simp add: wait_inv_def make_thread_wait_def)

text \<open>One thread moves.\<close>

lemma wait_inv_goto:
  assumes "wait_inv s" and "holds_mutex p = holds_mutex (pc_of s t)"
    and "knows_flag p \<Longrightarrow> notify_flag s" and "timeout_ok p" and "\<And>timed. p \<noteq> Sleeping timed"
    and "pc_of s t \<noteq> Stored" and "pc_of s t \<noteq> Announcing"
  shows "wait_inv (goto t p s)"
proof -
  have "will_announce s \<Longrightarrow> will_announce (goto t p s)"
    using assms(6,7) by (auto simp: will_announce_def goto_def)
  with assms(1-5) show ?thesis by (auto simp: wait_inv_def goto_def)
qed

lemma wait_inv_locked:
  assumes "wait_inv s" and "mutex_owner s = None" and "holds_mutex p" and "\<not> knows_flag p" and "timeout_ok p"
    and "pc_of s t \<noteq> Announcing"
  shows "wait_inv (locked t p s)"
proof -
  have free: "\<not> holds_mutex (pc_of s u)" for u
    using assms(1,2) by (metis wait_inv_def option.distinct(1))
  then have "pc_of s t \<noteq> Stored" by (metis holds_mutex.simps(4))
  then have "will_announce s \<Longrightarrow> will_announce (locked t p s)"
    using assms(6) by (auto simp: will_announce_def locked_def goto_def)
  with assms(1,3-5) free show ?thesis by (auto simp: wait_inv_def locked_def goto_def)
qed

lemma wait_inv_unlocked:
  assumes "wait_inv s" and "holds_mutex (pc_of s t)" and "\<not> holds_mutex p"
    and "knows_flag p \<Longrightarrow> notify_flag s" and "timeout_ok p" and "\<And>timed. p = Sleeping timed \<Longrightarrow> \<not> notify_flag s"
    and "pc_of s t = Stored \<Longrightarrow> p = Announcing"
  shows "wait_inv (unlocked t p s)"
proof -
  have owner: "mutex_owner s = Some t" using assms(1,2) by (simp add: wait_inv_def)
  then have others: "u \<noteq> t \<Longrightarrow> \<not> holds_mutex (pc_of s u)" for u
    using assms(1) by (metis wait_inv_def option.inject)
  have "pc_of s t \<noteq> Announcing" using assms(2) by auto
  then have "will_announce s \<Longrightarrow> will_announce (unlocked t p s)"
    using assms(7) by (cases "pc_of s t = Stored") (auto simp: will_announce_def unlocked_def goto_def)
  with assms(1,3-6) others show ?thesis by (auto simp: wait_inv_def unlocked_def goto_def)
qed

lemma thread_step_inv:
  assumes "thread_step t s u" and inv: "wait_inv s"
  shows "wait_inv u"
proof -
  have flag: "knows_flag (pc_of s t) \<Longrightarrow> notify_flag s" and timeout: "timeout_ok (pc_of s t)"
    using inv by (metis wait_inv_def)+
  from assms(1) show ?thesis
  proof cases
    case (stores)
    have "mutex_owner s = Some t" using inv stores(2) by (simp add: wait_inv_def)
    moreover have "will_announce u" using stores(1) by (auto simp: will_announce_def goto_def)
    ultimately show ?thesis using inv stores by (auto simp: wait_inv_def goto_def)
  next
    case announces
    then have "notify_flag s" using inv by (metis wait_inv_def knows_flag.simps(4))
    with announces inv show ?thesis by (auto simp: wait_inv_def goto_def)
  qed (use flag timeout in \<open>auto intro!: wait_inv_goto [OF inv] wait_inv_locked [OF inv] wait_inv_unlocked [OF inv]\<close>)
qed

lemma outside_step_inv: "outside_step s u \<Longrightarrow> wait_inv s \<Longrightarrow> wait_inv u"
proof (induction rule: outside_step.induct)
  case (wait_notice s t)
  then show ?case by (cases "pc_of s t") (auto intro: wait_inv_goto)
next
  case (wait_notice_for s t)
  then show ?case by (cases "pc_of s t") (auto intro: wait_inv_goto)
next
  case (notify s t)
  then show ?case by (cases "pc_of s t") (auto intro: wait_inv_goto)
qed (auto intro: wait_inv_goto)

lemma wait_reachable_inv: "wait_reachable s \<Longrightarrow> wait_inv s"
  by (induction rule: wait_reachable.induct) (auto intro: wait_inv_made thread_step_inv outside_step_inv)

section \<open>A wait ends\<close>

text \<open>Steps of threads inside the calls.\<close>

definition inner :: "thread_wait \<Rightarrow> thread_wait \<Rightarrow> bool" where
  "inner s u \<longleftrightarrow> (\<exists>t. thread_step t s u)"

lemma inner_steps: "thread_step t s u \<Longrightarrow> inner\<^sup>*\<^sup>* u v \<Longrightarrow> inner\<^sup>*\<^sup>* s v"
  by (meson converse_rtranclp_into_rtranclp inner_def)

lemma leave_steps:
  "pc_of s t = Leaving timed r \<Longrightarrow> inner\<^sup>*\<^sup>* s (unlocked t (Back timed r) s)"
  by (rule inner_steps [OF thread_step.leaves rtranclp.rtrancl_refl])

lemma check_steps:
  assumes "pc_of s t = Checking timed expired" and "notify_flag s"
  shows "inner\<^sup>*\<^sup>* s (unlocked t (Back timed True) s)"
proof -
  have "inner\<^sup>*\<^sup>* (goto t (Leaving timed True) s) (unlocked t (Back timed True) (goto t (Leaving timed True) s))"
    by (rule leave_steps) (simp add: goto_def)
  then show ?thesis
    using inner_steps [OF thread_step.finds [OF assms]] by (simp add: unlocked_def goto_def)
qed

lemma acquire_steps:
  assumes "pc_of s t = Acquiring timed expired" and "notify_flag s" and "mutex_owner s = None"
  shows "\<exists>u. inner\<^sup>*\<^sup>* s u \<and> pc_of u t = Back timed True"
proof -
  let ?l = "locked t (Checking timed expired) s"
  have "inner\<^sup>*\<^sup>* ?l (unlocked t (Back timed True) ?l)"
    using assms(2) by (intro check_steps) (auto simp: locked_def goto_def)
  with inner_steps [OF thread_step.acquires [OF assms(1,3)]]
  have "inner\<^sup>*\<^sup>* s (unlocked t (Back timed True) ?l)" by blast
  moreover have "pc_of (unlocked t (Back timed True) ?l) t = Back timed True" by (simp add: unlocked_def goto_def)
  ultimately show ?thesis by blast
qed

text \<open>The owner of the mutex gives it up.\<close>

lemma release_steps:
  assumes "wait_inv s" and "notify_flag s" and "pc_of s t = Acquiring timed expired"
  shows "\<exists>u. inner\<^sup>*\<^sup>* s u \<and> notify_flag u \<and> mutex_owner u = None \<and> pc_of u t = pc_of s t"
proof (cases "mutex_owner s")
  case None
  with assms(2) show ?thesis by blast
next
  case (Some x)
  then have x: "holds_mutex (pc_of s x)" using assms(1) by (metis wait_inv_def)
  then have "x \<noteq> t" using assms(3) by auto
  have "\<exists>p. inner\<^sup>*\<^sup>* s (unlocked x p s)"
  proof (cases "pc_of s x")
    case (Checking timed expired)
    then show ?thesis using check_steps assms(2) by blast
  next
    case (Leaving timed r)
    then show ?thesis using leave_steps by blast
  next
    case Storing
    let ?g = "goto x Stored (s\<lparr>notify_flag := True\<rparr>)"
    have "thread_step x ?g (unlocked x Announcing ?g)" by (rule thread_step.releases) (simp add: goto_def)
    then have "inner\<^sup>*\<^sup>* ?g (unlocked x Announcing ?g)" using inner_steps by blast
    with inner_steps [OF thread_step.stores [OF Storing]]
    have "inner\<^sup>*\<^sup>* s (unlocked x Announcing ?g)" by blast
    moreover have "unlocked x Announcing ?g = unlocked x Announcing s"
      using assms(2) by (simp add: unlocked_def goto_def)
    ultimately show ?thesis by auto
  next
    case Stored
    then show ?thesis using inner_steps [OF thread_step.releases] by blast
  qed (use x in simp_all)
  then obtain p where "inner\<^sup>*\<^sup>* s (unlocked x p s)" ..
  with assms(2) \<open>x \<noteq> t\<close> show ?thesis by (intro exI) (auto simp: unlocked_def goto_def)
qed

text \<open>A sleeping thread is woken.\<close>

lemma wake_steps:
  assumes "wait_inv s" and "notify_flag s" and "pc_of s t = Sleeping timed"
  shows "\<exists>u. inner\<^sup>*\<^sup>* s u \<and> notify_flag u \<and> pc_of u t = Acquiring timed False"
proof -
  have announce: "\<exists>u. inner\<^sup>*\<^sup>* v u \<and> notify_flag u \<and> pc_of u t = Acquiring timed False"
    if "pc_of v x = Announcing" "notify_flag v" "pc_of v t = Sleeping timed" for v x
  proof -
    have "t \<noteq> x" using that by auto
    moreover have "inner\<^sup>*\<^sup>* v (goto x Notify_back (v\<lparr>pc_of := wake \<circ> pc_of v\<rparr>))"
      using inner_steps [OF thread_step.announces [OF that(1)]] by blast
    ultimately show ?thesis
      using that(2,3) by (intro exI [of _ "goto x Notify_back (v\<lparr>pc_of := wake \<circ> pc_of v\<rparr>)"])
        (auto simp: goto_def)
  qed
  obtain x where "pc_of s x = Stored \<or> pc_of s x = Announcing"
    using assms by (auto simp: wait_inv_def will_announce_def)
  then show ?thesis
  proof
    assume x: "pc_of s x = Stored"
    let ?v = "unlocked x Announcing s"
    have "t \<noteq> x" using x assms(3) by auto
    then have "\<exists>u. inner\<^sup>*\<^sup>* ?v u \<and> notify_flag u \<and> pc_of u t = Acquiring timed False"
      using assms(2,3) by (intro announce [of ?v x]) (auto simp: unlocked_def goto_def)
    with inner_steps [OF thread_step.releases [OF x]] show ?thesis by blast
  qed (use assms(2,3) announce in blast)
qed

lemma inner_inv: "inner\<^sup>*\<^sup>* s u \<Longrightarrow> wait_inv s \<Longrightarrow> wait_inv u"
  by (induction rule: rtranclp_induct) (auto simp: inner_def intro: thread_step_inv)

fun waits_in :: "wait_pc \<Rightarrow> bool" where
  "waits_in (Acquiring timed expired) = True"
| "waits_in (Checking timed expired) = True"
| "waits_in (Sleeping timed) = True"
| "waits_in _ = False"

lemma wait_can_end:
  assumes "wait_inv s" and "notify_flag s" and "waits_in (pc_of s t)"
  shows "\<exists>u timed. inner\<^sup>*\<^sup>* s u \<and> pc_of u t = Back timed True"
proof -
  have acquire: "\<exists>u. inner\<^sup>*\<^sup>* v u \<and> pc_of u t = Back timed True"
    if v: "wait_inv v" "notify_flag v" "pc_of v t = Acquiring timed expired" for v timed expired
  proof -
    obtain w where w: "inner\<^sup>*\<^sup>* v w" "notify_flag w" "mutex_owner w = None" "pc_of w t = pc_of v t"
      using release_steps [OF v] by blast
    with acquire_steps [of w t timed expired] v(3) obtain u where "inner\<^sup>*\<^sup>* w u" "pc_of u t = Back timed True"
      by auto
    with w(1) show ?thesis by (meson rtranclp_trans)
  qed
  show ?thesis
  proof (cases "pc_of s t")
    case (Acquiring timed expired)
    with assms acquire show ?thesis by blast
  next
    case (Checking timed expired)
    with check_steps [OF Checking assms(2)] show ?thesis by (auto simp: unlocked_def goto_def)
  next
    case (Sleeping timed)
    with wake_steps [OF assms(1,2)] obtain v where v: "inner\<^sup>*\<^sup>* s v" "notify_flag v"
      "pc_of v t = Acquiring timed False" by blast
    with acquire inner_inv [OF v(1) assms(1)] obtain u where "inner\<^sup>*\<^sup>* v u" "pc_of u t = Back timed True" by blast
    with v(1) show ?thesis by (meson rtranclp_trans)
  qed (use assms(3) in simp_all)
qed

text \<open>A call of \<open>notify\<close> has begun: the flag is stored, or a thread is on its way to store it.\<close>

definition notifies :: "thread_wait \<Rightarrow> bool" where
  "notifies s \<longleftrightarrow> notify_flag s \<or> (\<exists>x. pc_of s x = Notify_acquiring \<or> pc_of s x = Storing)"

fun on_its_way :: "wait_pc \<Rightarrow> bool" where
  "on_its_way Notify_acquiring = True"
| "on_its_way Storing = True"
| "on_its_way _ = False"

lemma on_its_way_wake [simp]: "on_its_way (wake p) = on_its_way p"
  by (cases p) simp_all

lemma notifies_iff: "notifies s \<longleftrightarrow> notify_flag s \<or> (\<exists>x. on_its_way (pc_of s x))"
  unfolding notifies_def by (metis on_its_way.elims(2) on_its_way.simps(1,2))

lemma notifies_goto:
  "on_its_way (pc_of s t) = on_its_way p \<Longrightarrow> notifies (goto t p s) = notifies s"
  by (auto simp: notifies_iff goto_def)

lemma notifies_fields [simp]:
  "notifies (s\<lparr>mutex_owner := m\<rparr>) = notifies s" "notifies (s\<lparr>pc_of := wake \<circ> pc_of s\<rparr>) = notifies s"
  by (simp_all add: notifies_iff)

lemma notifies_begins: "on_its_way p \<Longrightarrow> notifies (goto t p s)"
  by (auto simp: notifies_iff goto_def)

lemma thread_step_notifies:
  assumes "thread_step t s u"
  shows "notifies u = notifies s"
  using assms
proof cases
  case notify_acquires
  moreover have "notifies s" using notify_acquires(2) by (auto simp: notifies_def)
  ultimately show ?thesis by (simp add: locked_def notifies_begins)
next
  case stores
  moreover have "notifies s" using stores(2) by (auto simp: notifies_def)
  ultimately show ?thesis by (simp add: notifies_def goto_def)
qed (simp_all add: locked_def unlocked_def notifies_goto)

text \<open>The flag is stored by steps of the threads inside the calls.\<close>

lemma storing_steps:
  assumes "pc_of s x = Storing"
  shows "\<exists>u. inner\<^sup>*\<^sup>* s u \<and> notify_flag u"
  using inner_steps [OF thread_step.stores [OF assms] rtranclp.rtrancl_refl] by (auto simp: goto_def)

lemma notify_acquiring_steps:
  assumes "pc_of s x = Notify_acquiring" and "mutex_owner s = None"
  shows "\<exists>u. inner\<^sup>*\<^sup>* s u \<and> notify_flag u"
proof -
  have "pc_of (locked x Storing s) x = Storing" by (simp add: locked_def goto_def)
  then obtain u where "inner\<^sup>*\<^sup>* (locked x Storing s) u" "notify_flag u" using storing_steps by blast
  with inner_steps [OF thread_step.notify_acquires [OF assms]] show ?thesis by blast
qed

lemma notification_is_stored:
  assumes "wait_inv s" and "notifies s"
  shows "\<exists>u. inner\<^sup>*\<^sup>* s u \<and> notify_flag u"
proof (cases "notify_flag s \<or> (\<exists>x. pc_of s x = Storing)")
  case True
  then show ?thesis using storing_steps by blast
next
  case no: False
  then obtain x where x: "pc_of s x = Notify_acquiring" using assms(2) by (auto simp: notifies_def)
  show ?thesis
  proof (cases "mutex_owner s")
    case None
    with x show ?thesis by (rule notify_acquiring_steps)
  next
    case (Some y)
    then have y: "holds_mutex (pc_of s y)" using assms(1) by (metis wait_inv_def)
    then have "y \<noteq> x" using x by auto
    have "\<not> knows_flag (pc_of s y)" using assms(1) no by (auto simp: wait_inv_def)
    have release: "\<exists>u. inner\<^sup>*\<^sup>* s u \<and> notify_flag u" if "inner\<^sup>*\<^sup>* s (unlocked y p s)" for p
    proof -
      have "pc_of (unlocked y p s) x = Notify_acquiring" "mutex_owner (unlocked y p s) = None"
        using x \<open>y \<noteq> x\<close> by (simp_all add: unlocked_def goto_def)
      then obtain u where "inner\<^sup>*\<^sup>* (unlocked y p s) u" "notify_flag u" using notify_acquiring_steps by blast
      with that show ?thesis by (meson rtranclp_trans)
    qed
    show ?thesis
    proof (cases "pc_of s y")
      case (Checking timed expired)
      show ?thesis
      proof (cases expired)
        case True
        let ?g = "goto y (Leaving timed False) s"
        have "inner\<^sup>*\<^sup>* ?g (unlocked y (Back timed False) ?g)" by (rule leave_steps) (simp add: goto_def)
        moreover have "unlocked y (Back timed False) ?g = unlocked y (Back timed False) s"
          by (simp add: unlocked_def goto_def)
        moreover have "thread_step y s ?g" using Checking True no by (intro thread_step.gives_up) auto
        ultimately show ?thesis using inner_steps release by metis
      next
        case False
        then have "thread_step y s (unlocked y (Sleeping timed) s)"
          using Checking no by (intro thread_step.sleeps) auto
        then show ?thesis using inner_steps release by blast
      qed
    next
      case (Leaving timed r)
      then show ?thesis using leave_steps release by blast
    next
      case Storing
      then show ?thesis using no by blast
    qed (use y \<open>\<not> knows_flag (pc_of s y)\<close> in simp_all)
  qed
qed

section \<open>A notification from a signal handler\<close>

text \<open>
  A signal handler runs on a thread that it interrupts, and that thread goes on only when the handler has
  returned.  When thread \<open>t\<close> was interrupted with the mutex, a handler \<open>h\<close> that calls \<open>notify\<close> never gets
  it: no steps of threads other than \<open>t\<close> bring \<open>h\<close> past the acquisition.
\<close>

lemma handler_blocked_step:
  assumes "thread_step x s u" and "x \<noteq> t" and "wait_inv s" and "holds_mutex (pc_of s t)"
    and "pc_of s h = Notify_acquiring"
  shows "pc_of u h = Notify_acquiring \<and> holds_mutex (pc_of u t)"
proof -
  have owner: "mutex_owner s = Some t" using assms(3,4) by (simp add: wait_inv_def)
  from assms(1) show ?thesis
    by cases (use owner assms(2,4,5) in \<open>auto simp: goto_def locked_def unlocked_def\<close>)
qed

lemma handler_never_notifies:
  assumes "(\<lambda>v w. \<exists>x. x \<noteq> t \<and> thread_step x v w)\<^sup>*\<^sup>* s u" and "wait_reachable s" and "holds_mutex (pc_of s t)"
    and "pc_of s h = Notify_acquiring"
  shows "pc_of u h = Notify_acquiring"
proof -
  from assms(1) have "wait_inv u \<and> holds_mutex (pc_of u t) \<and> pc_of u h = Notify_acquiring"
  proof (induction rule: rtranclp_induct)
    case base
    then show ?case using assms(2-4) wait_reachable_inv by blast
  next
    case (step v w)
    then show ?case using handler_blocked_step thread_step_inv by blast
  qed
  then show ?thesis by simp
qed

section \<open>The properties\<close>

text \<open>
  C19. Waiting for a notification, for any number of threads: at most one thread is inside the critical
  sections; a wait returns \<open>true\<close> only after a notification has stored the flag, and \<open>false\<close> only when
  it was given a timeout; and no wake-up is lost: while the flag is set a thread sleeps only if a
  notification that will wake it has not yet called \<open>notify_all\<close>.
\<close>

theorem no_wake_up_is_lost:
  assumes "wait_reachable s"
  shows "(holds_mutex (pc_of s t) \<and> holds_mutex (pc_of s u) \<longrightarrow> t = u) \<and>
    (pc_of s t = Back timed r \<longrightarrow> (if r then notify_flag s else timed)) \<and>
    (notify_flag s \<and> pc_of s t = Sleeping timed \<longrightarrow> (\<exists>u. pc_of s u = Stored \<or> pc_of s u = Announcing))"
proof (intro conjI impI)
  have inv: "wait_inv s" by (rule wait_reachable_inv) (rule assms)
  show "t = u" if "holds_mutex (pc_of s t) \<and> holds_mutex (pc_of s u)"
    using inv that by (metis wait_inv_def option.inject)
  show "if r then notify_flag s else timed" if "pc_of s t = Back timed r"
    using inv that by (metis wait_inv_def knows_flag.simps(2) timeout_ok.simps(4))
  show "\<exists>u. pc_of s u = Stored \<or> pc_of s u = Announcing"
    if "notify_flag s \<and> pc_of s t = Sleeping timed"
    using inv that by (auto simp: wait_inv_def will_announce_def)
qed

text \<open>Thread 0 sleeps, and thread 1 has stored the flag.\<close>

definition sample_sleeping :: thread_wait where
  "sample_sleeping = make_thread_wait\<lparr>pc_of := (\<lambda>_. Outside)(0 := Sleeping False)\<rparr>"

definition sample_stored :: thread_wait where
  "sample_stored = \<lparr>notify_flag = True, mutex_owner = Some 1,
     pc_of = (\<lambda>_. Outside)(0 := Sleeping False, 1 := Stored)\<rparr>"

lemma sample_sleeping_reachable: "wait_reachable sample_sleeping"
proof -
  let ?a = "goto 0 (Acquiring False False) make_thread_wait" let ?c = "locked 0 (Checking False False) ?a"
  have "wait_reachable ?a"
    by (rule wait_reachable.outside [OF wait_reachable.made outside_step.wait_notice])
      (simp add: make_thread_wait_def)
  then have "wait_reachable ?c"
    by (rule wait_reachable.inside [OF _ thread_step.acquires]) (simp_all add: goto_def make_thread_wait_def)
  then have "wait_reachable (unlocked 0 (Sleeping False) ?c)"
    by (rule wait_reachable.inside [OF _ thread_step.sleeps])
      (simp_all add: locked_def goto_def make_thread_wait_def)
  then show ?thesis
    by (simp add: sample_sleeping_def unlocked_def locked_def goto_def make_thread_wait_def)
qed

lemma sample_stored_reachable: "wait_reachable sample_stored"
proof -
  let ?n = "goto 1 Notify_acquiring sample_sleeping" let ?l = "locked 1 Storing ?n"
  have "wait_reachable ?n"
    by (rule wait_reachable.outside [OF sample_sleeping_reachable outside_step.notify])
      (simp add: sample_sleeping_def)
  then have "wait_reachable ?l"
    by (rule wait_reachable.inside [OF _ thread_step.notify_acquires])
      (simp_all add: goto_def sample_sleeping_def make_thread_wait_def)
  then have "wait_reachable (goto 1 Stored (?l\<lparr>notify_flag := True\<rparr>))"
    by (rule wait_reachable.inside [OF _ thread_step.stores]) (simp add: locked_def goto_def)
  then show ?thesis
    by (simp add: sample_stored_def sample_sleeping_def locked_def goto_def make_thread_wait_def)
qed

theorem no_wake_up_is_lost_witness:
  "pc_of sample_stored 0 = Sleeping False \<and>
   (\<exists>u. pc_of sample_stored u = Stored \<or> pc_of sample_stored u = Announcing)"
  using no_wake_up_is_lost [OF sample_stored_reachable, of 0 0 False True]
  by (simp add: sample_stored_def)

text \<open>
  C28. Once the flag is stored every wait can return \<open>true\<close>, wherever the threads are and whoever holds
  the mutex, by steps of the threads that are inside the calls alone: no further call, timeout or
  spurious wake-up is needed.
\<close>

theorem notified_wait_ends:
  assumes "wait_reachable s" and "notify_flag s" and "waits_in (pc_of s t)"
  shows "\<exists>u timed. (\<lambda>v w. \<exists>x. thread_step x v w)\<^sup>*\<^sup>* s u \<and> pc_of u t = Back timed True"
proof -
  have "inner = (\<lambda>v w. \<exists>x. thread_step x v w)" by (intro ext) (simp add: inner_def)
  then show ?thesis using wait_can_end [OF wait_reachable_inv [OF assms(1)] assms(2,3)] by simp
qed

theorem notified_wait_ends_witness:
  "\<exists>u timed. (\<lambda>v w. \<exists>x. thread_step x v w)\<^sup>*\<^sup>* sample_stored u \<and> pc_of u 0 = Back timed True"
  using notified_wait_ends [OF sample_stored_reachable, of 0] by (simp add: sample_stored_def)

end
