(* ===== verification/Main_Sequence.thy ===== *)
theory Main_Sequence
  imports Example_Main Dispatcher_Cleanup Thread_Wait
begin

text \<open>
  The main thread of \<open>example/main.cpp\<close> from its start to its end: it waits for the signal, gives up its
  client and its server, runs the other example and terminates the dispatcher, while the worker calls
  functions of both objects and the threads of their io contexts enqueue more.  What the functions do is
  modelled in \<open>Example_Main\<close>; here it matters which of them are called when.
\<close>

section \<open>The state\<close>

text \<open>
  The functions of the one dispatcher: those of the client, and those of the server.  A slot that sends
  goes through the variable that main captured by reference.
\<close>

type_synonym main_fun = "client_fun + server_fun"

fun reads_client :: "main_fun \<Rightarrow> bool" where
  "reads_client (Inl (Run_signal (Client_connected pid))) = True"
| "reads_client _ = False"

fun reads_server :: "main_fun \<Rightarrow> bool" where
  "reads_server (Inr (Srv_signal (Server_received v ep))) = non_empty_filesystem_endpoint_path ep"
| "reads_server _ = False"

text \<open>
  Where the main thread is.  An assignment of \<open>nullptr\<close> empties the variable before it destroys the
  object: \<open>Client_cleared\<close> is between the two, \<open>Client_detaching\<close> in the first half of \<open>detach\<close> and
  \<open>Client_stopping\<close> in the wait for the cleanup.
\<close>

datatype main_pc =
    Starting
  | Waiting
  | Client_cleared
  | Client_detaching
  | Client_stopping
  | Server_cleared
  | Server_detaching
  | Server_stopping
  | Example_running
  | Terminating
  | Finished

text \<open>The main thread is thread 0 of the wait.\<close>

record main_state =
  main_at :: main_pc
  global_wait :: thread_wait
  main_threads :: "main_fun threads"
  last_line :: string

fun client_variable_set :: "main_pc \<Rightarrow> bool" where
  "client_variable_set Starting = True"
| "client_variable_set Waiting = True"
| "client_variable_set _ = False"

fun server_variable_set :: "main_pc \<Rightarrow> bool" where
  "server_variable_set Client_cleared = True"
| "server_variable_set Client_detaching = True"
| "server_variable_set Client_stopping = True"
| "server_variable_set pc = client_variable_set pc"

text \<open>A slot goes through a variable that is empty.\<close>

definition null_read :: "main_state \<Rightarrow> bool" where
  "null_read s \<longleftrightarrow>
     (case worker (main_threads s) of
        Executing e \<Rightarrow> reads_client (entry_function e) \<and> \<not> client_variable_set (main_at s) \<or>
          reads_server (entry_function e) \<and> \<not> server_variable_set (main_at s)
      | _ \<Rightarrow> False)"

text \<open>
  Both objects are attached and have been started; the sends that follow are among the steps by which the
  functions of the client are enqueued.
\<close>

definition main_begin :: "u64 \<Rightarrow> u64 \<Rightarrow> u64 \<Rightarrow> main_state" where
  "main_begin own coid soid =
     \<lparr>main_at = Starting, global_wait = make_thread_wait,
      main_threads = (initial_threads own)
        \<lparr>disp := snd (enqueue coid (Inl Run_connect) when_immediately
           (snd (attach coid (snd (enqueue soid (Inr Srv_bind) when_immediately
             (snd (attach soid (initial_dispatcher own))))))))\<rparr>,
      last_line = []\<rparr>"

section \<open>Steps\<close>

text \<open>The two halves of the \<open>detach\<close> of a destructor, with its cleanup \<open>f\<close>.\<close>

definition begin_detach :: "u64 \<Rightarrow> main_fun threads \<Rightarrow> main_fun threads" where
  "begin_detach oid th = th\<lparr>disp := snd (detach oid (disp th)), detaching := insert oid (detaching th)\<rparr>"

definition end_detach :: "u64 \<Rightarrow> u64 \<Rightarrow> main_fun \<Rightarrow> main_fun threads \<Rightarrow> main_fun threads" where
  "end_detach own oid f th =
     th\<lparr>disp := snd (enqueue own f when_internal_detached (disp th)),
        detaching := detaching th - {oid}, gone := insert oid (gone th)\<rparr>"

text \<open>No cleanup is queued or being run, so that each has notified the thread that waits for it.\<close>

definition cleanup_over :: "u64 \<Rightarrow> main_fun threads \<Rightarrow> bool" where
  "cleanup_over own th \<longleftrightarrow> (\<forall>e. object_id_value e = own \<longrightarrow> e \<notin> set (queue (disp th)) \<and> \<not> busy_with (worker th) e)"

inductive main_step :: "u64 \<Rightarrow> u64 \<Rightarrow> u64 \<Rightarrow> main_state \<Rightarrow> main_state \<Rightarrow> bool" for own coid soid where
  waits: "main_at s = Starting \<Longrightarrow>
    main_step own coid soid s (s\<lparr>main_at := Waiting, global_wait := goto 0 (Acquiring False False) (global_wait s)\<rparr>)"
| notified: "main_at s = Waiting \<Longrightarrow> pc_of (global_wait s) 0 = Back False r \<Longrightarrow>
    main_step own coid soid s (s\<lparr>main_at := Client_cleared\<rparr>)"
| client_detaches: "main_at s = Client_cleared \<Longrightarrow> attached coid (disp (main_threads s)) \<Longrightarrow>
    main_step own coid soid s (s\<lparr>main_at := Client_detaching, main_threads := begin_detach coid (main_threads s)\<rparr>)"
| client_detached: "main_at s = Client_detaching \<Longrightarrow> detach_wait_over False coid (disp (main_threads s)) \<Longrightarrow>
    main_step own coid soid s
      (s\<lparr>main_at := Client_stopping, main_threads := end_detach own coid (Inl Run_stop) (main_threads s)\<rparr>)"
| client_destroyed: "main_at s = Client_stopping \<Longrightarrow> cleanup_over own (main_threads s) \<Longrightarrow>
    main_step own coid soid s (s\<lparr>main_at := Server_cleared\<rparr>)"
| server_detaches: "main_at s = Server_cleared \<Longrightarrow> attached soid (disp (main_threads s)) \<Longrightarrow>
    main_step own coid soid s (s\<lparr>main_at := Server_detaching, main_threads := begin_detach soid (main_threads s)\<rparr>)"
| server_detached: "main_at s = Server_detaching \<Longrightarrow> detach_wait_over False soid (disp (main_threads s)) \<Longrightarrow>
    main_step own coid soid s
      (s\<lparr>main_at := Server_stopping, main_threads := end_detach own soid (Inr Srv_stop) (main_threads s)\<rparr>)"
| server_destroyed: "main_at s = Server_stopping \<Longrightarrow> cleanup_over own (main_threads s) \<Longrightarrow>
    main_step own coid soid s (s\<lparr>main_at := Example_running\<rparr>)"
| terminates: "main_at s = Example_running \<Longrightarrow>
    main_step own coid soid s
      (s\<lparr>main_at := Terminating, main_threads := (main_threads s)\<lparr>disp := terminate (disp (main_threads s))\<rparr>\<rparr>)"
| finishes: "main_at s = Terminating \<Longrightarrow> worker (main_threads s) = Exited \<Longrightarrow>
    main_step own coid soid s (s\<lparr>main_at := Finished, last_line := ''finished''\<rparr>)"

text \<open>
  The other threads: the worker, the functions of both objects that the threads of their io contexts (and
  functions being called) enqueue, the wait of main, and the signal, whose handler notifies.
\<close>

inductive other_step :: "u64 \<Rightarrow> u64 \<Rightarrow> main_state \<Rightarrow> main_state \<Rightarrow> bool" for coid soid where
  works: "worker_step (main_threads s) th \<Longrightarrow> other_step coid soid s (s\<lparr>main_threads := th\<rparr>)"
| client_enqueues: "enqueue coid (Inl f) when (disp (main_threads s)) = (True, d) \<Longrightarrow> when_immediately \<le> when \<Longrightarrow>
    other_step coid soid s (s\<lparr>main_threads := (main_threads s)\<lparr>disp := d\<rparr>\<rparr>)"
| server_enqueues: "enqueue soid (Inr g) when (disp (main_threads s)) = (True, d) \<Longrightarrow> when_immediately \<le> when \<Longrightarrow>
    other_step coid soid s (s\<lparr>main_threads := (main_threads s)\<lparr>disp := d\<rparr>\<rparr>)"
| in_wait: "thread_step x (global_wait s) w \<Longrightarrow> other_step coid soid s (s\<lparr>global_wait := w\<rparr>)"
| wakes_up: "pc_of (global_wait s) 0 = Sleeping timed \<Longrightarrow>
    other_step coid soid s (s\<lparr>global_wait := goto 0 (Acquiring timed False) (global_wait s)\<rparr>)"
| signals: "x \<noteq> 0 \<Longrightarrow> may_call (pc_of (global_wait s) x) \<Longrightarrow>
    other_step coid soid s (s\<lparr>global_wait := goto x Notify_acquiring (global_wait s)\<rparr>)"

inductive main_reachable :: "u64 \<Rightarrow> u64 \<Rightarrow> u64 \<Rightarrow> main_state \<Rightarrow> bool" for own coid soid where
  begins: "main_reachable own coid soid (main_begin own coid soid)"
| main: "main_reachable own coid soid s \<Longrightarrow> main_step own coid soid s t \<Longrightarrow> main_reachable own coid soid t"
| other: "main_reachable own coid soid s \<Longrightarrow> other_step coid soid s t \<Longrightarrow> main_reachable own coid soid t"

section \<open>The invariant\<close>

fun stage :: "main_pc \<Rightarrow> nat" where
  "stage Starting = 0"
| "stage Waiting = 1"
| "stage Client_cleared = 2"
| "stage Client_detaching = 3"
| "stage Client_stopping = 4"
| "stage Server_cleared = 5"
| "stage Server_detaching = 6"
| "stage Server_stopping = 7"
| "stage Example_running = 8"
| "stage Terminating = 9"
| "stage Finished = 10"

definition entry_ok :: "u64 \<Rightarrow> u64 \<Rightarrow> u64 \<Rightarrow> main_fun dispatch_entry \<Rightarrow> bool" where
  "entry_ok own coid soid e \<longleftrightarrow>
     (reads_client (entry_function e) \<longrightarrow> object_id_value e = coid) \<and>
     (reads_server (entry_function e) \<longrightarrow> object_id_value e = soid) \<and>
     (object_id_value e = own \<longrightarrow> entry_when e = when_internal_detached)"

definition threads_ok :: "u64 \<Rightarrow> u64 \<Rightarrow> u64 \<Rightarrow> main_fun threads \<Rightarrow> bool" where
  "threads_ok own coid soid th \<longleftrightarrow> threads_inv th \<and> exited_inv th \<and> queue_sorted (disp th) \<and>
     (\<forall>e. e \<in> set (queue (disp th)) \<or> busy_with (worker th) e \<longrightarrow> entry_ok own coid soid e)"

text \<open>Main's call of \<open>wait_notice\<close>, which has no timeout.\<close>

fun main_waits :: "wait_pc \<Rightarrow> bool" where
  "main_waits (Acquiring timed expired) = (\<not> timed \<and> \<not> expired)"
| "main_waits (Checking timed expired) = (\<not> timed \<and> \<not> expired)"
| "main_waits (Sleeping timed) = (\<not> timed)"
| "main_waits (Leaving timed r) = (\<not> timed)"
| "main_waits (Back timed r) = (\<not> timed)"
| "main_waits _ = False"

definition wait_stage :: "main_pc \<Rightarrow> thread_wait \<Rightarrow> bool" where
  "wait_stage pc w \<longleftrightarrow> wait_reachable w \<and> (pc = Starting \<longrightarrow> pc_of w 0 = Outside) \<and>
     (pc = Waiting \<longrightarrow> main_waits (pc_of w 0)) \<and> (2 \<le> stage pc \<longrightarrow> notify_flag w)"

text \<open>Which objects are attached, which are gone, and whether the dispatcher exits.\<close>

definition threads_stage :: "u64 \<Rightarrow> u64 \<Rightarrow> u64 \<Rightarrow> main_pc \<Rightarrow> main_fun threads \<Rightarrow> bool" where
  "threads_stage own coid soid pc th \<longleftrightarrow>
     object_ids (disp th) =
       insert own ((if stage pc < 3 then {coid} else {}) \<union> (if stage pc < 6 then {soid} else {})) \<and>
     (exiting (disp th) \<longleftrightarrow> 9 \<le> stage pc) \<and>
     (4 \<le> stage pc \<longrightarrow> coid \<in> gone th) \<and> (7 \<le> stage pc \<longrightarrow> soid \<in> gone th) \<and>
     (pc = Finished \<longrightarrow> worker th = Exited)"

definition main_inv :: "u64 \<Rightarrow> u64 \<Rightarrow> u64 \<Rightarrow> main_state \<Rightarrow> bool" where
  "main_inv own coid soid s \<longleftrightarrow> threads_ok own coid soid (main_threads s) \<and>
     threads_stage own coid soid (main_at s) (main_threads s) \<and> wait_stage (main_at s) (global_wait s)"

subsection \<open>The threads of the dispatcher\<close>

lemma worker_step_disp:
  "worker_step th th' \<Longrightarrow> same_dispatcher (disp th) (disp th') \<and> gone th' = gone th \<and>
     (queue_sorted (disp th) \<longrightarrow> queue_sorted (disp th')) \<and>
     (\<forall>e. e \<in> set (queue (disp th')) \<or> busy_with (worker th') e \<longrightarrow>
        e \<in> set (queue (disp th)) \<or> busy_with (worker th) e)"
proof (induction rule: worker_step.induct)
  case (take s src e d)
  have "queue_sorted (disp s) \<Longrightarrow> queue_sorted d"
    using queue_sorted_worker_take [of "disp s" src] take(2) by simp
  with take show ?case
    by (auto simp: worker_take_def same_dispatcher_def split: if_splits list.splits)
next
  case (leave s src d)
  then show ?case by (auto simp: worker_take_def same_dispatcher_def split: if_splits list.splits)
qed (auto simp: set_running_def same_dispatcher_def queue_sorted_def)

lemma worker_step_ok: "worker_step th th' \<Longrightarrow> threads_ok own coid soid th \<Longrightarrow> threads_ok own coid soid th'"
  using worker_step_disp [of th th']
  by (auto simp: threads_ok_def intro: worker_step_inv worker_step_exited)

lemma worker_step_stage:
  assumes "worker_step th th'" and "threads_stage own coid soid pc th"
  shows "threads_stage own coid soid pc th'"
proof -
  have "worker th \<noteq> Exited" using assms(1) by cases auto
  with assms(2) worker_step_disp [OF assms(1)] show ?thesis
    by (auto simp: threads_stage_def same_dispatcher_def)
qed

lemma enqueued_ok:
  assumes "threads_ok own coid soid th" and "enqueue oid f when (disp th) = (True, d)"
    and "when_internal_detached \<le> when"
    and "entry_ok own coid soid \<lparr>object_id_value = oid, entry_function = f, entry_when = when\<rparr>"
  shows "threads_ok own coid soid (th\<lparr>disp := d\<rparr>)"
proof -
  have d: "d = snd (enqueue oid f when (disp th))" using assms(2) by simp
  have accepted: "oid \<in> object_ids (disp th)" "\<not> exiting (disp th)"
    using enqueue_accepted [of oid f "when" "disp th"] assms(2) by simp_all
  have "client_step th (th\<lparr>disp := d\<rparr>)" using assms(2) by (rule client_step.enqueues)
  then have "threads_inv (th\<lparr>disp := d\<rparr>)" using assms(1) by (auto simp: threads_ok_def intro: client_step_inv)
  moreover have "queue_sorted d"
    unfolding d using assms(1,3) by (intro queue_sorted_enqueue) (simp_all add: threads_ok_def)
  moreover have "set (queue d) = insert \<lparr>object_id_value = oid, entry_function = f, entry_when = when\<rparr> (set (queue (disp th)))"
    unfolding d by (rule set_queue_enqueue [OF accepted])
  ultimately show ?thesis using assms(1,4) accepted(2) by (auto simp: threads_ok_def exited_inv_def d)
qed

lemma enqueued_stage:
  "enqueue oid f when (disp th) = (b, d) \<Longrightarrow> threads_stage own coid soid pc th \<Longrightarrow>
   threads_stage own coid soid pc (th\<lparr>disp := d\<rparr>)"
  using enqueue_fields [of oid f "when" "disp th"] by (simp add: threads_stage_def)

lemma begin_detach_fields [simp]:
  "object_ids (disp (begin_detach oid th)) = object_ids (disp th) - {oid}"
  "exiting (disp (begin_detach oid th)) = exiting (disp th)"
  "gone (begin_detach oid th) = gone th" "worker (begin_detach oid th) = worker th"
  by (auto simp: begin_detach_def detach_def)

lemma begin_detach_ok: "threads_ok own coid soid th \<Longrightarrow> threads_ok own coid soid (begin_detach oid th)"
  using queue_sorted_detach [of "disp th" oid]
  by (auto simp: threads_ok_def threads_inv_def exited_inv_def begin_detach_def detach_def)

lemma end_detach_ok:
  assumes "threads_ok own coid soid th" and "oid \<notin> object_ids (disp th)"
    and "detach_wait_over False oid (disp th)" and "f = Inl Run_stop \<or> f = Inr Srv_stop"
  shows "threads_ok own coid soid (end_detach own oid f th)"
proof -
  let ?d = "snd (enqueue own f when_internal_detached (disp th))"
  let ?th = "th\<lparr>gone := insert oid (gone th)\<rparr>"
  have "\<not> executes (worker th) oid"
    using assms(1,3) by (cases "worker th") (auto simp: threads_ok_def threads_inv_def detach_wait_over_def)
  then have ok: "threads_ok own coid soid ?th"
    using assms(1,2) by (auto simp: threads_ok_def threads_inv_def exited_inv_def)
  have "threads_ok own coid soid (?th\<lparr>disp := ?d\<rparr>)"
  proof (cases "fst (enqueue own f when_internal_detached (disp th))")
    case True
    then show ?thesis
      using assms(4) by (intro enqueued_ok [OF ok, of own f when_internal_detached])
        (auto simp: entry_ok_def prod_eq_iff)
  next
    case False
    then have "?d = disp th" by (auto simp: enqueue_def Let_def)
    then show ?thesis using ok by simp
  qed
  then show ?thesis by (simp add: end_detach_def threads_ok_def threads_inv_def exited_inv_def)
qed

subsection \<open>The wait of main\<close>

lemma main_waits_wake [simp]: "main_waits p \<Longrightarrow> main_waits (wake p)"
  by (cases p) simp_all

lemma thread_step_flag: "thread_step x w w' \<Longrightarrow> notify_flag w \<Longrightarrow> notify_flag w'"
  by (induction rule: thread_step.induct) (simp_all add: goto_def locked_def unlocked_def)

lemma thread_step_waits: "thread_step x w w' \<Longrightarrow> main_waits (pc_of w 0) \<Longrightarrow> main_waits (pc_of w' 0)"
  by (cases "x = 0"; induction rule: thread_step.induct) (auto simp: goto_def locked_def unlocked_def)

lemma thread_step_outside: "thread_step x w w' \<Longrightarrow> pc_of w 0 = Outside \<Longrightarrow> pc_of w' 0 = Outside"
  by (cases "x = 0"; induction rule: thread_step.induct) (auto simp: goto_def locked_def unlocked_def)

lemma thread_step_stage: "thread_step x w w' \<Longrightarrow> wait_stage pc w \<Longrightarrow> wait_stage pc w'"
  by (auto simp: wait_stage_def intro: wait_reachable.inside thread_step_flag thread_step_waits
      thread_step_outside)

subsection \<open>Every step\<close>

lemma main_inv_begin:
  assumes "own \<noteq> coid" and "own \<noteq> soid" and "coid \<noteq> soid"
  shows "main_inv own coid soid (main_begin own coid soid)"
  using assms
  by (auto simp: main_inv_def main_begin_def threads_ok_def threads_stage_def wait_stage_def threads_inv_def
      exited_inv_def entry_ok_def initial_threads_def initial_dispatcher_def attach_def enqueue_def Let_def
      queue_sorted_def when_immediately_def when_internal_detached_def make_thread_wait_def
      intro: wait_reachable.made [unfolded make_thread_wait_def])

lemma main_step_inv:
  assumes "main_step own coid soid s t" and inv: "main_inv own coid soid s"
    and "own \<noteq> coid" and "own \<noteq> soid" and "coid \<noteq> soid"
  shows "main_inv own coid soid t"
proof -
  have ok: "threads_ok own coid soid (main_threads s)"
    and st: "threads_stage own coid soid (main_at s) (main_threads s)"
    and wait: "wait_stage (main_at s) (global_wait s)"
    using inv by (simp_all add: main_inv_def)
  from assms(1) show ?thesis
  proof cases
    case waits
    have "wait_reachable (goto 0 (Acquiring False False) (global_wait s))"
      using wait waits(2) by (intro wait_reachable.outside [OF _ outside_step.wait_notice])
        (simp_all add: wait_stage_def)
    then show ?thesis using ok st waits by (auto simp: main_inv_def threads_stage_def wait_stage_def goto_def)
  next
    case (notified r)
    have "wait_inv (global_wait s)" using wait by (simp add: wait_stage_def wait_reachable_inv)
    then have "timeout_ok (pc_of (global_wait s) 0)"
      and "knows_flag (pc_of (global_wait s) 0) \<longrightarrow> notify_flag (global_wait s)"
      unfolding wait_inv_def by blast+
    then have "notify_flag (global_wait s)" using notified(3) by simp
    then show ?thesis using ok st wait notified by (auto simp: main_inv_def threads_stage_def wait_stage_def)
  next
    case client_detaches
    then show ?thesis using begin_detach_ok [OF ok] st wait assms(3-5)
      by (auto simp: main_inv_def threads_stage_def wait_stage_def)
  next
    case client_detached
    have "coid \<notin> object_ids (disp (main_threads s))" using st client_detached(2) assms(3-5) by (auto simp: threads_stage_def)
    from end_detach_ok [OF ok this client_detached(3), of "Inl Run_stop"] st wait client_detached
    show ?thesis by (auto simp: main_inv_def threads_stage_def wait_stage_def end_detach_def)
  next
    case server_detaches
    then show ?thesis using begin_detach_ok [OF ok] st wait assms(3-5)
      by (auto simp: main_inv_def threads_stage_def wait_stage_def)
  next
    case server_detached
    have "soid \<notin> object_ids (disp (main_threads s))" using st server_detached(2) assms(3-5) by (auto simp: threads_stage_def)
    from end_detach_ok [OF ok this server_detached(3), of "Inr Srv_stop"] st wait server_detached
    show ?thesis by (auto simp: main_inv_def threads_stage_def wait_stage_def end_detach_def)
  next
    case terminates
    then show ?thesis using ok st wait
      by (auto simp: main_inv_def threads_ok_def threads_inv_def exited_inv_def threads_stage_def wait_stage_def
          terminate_def queue_sorted_def)
  qed (use ok st wait in \<open>auto simp: main_inv_def threads_stage_def wait_stage_def\<close>)
qed

lemma other_step_inv:
  assumes "other_step coid soid s t" and inv: "main_inv own coid soid s" and "own \<noteq> coid" and "own \<noteq> soid"
    and "coid \<noteq> soid"
  shows "main_inv own coid soid t"
proof -
  have ok: "threads_ok own coid soid (main_threads s)"
    and st: "threads_stage own coid soid (main_at s) (main_threads s)"
    and wait: "wait_stage (main_at s) (global_wait s)"
    using inv by (simp_all add: main_inv_def)
  from assms(1) show ?thesis
  proof cases
    case (works th)
    with ok st wait show ?thesis by (auto simp: main_inv_def intro: worker_step_ok worker_step_stage)
  next
    case (client_enqueues f "when" d)
    have "threads_ok own coid soid ((main_threads s)\<lparr>disp := d\<rparr>)"
      using assms(3-5) client_enqueues(3)
      by (intro enqueued_ok [OF ok client_enqueues(2)])
        (auto simp: entry_ok_def when_immediately_def when_internal_detached_def)
    with enqueued_stage [OF client_enqueues(2) st] wait client_enqueues(1) show ?thesis by (simp add: main_inv_def)
  next
    case (server_enqueues g "when" d)
    have "threads_ok own coid soid ((main_threads s)\<lparr>disp := d\<rparr>)"
      using assms(3-5) server_enqueues(3)
      by (intro enqueued_ok [OF ok server_enqueues(2)])
        (auto simp: entry_ok_def when_immediately_def when_internal_detached_def)
    with enqueued_stage [OF server_enqueues(2) st] wait server_enqueues(1) show ?thesis by (simp add: main_inv_def)
  next
    case (in_wait x w)
    with ok st wait show ?thesis by (auto simp: main_inv_def intro: thread_step_stage)
  next
    case (wakes_up timed)
    have "wait_reachable (goto 0 (Acquiring timed False) (global_wait s))"
      using wait wakes_up(2) by (intro wait_reachable.outside [OF _ outside_step.spurious]) (simp_all add: wait_stage_def)
    with ok st wait wakes_up show ?thesis by (auto simp: main_inv_def wait_stage_def goto_def)
  next
    case (signals x)
    have "wait_reachable (goto x Notify_acquiring (global_wait s))"
      using wait signals(3) by (intro wait_reachable.outside [OF _ outside_step.notify]) (simp_all add: wait_stage_def)
    with ok st wait signals show ?thesis by (auto simp: main_inv_def wait_stage_def goto_def)
  qed
qed

lemma main_reachable_inv:
  "main_reachable own coid soid s \<Longrightarrow> own \<noteq> coid \<Longrightarrow> own \<noteq> soid \<Longrightarrow> coid \<noteq> soid \<Longrightarrow> main_inv own coid soid s"
  by (induction rule: main_reachable.induct) (auto intro: main_inv_begin main_step_inv other_step_inv)

end
