(* ===== verification/Main_Finishes.thy ===== *)
theory Main_Finishes
  imports Main_Sequence
begin

text \<open>
  The main thread comes to its end: the steps of main, of the worker and of the threads in the wait that
  lead from one stage to the next, and what holds on the way.
\<close>

section \<open>Steps without new events\<close>

text \<open>Main, the worker, and the threads inside the calls of the wait; no more signals and functions.\<close>

definition main_run :: "u64 \<Rightarrow> u64 \<Rightarrow> u64 \<Rightarrow> main_state \<Rightarrow> main_state \<Rightarrow> bool" where
  "main_run own coid soid s t \<longleftrightarrow> main_step own coid soid s t \<or>
     (\<exists>th. worker_step (main_threads s) th \<and> t = s\<lparr>main_threads := th\<rparr>) \<or>
     (\<exists>x w. thread_step x (global_wait s) w \<and> t = s\<lparr>global_wait := w\<rparr>)"

lemma main_run_inv:
  assumes "main_run own coid soid s t" and "main_inv own coid soid s"
    and "own \<noteq> coid" and "own \<noteq> soid" and "coid \<noteq> soid"
  shows "main_inv own coid soid t"
proof -
  have "other_step coid soid s t" if "worker_step (main_threads s) th" "t = s\<lparr>main_threads := th\<rparr>" for th
    using that by (auto intro: other_step.works)
  moreover have "other_step coid soid s t" if "thread_step x (global_wait s) w" "t = s\<lparr>global_wait := w\<rparr>" for x w
    using that by (auto intro: other_step.in_wait)
  ultimately show ?thesis
    using assms main_step_inv [OF _ assms(2-5)] other_step_inv [OF _ assms(2-5)] unfolding main_run_def by blast
qed

lemma main_runs_inv:
  assumes "(main_run own coid soid)\<^sup>*\<^sup>* s t" and "main_inv own coid soid s"
    and "own \<noteq> coid" and "own \<noteq> soid" and "coid \<noteq> soid"
  shows "main_inv own coid soid t"
  using assms by (induction rule: rtranclp_induct) (auto intro: main_run_inv)

lemma main_then: "(main_run own coid soid)\<^sup>*\<^sup>* s t \<Longrightarrow> main_step own coid soid t u \<Longrightarrow> (main_run own coid soid)\<^sup>*\<^sup>* s u"
  by (meson main_run_def rtranclp.rtrancl_into_rtrancl)

lemma worker_steps_run:
  "worker_step\<^sup>*\<^sup>* (main_threads s) th \<Longrightarrow> (main_run own coid soid)\<^sup>*\<^sup>* s (s\<lparr>main_threads := th\<rparr>)"
proof (induction rule: rtranclp_induct)
  case base
  then show ?case by simp
next
  case (step y z)
  have "main_run own coid soid (s\<lparr>main_threads := y\<rparr>) (s\<lparr>main_threads := z\<rparr>)"
    using step(2) by (auto simp: main_run_def)
  with step(3) show ?case by (rule rtranclp.rtrancl_into_rtrancl)
qed

lemma wait_steps_run:
  "inner\<^sup>*\<^sup>* (global_wait s) w \<Longrightarrow> (main_run own coid soid)\<^sup>*\<^sup>* s (s\<lparr>global_wait := w\<rparr>)"
proof (induction rule: rtranclp_induct)
  case base
  then show ?case by simp
next
  case (step y z)
  have "main_run own coid soid (s\<lparr>global_wait := y\<rparr>) (s\<lparr>global_wait := z\<rparr>)"
    using step(2) by (auto simp: main_run_def inner_def)
  with step(3) show ?case by (rule rtranclp.rtrancl_into_rtrancl)
qed

section \<open>The waits end\<close>

text \<open>The cleanups come to their end: the worker passes everything that is due at once.\<close>

lemma cleanups_end:
  assumes "threads_ok own coid soid th" and "\<not> exiting (disp th)"
  shows "\<exists>th'. worker_step\<^sup>*\<^sup>* th th' \<and> cleanup_over own th'"
proof -
  let ?now = "\<lambda>e. entry_when e \<le> when_immediately"
  have sorted: "sorted (map entry_when (queue (disp th)))"
    and own: "\<And>e. e \<in> set (queue (disp th)) \<Longrightarrow> object_id_value e = own \<Longrightarrow> ?now e"
    and running: "worker th \<noteq> Exited"
    using assms by (auto simp: threads_ok_def queue_sorted_def entry_ok_def exited_inv_def
        when_immediately_def when_internal_detached_def)
  let ?xs = "takeWhile ?now (queue (disp th))" let ?ys = "dropWhile ?now (queue (disp th))"
  have "object_id_value e \<noteq> own" if "e \<in> set ?ys" for e
  proof -
    have "\<not> ?now (hd ?ys)" using that hd_dropWhile [of ?now "queue (disp th)"] by fastforce
    moreover have "sorted (map entry_when ?ys)" using sorted by (metis dropWhile_eq_drop drop_map sorted_wrt_drop)
    then have "entry_when (hd ?ys) \<le> entry_when e" using that by (cases ?ys) auto
    ultimately have "\<not> ?now e" by simp
    moreover have "e \<in> set (queue (disp th))" using that by (meson set_dropWhileD)
    ultimately show ?thesis using own by blast
  qed
  moreover obtain u where u: "worker_step\<^sup>*\<^sup>* th u" "worker u = Idle" "queue (disp u) = ?xs @ ?ys"
    "same_dispatcher (disp th) (disp u)"
    using worker_idle [OF running] by auto
  moreover obtain v where "worker_step\<^sup>*\<^sup>* u v" "worker v = Idle" "queue (disp v) = ?ys"
    using heads_passed [OF u(2) _ u(3)] assms(2) u(4) by (auto simp: same_dispatcher_def dest: set_takeWhileD)
  ultimately have "worker_step\<^sup>*\<^sup>* th v \<and> cleanup_over own v"
    by (auto simp: cleanup_over_def)
  then show ?thesis ..
qed

lemma detach_waits_end:
  assumes "threads_ok own coid soid th"
  shows "\<exists>th'. worker_step\<^sup>*\<^sup>* th th' \<and> detach_wait_over False oid (disp th')"
proof (cases "running_function_object_id (disp th)")
  case None
  then show ?thesis by (auto simp: detach_wait_over_def)
next
  case (Some x)
  with assms worker_unmarks [of th x] show ?thesis by (auto simp: threads_ok_def detach_wait_over_def)
qed

lemma worker_exits:
  assumes "threads_ok own coid soid th" and "exiting (disp th)"
  shows "\<exists>th'. worker_step\<^sup>*\<^sup>* th th' \<and> worker th' = Exited"
proof (cases "worker th = Exited")
  case True
  then show ?thesis by auto
next
  case False
  from worker_idle [OF False] obtain u where u: "worker_step\<^sup>*\<^sup>* th u" "worker u = Idle" "exiting (disp u)"
    using assms(2) by (auto simp: same_dispatcher_def)
  have "worker_step u (u\<lparr>disp := disp u, worker := Exited\<rparr>)"
    using u(2,3) by (intro worker_step.leave) (simp_all add: worker_take_def)
  with u(1) have "worker_step\<^sup>*\<^sup>* th (u\<lparr>disp := disp u, worker := Exited\<rparr>)"
    by (rule rtranclp.rtrancl_into_rtrancl)
  then show ?thesis by (intro exI conjI) auto
qed

lemma main_wait_ends:
  assumes "wait_reachable w" and "notify_flag w" and "main_waits (pc_of w 0)"
  shows "\<exists>w' r. inner\<^sup>*\<^sup>* w w' \<and> pc_of w' 0 = Back False r"
proof -
  have inv: "wait_inv w" using assms(1) by (rule wait_reachable_inv)
  have "\<exists>w' timed r. inner\<^sup>*\<^sup>* w w' \<and> pc_of w' 0 = Back timed r"
  proof (cases "waits_in (pc_of w 0)")
    case True
    then show ?thesis using wait_can_end [OF inv assms(2)] by blast
  next
    case False
    with assms(3) consider r where "pc_of w 0 = Leaving False r" | r where "pc_of w 0 = Back False r"
      by (cases "pc_of w 0") auto
    then show ?thesis
    proof cases
      case (1 r)
      have "pc_of (unlocked 0 (Back False r) w) 0 = Back False r" by (simp add: unlocked_def goto_def)
      with leave_steps [OF 1] show ?thesis by blast
    qed blast
  qed
  then obtain w' timed r where w': "inner\<^sup>*\<^sup>* w w'" "pc_of w' 0 = Back timed r" by blast
  have "main_waits (pc_of w' 0)"
    using w'(1) by (induction rule: rtranclp_induct) (auto simp: assms(3) inner_def intro: thread_step_waits)
  with w' show ?thesis by auto
qed

section \<open>From one stage to the next\<close>

lemma worker_then_main:
  "worker_step\<^sup>*\<^sup>* (main_threads s) th \<Longrightarrow> main_step own coid soid (s\<lparr>main_threads := th\<rparr>) u \<Longrightarrow>
   (main_run own coid soid)\<^sup>*\<^sup>* s u"
  by (rule main_then [OF worker_steps_run])

lemma main_now: "main_step own coid soid s u \<Longrightarrow> (main_run own coid soid)\<^sup>*\<^sup>* s u"
  by (rule main_then [OF rtranclp.rtrancl_refl])

lemma advanced:
  "(main_run own coid soid)\<^sup>*\<^sup>* s t \<Longrightarrow> stage (main_at t) = Suc (stage (main_at s)) \<Longrightarrow>
   \<exists>t. (main_run own coid soid)\<^sup>*\<^sup>* s t \<and> stage (main_at t) = Suc (stage (main_at s))"
  by blast

lemma main_advances:
  assumes inv: "main_inv own coid soid s" and flag: "notify_flag (global_wait s)" and "main_at s \<noteq> Finished"
  shows "\<exists>t. (main_run own coid soid)\<^sup>*\<^sup>* s t \<and> stage (main_at t) = Suc (stage (main_at s))"
proof -
  let ?th = "main_threads s"
  have ok: "threads_ok own coid soid ?th" and st: "threads_stage own coid soid (main_at s) ?th"
    and wait: "wait_stage (main_at s) (global_wait s)"
    using inv by (simp_all add: main_inv_def)
  have cleaned: "\<exists>th. worker_step\<^sup>*\<^sup>* ?th th \<and> cleanup_over own th" if "stage (main_at s) < 9"
    using cleanups_end [OF ok] st that by (simp add: threads_stage_def)
  show ?thesis
  proof (cases "main_at s")
    case Starting
    show ?thesis by (rule advanced [OF main_now [OF main_step.waits [OF Starting]]]) (simp add: Starting)
  next
    case Waiting
    obtain w r where w: "inner\<^sup>*\<^sup>* (global_wait s) w" "pc_of w 0 = Back False r"
      using main_wait_ends [of "global_wait s"] wait flag Waiting by (auto simp: wait_stage_def)
    let ?s = "s\<lparr>global_wait := w\<rparr>"
    have "main_step own coid soid ?s (?s\<lparr>main_at := Client_cleared\<rparr>)"
      using Waiting w(2) by (intro main_step.notified) simp_all
    then show ?thesis by (rule advanced [OF main_then [OF wait_steps_run [OF w(1)]]]) (simp add: Waiting)
  next
    case Client_cleared
    then have "attached coid (disp ?th)" using st by (simp add: threads_stage_def attached_def)
    from main_now [OF main_step.client_detaches [OF Client_cleared this]] show ?thesis
      by (rule advanced) (simp add: Client_cleared)
  next
    case Client_detaching
    obtain th where th: "worker_step\<^sup>*\<^sup>* ?th th" "detach_wait_over False coid (disp th)"
      using detach_waits_end [OF ok] by blast
    show ?thesis
      by (rule advanced [OF worker_then_main [OF th(1) main_step.client_detached]]) (simp_all add: Client_detaching th(2))
  next
    case Client_stopping
    then obtain th where th: "worker_step\<^sup>*\<^sup>* ?th th" "cleanup_over own th" using cleaned by auto
    show ?thesis
      by (rule advanced [OF worker_then_main [OF th(1) main_step.client_destroyed]]) (simp_all add: Client_stopping th(2))
  next
    case Server_cleared
    then have "attached soid (disp ?th)" using st by (simp add: threads_stage_def attached_def)
    from main_now [OF main_step.server_detaches [OF Server_cleared this]] show ?thesis
      by (rule advanced) (simp add: Server_cleared)
  next
    case Server_detaching
    obtain th where th: "worker_step\<^sup>*\<^sup>* ?th th" "detach_wait_over False soid (disp th)"
      using detach_waits_end [OF ok] by blast
    show ?thesis
      by (rule advanced [OF worker_then_main [OF th(1) main_step.server_detached]]) (simp_all add: Server_detaching th(2))
  next
    case Server_stopping
    then obtain th where th: "worker_step\<^sup>*\<^sup>* ?th th" "cleanup_over own th" using cleaned by auto
    show ?thesis
      by (rule advanced [OF worker_then_main [OF th(1) main_step.server_destroyed]]) (simp_all add: Server_stopping th(2))
  next
    case Example_running
    show ?thesis by (rule advanced [OF main_now [OF main_step.terminates [OF Example_running]]]) (simp add: Example_running)
  next
    case Terminating
    then have "exiting (disp ?th)" using st by (simp add: threads_stage_def)
    from worker_exits [OF ok this] obtain th where th: "worker_step\<^sup>*\<^sup>* ?th th" "worker th = Exited" by blast
    show ?thesis
      by (rule advanced [OF worker_then_main [OF th(1) main_step.finishes]]) (simp_all add: Terminating th(2))
  qed (use assms(3) in simp)
qed

lemma main_run_flag: "main_run own coid soid s t \<Longrightarrow> notify_flag (global_wait s) \<Longrightarrow> notify_flag (global_wait t)"
  by (auto simp: main_run_def goto_def elim!: main_step.cases dest: thread_step_flag)

lemma main_runs_flag:
  "(main_run own coid soid)\<^sup>*\<^sup>* s t \<Longrightarrow> notify_flag (global_wait s) \<Longrightarrow> notify_flag (global_wait t)"
  by (induction rule: rtranclp_induct) (auto dest: main_run_flag)

lemma stage_finished: "10 \<le> stage pc \<longleftrightarrow> pc = Finished"
  by (cases pc) simp_all

lemma main_finishes:
  assumes "main_inv own coid soid s" and "notify_flag (global_wait s)"
    and "own \<noteq> coid" and "own \<noteq> soid" and "coid \<noteq> soid"
  shows "\<exists>t. (main_run own coid soid)\<^sup>*\<^sup>* s t \<and> main_at t = Finished"
  using assms(1,2)
proof (induction "10 - stage (main_at s)" arbitrary: s)
  case 0
  then have "main_at s = Finished" by (simp flip: stage_finished)
  then show ?case by auto
next
  case (Suc n)
  then have "main_at s \<noteq> Finished" by auto
  from main_advances [OF Suc.prems this] obtain u where
    u: "(main_run own coid soid)\<^sup>*\<^sup>* s u" "stage (main_at u) = Suc (stage (main_at s))" by blast
  have "n = 10 - stage (main_at u)" using Suc.hyps(2) u(2) by simp
  moreover have "main_inv own coid soid u" by (rule main_runs_inv [OF u(1) Suc.prems(1) assms(3-5)])
  moreover have "notify_flag (global_wait u)" by (rule main_runs_flag [OF u(1) Suc.prems(2)])
  ultimately obtain t where "(main_run own coid soid)\<^sup>*\<^sup>* u t" "main_at t = Finished"
    using Suc.hyps(1) by blast
  with u(1) show ?case by (meson rtranclp_trans)
qed

section \<open>The variables\<close>

text \<open>A slot finds its variable empty only between the assignment and the end of the running function.\<close>

lemma null_read_window:
  assumes "main_inv own coid soid s" and "null_read s" and "own \<noteq> coid" and "own \<noteq> soid" and "coid \<noteq> soid"
  shows "main_at s \<in> {Client_cleared, Client_detaching, Server_cleared, Server_detaching}"
proof -
  obtain e where e: "worker (main_threads s) = Executing e"
    "reads_client (entry_function e) \<and> \<not> client_variable_set (main_at s) \<or>
     reads_server (entry_function e) \<and> \<not> server_variable_set (main_at s)"
    using assms(2) by (auto simp: null_read_def split: worker_pc.splits)
  have "entry_ok own coid soid e" using assms(1) e(1) by (auto simp: main_inv_def threads_ok_def)
  then have id: "reads_client (entry_function e) \<Longrightarrow> object_id_value e = coid"
    "reads_server (entry_function e) \<Longrightarrow> object_id_value e = soid"
    by (auto simp: entry_ok_def)
  have "\<not> executes (worker (main_threads s)) oid" if "oid \<in> gone (main_threads s)" for oid
    using assms(1) that by (auto simp: main_inv_def threads_ok_def threads_inv_def)
  then have "object_id_value e \<notin> gone (main_threads s)" using e(1) by auto
  then show ?thesis
    using assms(1) e id by (cases "main_at s") (auto simp: main_inv_def threads_stage_def)
qed

text \<open>There it can: the io context reports a connection, and the worker comes to it.\<close>

lemma worker_steps_other:
  "worker_step\<^sup>*\<^sup>* (main_threads s) th \<Longrightarrow> (other_step coid soid)\<^sup>*\<^sup>* s (s\<lparr>main_threads := th\<rparr>)"
proof (induction rule: rtranclp_induct)
  case base
  then show ?case by simp
next
  case (step y z)
  have "other_step coid soid (s\<lparr>main_threads := y\<rparr>) (s\<lparr>main_threads := z\<rparr>)"
    using step(2) other_step.works [of "s\<lparr>main_threads := y\<rparr>" z] by simp
  with step(3) show ?case by (rule rtranclp.rtrancl_into_rtrancl)
qed

lemma null_read_happens:
  assumes inv: "main_inv own coid soid s" and at: "main_at s = Client_cleared"
    and "own \<noteq> coid" and "own \<noteq> soid" and "coid \<noteq> soid"
  shows "\<exists>t. (other_step coid soid)\<^sup>*\<^sup>* s t \<and> main_at t = Client_cleared \<and> null_read t"
proof -
  let ?f = "Run_signal (Client_connected None)"
  let ?d = "snd (enqueue coid (Inl ?f) when_immediately (disp (main_threads s)))"
  let ?e = "\<lparr>object_id_value = coid, entry_function = Inl ?f, entry_when = when_immediately\<rparr>"
  let ?s = "s\<lparr>main_threads := (main_threads s)\<lparr>disp := ?d\<rparr>\<rparr>"
  have ids: "coid \<in> object_ids (disp (main_threads s))" "\<not> exiting (disp (main_threads s))"
    using inv at by (simp_all add: main_inv_def threads_stage_def)
  have step: "other_step coid soid s ?s"
    using ids by (intro other_step.client_enqueues [of coid _ when_immediately])
      (simp_all add: prod_eq_iff enqueue_accepted)
  have "threads_ok own coid soid (main_threads ?s)"
    using other_step_inv [OF step inv assms(3-5)] by (simp add: main_inv_def)
  then have "worker (main_threads ?s) \<noteq> Exited" "queue_sorted (disp (main_threads ?s))"
    using ids(2) by (auto simp: threads_ok_def exited_inv_def)
  moreover have "?e \<in> set (queue (disp (main_threads ?s)))" using set_queue_enqueue [OF ids] by simp
  ultimately obtain th where th: "worker_step\<^sup>*\<^sup>* (main_threads ?s) th" "worker th = Executing ?e"
    using immediate_executes [of "main_threads ?s" ?e] ids by auto
  have "null_read (?s\<lparr>main_threads := th\<rparr>)" using th(2) at by (simp add: null_read_def)
  moreover have "(other_step coid soid)\<^sup>*\<^sup>* s (?s\<lparr>main_threads := th\<rparr>)"
    using step worker_steps_other [OF th(1)] by (rule converse_rtranclp_into_rtranclp)
  moreover have "main_at (?s\<lparr>main_threads := th\<rparr>) = Client_cleared" using at by simp
  ultimately show ?thesis by blast
qed

section \<open>The properties\<close>


text \<open>Main waits, and the signal has come.\<close>

definition sample_main :: main_state where
  "sample_main = (main_begin 1 2 3)\<lparr>main_at := Waiting,
     global_wait := \<lparr>notify_flag = True, mutex_owner = Some 1,
       pc_of = (\<lambda>_. Outside)(0 := Acquiring False False, 1 := Stored)\<rparr>\<rparr>"

lemma sample_main_reachable: "main_reachable 1 2 3 sample_main"
proof -
  let ?s0 = "main_begin 1 2 3"
  let ?s1 = "?s0\<lparr>main_at := Waiting, global_wait := goto 0 (Acquiring False False) (global_wait ?s0)\<rparr>"
  let ?s2 = "?s1\<lparr>global_wait := goto 1 Notify_acquiring (global_wait ?s1)\<rparr>"
  let ?s3 = "?s2\<lparr>global_wait := locked 1 Storing (global_wait ?s2)\<rparr>"
  let ?s4 = "?s3\<lparr>global_wait := goto 1 Stored ((global_wait ?s3)\<lparr>notify_flag := True\<rparr>)\<rparr>"
  note fields = main_begin_def make_thread_wait_def goto_def locked_def
  have "main_reachable 1 2 3 ?s1"
    by (rule main_reachable.main [OF main_reachable.begins main_step.waits]) (simp add: fields)
  then have "main_reachable 1 2 3 ?s2"
    by (rule main_reachable.other [OF _ other_step.signals]) (simp_all add: fields)
  then have "main_reachable 1 2 3 ?s3"
    by (rule main_reachable.other [OF _ other_step.in_wait [OF thread_step.notify_acquires]]) (simp_all add: fields)
  then have "main_reachable 1 2 3 ?s4"
    by (rule main_reachable.other [OF _ other_step.in_wait [OF thread_step.stores]]) (simp add: fields)
  then show ?thesis by (simp add: sample_main_def fields)
qed


text \<open>
  C26. An assignment of \<open>nullptr\<close> empties the variable before the destructor detaches the object, and a
  slot that sends goes through the variable.  It finds it empty only between the assignment and the end
  of the function that was running when the object detached; but there it can: from every reachable state
  between the two a signal of the io context leads to a slot that dereferences the empty variable.
\<close>

theorem slots_read_cleared_variables:
  assumes "main_reachable own coid soid s" and "own \<noteq> coid" and "own \<noteq> soid" and "coid \<noteq> soid"
  shows "(null_read s \<longrightarrow> main_at s \<in> {Client_cleared, Client_detaching, Server_cleared, Server_detaching}) \<and>
    (main_at s = Client_cleared \<longrightarrow>
      (\<exists>t. (other_step coid soid)\<^sup>*\<^sup>* s t \<and> main_at t = Client_cleared \<and> null_read t))"
proof (intro conjI impI)
  have inv: "main_inv own coid soid s" by (rule main_reachable_inv [OF assms])
  show "main_at s \<in> {Client_cleared, Client_detaching, Server_cleared, Server_detaching}" if "null_read s"
    by (rule null_read_window [OF inv that assms(2-4)])
  assume cleared: "main_at s = Client_cleared"
  show "\<exists>t. (other_step coid soid)\<^sup>*\<^sup>* s t \<and> main_at t = Client_cleared \<and> null_read t"
    using null_read_happens [OF inv cleared assms(2-4)] .
qed

lemma cleared_reachable: "\<exists>s. main_reachable 1 2 3 s \<and> main_at s = Client_cleared"
proof -
  let ?w = "global_wait sample_main"
  have wait: "wait_reachable ?w"
    using main_reachable_inv [OF sample_main_reachable] by (simp add: main_inv_def wait_stage_def)
  obtain w r where w: "inner\<^sup>*\<^sup>* ?w w" "pc_of w 0 = Back False r"
    using main_wait_ends [OF wait] by (auto simp: sample_main_def)
  have "main_reachable 1 2 3 (sample_main\<lparr>global_wait := w\<rparr>)"
    using w(1)
  proof (induction rule: rtranclp_induct)
    case base
    then show ?case using sample_main_reachable by simp
  next
    case (step y z)
    then have "other_step 2 3 (sample_main\<lparr>global_wait := y\<rparr>) (sample_main\<lparr>global_wait := z\<rparr>)"
      using other_step.in_wait [of _ "sample_main\<lparr>global_wait := y\<rparr>" z] by (auto simp: inner_def)
    with step(3) show ?case by (rule main_reachable.other)
  qed
  moreover have "main_step 1 2 3 (sample_main\<lparr>global_wait := w\<rparr>)
      (sample_main\<lparr>global_wait := w\<rparr>\<lparr>main_at := Client_cleared\<rparr>)"
    using w(2) by (intro main_step.notified [of _ r]) (simp_all add: sample_main_def)
  ultimately have "main_reachable 1 2 3 (sample_main\<lparr>global_wait := w\<rparr>\<lparr>main_at := Client_cleared\<rparr>)"
    by (rule main_reachable.main)
  moreover have "main_at (sample_main\<lparr>global_wait := w\<rparr>\<lparr>main_at := Client_cleared\<rparr>) = Client_cleared" by simp
  ultimately show ?thesis by blast
qed

theorem slots_read_cleared_variables_witness:
  "\<exists>s t. main_reachable 1 2 3 s \<and> main_at s = Client_cleared \<and> (other_step 2 3)\<^sup>*\<^sup>* s t \<and> null_read t"
proof -
  obtain s where s: "main_reachable 1 2 3 s" "main_at s = Client_cleared"
    using cleared_reachable by blast
  with slots_read_cleared_variables [OF s(1)] show ?thesis by auto
qed

end
