(* ===== verification/Example_Run.thy ===== *)
theory Example_Run
  imports Example_Peers Bind_Outcome Main_Finishes
begin

text \<open>
  The thread that calls \<open>run\<close> of \<open>example/extra_peer_manager_example.hpp\<close>: it starts the server, waits for
  \<open>bound\<close>, starts the client and waits for the answer, while the worker of the dispatcher calls the slots.
\<close>

section \<open>The state\<close>

datatype run_pc = Awaiting_bound | Awaiting_response | Run_returns

text \<open>
  The objects of \<open>run\<close> and its two waits, each the \<open>wait\<close> of a block.  Thread 0 is the caller of \<open>run\<close>, thread
  1 the worker; \<open>slots_run\<close> counts the tasks of the server's implementation that are handled.
\<close>

record run_state =
  run_at :: run_pc
  run_server :: datagram_server
  slots_run :: nat
  run_peers :: example_server
  bound_wait :: thread_wait
  run_client :: example_client
  response_wait :: thread_wait

text \<open>The state in which the server was started and the first wait begins.\<close>

definition run_begin :: "u64 \<Rightarrow> u64 \<Rightarrow> path set \<Rightarrow> int \<Rightarrow> run_state" where
  "run_begin own oid fs now =
     \<lparr>run_at = Awaiting_bound,
      run_server = server_async_start
        (new_datagram_server oid ''tmp/extra_peer_manager_example_server.sock'' (32 * 1024) fs now
          (Some (initial_dispatcher own))),
      slots_run = 0, run_peers = new_example_server,
      bound_wait = goto 0 (Acquiring False False) make_thread_wait,
      run_client = new_example_client, response_wait = make_thread_wait\<rparr>"

section \<open>Steps\<close>

text \<open>The caller of \<open>run\<close>.  There is a client from the end of the first wait on.\<close>

inductive run_main :: "run_state \<Rightarrow> run_state \<Rightarrow> bool" where
  client_starts: "run_at s = Awaiting_bound \<Longrightarrow> pc_of (bound_wait s) 0 = Back False r \<Longrightarrow>
    run_main s (s\<lparr>run_at := Awaiting_response, run_client := new_example_client,
      response_wait := goto 0 (Acquiring False False) (response_wait s)\<rparr>)"
| returns: "run_at s = Awaiting_response \<Longrightarrow> pc_of (response_wait s) 0 = Back False r \<Longrightarrow>
    run_main s (s\<lparr>run_at := Run_returns\<rparr>)"

text \<open>The slots the example connects to the server; \<open>k\<close> is the secret a handshake is answered with.\<close>

fun server_example_slot ::
    "(bytes \<Rightarrow> 'x json option) \<Rightarrow> ('x json \<Rightarrow> bytes) \<Rightarrow> ('x \<Rightarrow> u8) \<Rightarrow> bytes \<Rightarrow> server_fun option
      \<Rightarrow> run_state \<Rightarrow> run_state" where
  "server_example_slot parse dump cast k (Some (Srv_signal Server_bound)) s =
     s\<lparr>bound_wait := goto 1 Notify_acquiring (bound_wait s)\<rparr>"
| "server_example_slot parse dump cast k (Some (Srv_signal (Server_received v ep))) s =
     s\<lparr>run_peers := server_received parse dump cast k v ep (run_peers s)\<rparr>"
| "server_example_slot parse dump cast k f s = s"

text \<open>The slot of the client's \<open>received\<close>; whether it notifies is what it does to a client not yet notified.\<close>

definition response_notifies ::
    "(bytes \<Rightarrow> 'x json option) \<Rightarrow> ('x json \<Rightarrow> bytes) \<Rightarrow> ('x \<Rightarrow> u8) \<Rightarrow> bytes \<Rightarrow> bool" where
  "response_notifies parse dump cast v \<longleftrightarrow> notified (client_received parse dump cast v new_example_client)"

definition client_example_slot ::
    "(bytes \<Rightarrow> 'x json option) \<Rightarrow> ('x json \<Rightarrow> bytes) \<Rightarrow> ('x \<Rightarrow> u8) \<Rightarrow> bytes \<Rightarrow> run_state \<Rightarrow> run_state" where
  "client_example_slot parse dump cast v s =
     s\<lparr>run_client := client_received parse dump cast v (run_client s),
       response_wait := (if response_notifies parse dump cast v
         then goto 1 Notify_acquiring (response_wait s) else response_wait s)\<rparr>"

text \<open>The worker calls one function after the other: the next only when it is back from \<open>notify\<close>.\<close>

definition worker_free :: "run_state \<Rightarrow> bool" where
  "worker_free s \<longleftrightarrow> may_call (pc_of (bound_wait s) 1) \<and> may_call (pc_of (response_wait s) 1)"

inductive run_other ::
    "(bytes \<Rightarrow> 'x json option) \<Rightarrow> ('x json \<Rightarrow> bytes) \<Rightarrow> ('x \<Rightarrow> u8) \<Rightarrow> (bytes \<Rightarrow> u32)
      \<Rightarrow> run_state \<Rightarrow> run_state \<Rightarrow> bool"
  for parse dump cast dec where
  server_lives: "worker_free s \<Longrightarrow> server_life f (slots_run s) (run_server s) k c \<Longrightarrow>
    run_other parse dump cast dec s
      (server_example_slot parse dump cast secret f (s\<lparr>run_server := c, slots_run := k\<rparr>))"
| server_acts: "server_acts dec (run_server s) c \<Longrightarrow> run_other parse dump cast dec s (s\<lparr>run_server := c\<rparr>)"
| manager_runs: "worker_free s \<Longrightarrow> run_other parse dump cast dec s (s\<lparr>run_peers := run_manager i (run_peers s)\<rparr>)"
| client_connects: "worker_free s \<Longrightarrow> run_at s = Awaiting_response \<Longrightarrow>
    run_other parse dump cast dec s (s\<lparr>run_client := client_connected dump (run_client s)\<rparr>)"
| client_gets: "worker_free s \<Longrightarrow> run_at s = Awaiting_response \<Longrightarrow>
    run_other parse dump cast dec s (client_example_slot parse dump cast v s)"
| in_bound_wait: "thread_step x (bound_wait s) w \<Longrightarrow> run_other parse dump cast dec s (s\<lparr>bound_wait := w\<rparr>)"
| in_response_wait: "thread_step x (response_wait s) w \<Longrightarrow> run_other parse dump cast dec s (s\<lparr>response_wait := w\<rparr>)"
| bound_spurious: "pc_of (bound_wait s) 0 = Sleeping timed \<Longrightarrow>
    run_other parse dump cast dec s (s\<lparr>bound_wait := goto 0 (Acquiring timed False) (bound_wait s)\<rparr>)"
| response_spurious: "pc_of (response_wait s) 0 = Sleeping timed \<Longrightarrow>
    run_other parse dump cast dec s (s\<lparr>response_wait := goto 0 (Acquiring timed False) (response_wait s)\<rparr>)"

definition run_step ::
    "(bytes \<Rightarrow> 'x json option) \<Rightarrow> ('x json \<Rightarrow> bytes) \<Rightarrow> ('x \<Rightarrow> u8) \<Rightarrow> (bytes \<Rightarrow> u32)
      \<Rightarrow> run_state \<Rightarrow> run_state \<Rightarrow> bool" where
  "run_step parse dump cast dec s t \<longleftrightarrow> run_main s t \<or> run_other parse dump cast dec s t"

inductive run_reachable ::
    "(bytes \<Rightarrow> 'x json option) \<Rightarrow> ('x json \<Rightarrow> bytes) \<Rightarrow> ('x \<Rightarrow> u8) \<Rightarrow> (bytes \<Rightarrow> u32) \<Rightarrow> run_state \<Rightarrow> bool"
  for parse dump cast dec where
  begins: "run_reachable parse dump cast dec (run_begin own oid fs now)"
| step: "run_reachable parse dump cast dec s \<Longrightarrow> run_step parse dump cast dec s t \<Longrightarrow>
    run_reachable parse dump cast dec t"

section \<open>One wait\<close>

text \<open>
  The caller of \<open>run\<close> is in the wait or past it; \<open>n\<close>: the slot that notifies was called.
\<close>

definition wait_ok :: "bool \<Rightarrow> bool \<Rightarrow> thread_wait \<Rightarrow> bool" where
  "wait_ok past n w \<longleftrightarrow> wait_reachable w \<and> notifies w = n \<and>
     (if past then notify_flag w else main_waits (pc_of w 0))"

lemma wait_ok_step: "thread_step x w w' \<Longrightarrow> wait_ok past n w \<Longrightarrow> wait_ok past n w'"
  by (auto simp: wait_ok_def thread_step_notifies intro: wait_reachable.inside thread_step_flag
      thread_step_waits split: if_splits)

lemma wait_ok_spurious:
  assumes "pc_of w 0 = Sleeping timed" and "wait_ok past n w"
  shows "wait_ok past n (goto 0 (Acquiring timed False) w)"
proof -
  have "notifies (goto 0 (Acquiring timed False) w) = notifies w" by (simp add: notifies_goto assms(1))
  then show ?thesis
    using assms by (auto simp: wait_ok_def goto_def intro: wait_reachable.outside [OF _ outside_step.spurious,
          unfolded goto_def])
qed

lemma wait_ok_notify:
  assumes "may_call (pc_of w 1)" and "wait_ok past n w"
  shows "wait_ok past True (goto 1 Notify_acquiring w)"
proof -
  have "wait_reachable (goto 1 Notify_acquiring w)"
    using assms wait_reachable.outside [OF _ outside_step.notify] by (auto simp: wait_ok_def)
  moreover have "notifies (goto 1 Notify_acquiring w)" by (simp add: notifies_begins)
  ultimately show ?thesis using assms(2) by (simp add: wait_ok_def goto_def)
qed

lemma wait_ok_returns:
  assumes "pc_of w 0 = Back False r" and "wait_ok past n w"
  shows "wait_ok True n w"
proof -
  have inv: "wait_inv w" using assms(2) wait_reachable_inv by (simp add: wait_ok_def)
  then have "timeout_ok (pc_of w 0)" by (simp add: wait_inv_def)
  then have "knows_flag (pc_of w 0)" by (simp add: assms(1))
  then have "notify_flag w" using inv by (auto simp: wait_inv_def)
  then show ?thesis using assms(2) by (simp add: wait_ok_def)
qed

lemma wait_ok_begins: "wait_ok False False (goto 0 (Acquiring False False) make_thread_wait)"
proof -
  have "wait_reachable (goto 0 (Acquiring False False) make_thread_wait)"
    by (rule wait_reachable.outside [OF wait_reachable.made outside_step.wait_notice])
      (simp add: make_thread_wait_def)
  then show ?thesis by (simp add: wait_ok_def notifies_def goto_def make_thread_wait_def)
qed

text \<open>A wait that is notified comes to its end.\<close>

lemma wait_ok_ends:
  assumes "wait_ok False True w"
  shows "\<exists>w' r. inner\<^sup>*\<^sup>* w w' \<and> wait_ok False True w' \<and> pc_of w' 0 = Back False r"
proof -
  have keeps: "wait_ok False True v" if "inner\<^sup>*\<^sup>* w v" for v
    using that assms by (induction rule: rtranclp_induct) (auto simp: inner_def intro: wait_ok_step)
  have "wait_inv w" "notifies w" using assms wait_reachable_inv by (simp_all add: wait_ok_def)
  then obtain v where v: "inner\<^sup>*\<^sup>* w v" "notify_flag v" using notification_is_stored by blast
  with keeps have "wait_reachable v" "main_waits (pc_of v 0)" by (auto simp: wait_ok_def)
  with v(2) obtain u r where u: "inner\<^sup>*\<^sup>* v u" "pc_of u 0 = Back False r" using main_wait_ends by blast
  with v(1) have "inner\<^sup>*\<^sup>* w u" by (meson rtranclp_trans)
  with keeps u(2) show ?thesis by blast
qed

section \<open>The invariant\<close>

definition run_inv :: "run_state \<Rightarrow> bool" where
  "run_inv s \<longleftrightarrow> binds_once (slots_run s) (run_server s) \<and>
     wait_ok (run_at s \<noteq> Awaiting_bound) (Server_bound \<in> set (srv_emitted (run_server s))) (bound_wait s) \<and>
     (if run_at s = Awaiting_bound then response_wait s = make_thread_wait \<and> run_client s = new_example_client
      else wait_ok (run_at s = Run_returns) (notified (run_client s)) (response_wait s))"

lemma run_inv_begin: "run_inv (run_begin own oid fs now)"
proof -
  let ?c = "new_datagram_server oid ''tmp/extra_peer_manager_example_server.sock'' (32 * 1024) fs now
    (Some (initial_dispatcher own))"
  have "binds_once 0 (server_async_start ?c)"
    unfolding server_async_start_def
    by (rule binds_once_enqueue)
      (simp_all add: server_outcomes_def new_datagram_server_def queued_def client_attach_def
        initial_dispatcher_def attach_def)
  then show ?thesis
    using wait_ok_begins
    by (simp add: run_inv_def run_begin_def server_async_start_def new_datagram_server_def)
qed

lemma run_main_inv: "run_main s t \<Longrightarrow> run_inv s \<Longrightarrow> run_inv t"
proof (induction rule: run_main.induct)
  case (client_starts s r)
  then show ?case
    using wait_ok_returns wait_ok_begins by (auto simp: run_inv_def new_example_client_def)
next
  case (returns s r)
  then show ?case using wait_ok_returns by (auto simp: run_inv_def)
qed

lemma client_received_notifies:
  "notified (client_received parse dump cast v c) \<longleftrightarrow> notified c \<or> response_notifies parse dump cast v"
  by (auto simp: response_notifies_def client_received_def client_try_def notify_def client_says_def
      new_example_client_def split: option.splits sum.splits payload_type.splits)

lemma server_slot_inv:
  assumes inv: "run_inv s" and free: "worker_free s"
    and life: "server_life f (slots_run s) (run_server s) k c"
  shows "run_inv (server_example_slot parse dump cast secret f (s\<lparr>run_server := c, slots_run := k\<rparr>))"
proof -
  have once: "binds_once (slots_run s) (run_server s)" using inv by (simp add: run_inv_def)
  note c = server_life_binds_once [OF life once] server_life_emitted [OF life once]
  have told: "wait_ok past True (goto 1 Notify_acquiring (bound_wait s))"
    if "wait_ok past n (bound_wait s)" for past n
    using wait_ok_notify [OF _ that] free by (simp add: worker_free_def)
  show ?thesis
  proof (cases "f = Some (Srv_signal Server_bound)")
    case True
    with c inv told show ?thesis by (auto simp: run_inv_def)
  next
    case False
    then have "Server_bound \<in> set (srv_emitted c) \<longleftrightarrow> Server_bound \<in> set (srv_emitted (run_server s))"
      using c(2) by (auto split: option.splits server_fun.splits)
    with False c(1) inv show ?thesis
      by (cases "(parse, dump, cast, secret, f, s\<lparr>run_server := c, slots_run := k\<rparr>)"
          rule: server_example_slot.cases) (auto simp: run_inv_def)
  qed
qed

lemma run_other_inv: "run_other parse dump cast dec s t \<Longrightarrow> run_inv s \<Longrightarrow> run_inv t"
proof (induction rule: run_other.induct)
  case (server_lives s f k c secret)
  then show ?case by (blast intro: server_slot_inv)
next
  case (server_acts s c)
  then have "srv_emitted c = srv_emitted (run_server s)" by (auto elim: server_acts.cases)
  with server_acts server_acts_binds_once show ?case by (auto simp: run_inv_def)
next
  case (client_connects s)
  then show ?case by (auto simp: run_inv_def client_connected_def client_says_def)
next
  case (client_gets s v)
  then have w: "wait_ok False (notified (run_client s)) (response_wait s)" by (simp add: run_inv_def)
  have "may_call (pc_of (response_wait s) 1)" using client_gets by (simp add: worker_free_def)
  from wait_ok_notify [OF this w] w client_gets show ?case
    by (auto simp: run_inv_def client_example_slot_def client_received_notifies)
next
  case (in_bound_wait x s w)
  then show ?case using wait_ok_step by (auto simp: run_inv_def)
next
  case (in_response_wait x s w)
  have "\<not> thread_step x make_thread_wait w" by (auto simp: make_thread_wait_def elim: thread_step.cases)
  with in_response_wait show ?case using wait_ok_step by (auto simp: run_inv_def split: if_splits)
next
  case (bound_spurious s timed)
  then show ?case using wait_ok_spurious by (auto simp: run_inv_def)
next
  case (response_spurious s timed)
  then have "run_at s \<noteq> Awaiting_bound" by (auto simp: run_inv_def make_thread_wait_def)
  with response_spurious show ?case using wait_ok_spurious by (auto simp: run_inv_def)
qed (simp add: run_inv_def)

lemma run_reachable_inv: "run_reachable parse dump cast dec s \<Longrightarrow> run_inv s"
  by (induction rule: run_reachable.induct)
    (auto simp: run_step_def intro: run_inv_begin run_main_inv run_other_inv)

section \<open>What is for ever\<close>

lemma run_step_emitted:
  assumes "run_step parse dump cast dec s t" and "run_inv s" and "sg \<in> set (srv_emitted (run_server s))"
  shows "sg \<in> set (srv_emitted (run_server t))"
proof -
  have once: "binds_once (slots_run s) (run_server s)" using assms(2) by (simp add: run_inv_def)
  have slot: "run_server (server_example_slot parse dump cast secret f u) = run_server u" for secret f u
    by (cases "(parse, dump, cast, secret, f, u)" rule: server_example_slot.cases) simp_all
  consider "run_main s t" | "run_other parse dump cast dec s t" using assms(1) by (auto simp: run_step_def)
  then show ?thesis
  proof cases
    case 1
    then show ?thesis using assms(3) by cases simp_all
  next
    case 2
    then show ?thesis
    proof cases
      case (server_lives f k c secret)
      then show ?thesis using assms(3) server_life_emitted [OF server_lives(3) once] by (simp add: slot)
    next
      case (server_acts c)
      then show ?thesis using assms(3) by (auto elim: server_acts.cases)
    qed (use assms(3) in \<open>simp_all add: client_example_slot_def\<close>)
  qed
qed

lemma run_steps_keep:
  "(run_step parse dump cast dec)\<^sup>*\<^sup>* s t \<Longrightarrow> run_inv s \<Longrightarrow>
   run_inv t \<and> set (srv_emitted (run_server s)) \<subseteq> set (srv_emitted (run_server t))"
proof (induction rule: rtranclp_induct)
  case (step t u)
  then have "run_inv u" by (auto simp: run_step_def intro: run_main_inv run_other_inv)
  with step show ?case using run_step_emitted by fast
qed simp

lemma failed_bind_waits:
  assumes "run_inv s" and "Server_bind_failed ec \<in> set (srv_emitted (run_server s))"
  shows "run_at s = Awaiting_bound"
  using assms binds_once_outcome [of "slots_run s" "run_server s" ec]
  by (auto simp: run_inv_def wait_ok_def notifies_def split: if_splits)

text \<open>Steps of a wait are steps of the whole.\<close>

lemma bound_wait_steps:
  "inner\<^sup>*\<^sup>* w w' \<Longrightarrow> bound_wait s = w \<Longrightarrow> (run_step parse dump cast dec)\<^sup>*\<^sup>* s (s\<lparr>bound_wait := w'\<rparr>)"
proof (induction rule: rtranclp_induct)
  case (step v u)
  then obtain x where "thread_step x v u" by (auto simp: inner_def)
  then have "run_step parse dump cast dec (s\<lparr>bound_wait := v\<rparr>) (s\<lparr>bound_wait := u\<rparr>)"
    using run_other.in_bound_wait [of x "s\<lparr>bound_wait := v\<rparr>" u parse dump cast dec]
    by (simp add: run_step_def)
  with step show ?case by (meson rtranclp.rtrancl_into_rtrancl)
qed auto

lemma response_wait_steps:
  "inner\<^sup>*\<^sup>* w w' \<Longrightarrow> response_wait s = w \<Longrightarrow> (run_step parse dump cast dec)\<^sup>*\<^sup>* s (s\<lparr>response_wait := w'\<rparr>)"
proof (induction rule: rtranclp_induct)
  case (step v u)
  then obtain x where "thread_step x v u" by (auto simp: inner_def)
  then have "run_step parse dump cast dec (s\<lparr>response_wait := v\<rparr>) (s\<lparr>response_wait := u\<rparr>)"
    using run_other.in_response_wait [of x "s\<lparr>response_wait := v\<rparr>" u parse dump cast dec]
    by (simp add: run_step_def)
  with step show ?case by (meson rtranclp.rtrancl_into_rtrancl)
qed auto

lemma bound_goes_on:
  assumes "run_inv s" and "run_at s = Awaiting_bound" and "Server_bound \<in> set (srv_emitted (run_server s))"
  shows "\<exists>t. (run_step parse dump cast dec)\<^sup>*\<^sup>* s t \<and> run_at t = Awaiting_response"
proof -
  have "wait_ok False True (bound_wait s)" using assms by (simp add: run_inv_def)
  then obtain w r where w: "inner\<^sup>*\<^sup>* (bound_wait s) w" "pc_of w 0 = Back False r" using wait_ok_ends by blast
  let ?t = "s\<lparr>bound_wait := w\<rparr>"
  have "(run_step parse dump cast dec)\<^sup>*\<^sup>* s ?t" using w(1) by (rule bound_wait_steps) simp
  moreover obtain u where "run_main ?t u" "run_at u = Awaiting_response"
    using run_main.client_starts [of ?t r] assms(2) w(2) by fastforce
  ultimately show ?thesis by (meson rtranclp.rtrancl_into_rtrancl run_step_def)
qed

lemma answered_returns:
  assumes "run_inv s" and "run_at s = Awaiting_response" and "notified (run_client s)"
  shows "\<exists>t. (run_step parse dump cast dec)\<^sup>*\<^sup>* s t \<and> run_at t = Run_returns"
proof -
  have "wait_ok False True (response_wait s)" using assms by (simp add: run_inv_def)
  then obtain w r where w: "inner\<^sup>*\<^sup>* (response_wait s) w" "pc_of w 0 = Back False r" using wait_ok_ends by blast
  let ?t = "s\<lparr>response_wait := w\<rparr>"
  have "(run_step parse dump cast dec)\<^sup>*\<^sup>* s ?t" using w(1) by (rule response_wait_steps) simp
  moreover obtain u where "run_main ?t u" "run_at u = Run_returns"
    using run_main.returns [of ?t r] assms(2) w(2) by fastforce
  ultimately show ?thesis by (meson rtranclp.rtrancl_into_rtrancl run_step_def)
qed

section \<open>A bind that fails\<close>

text \<open>The directory of the socket file is missing: the server of the example, step by step.\<close>

definition missing_directory :: socket_env where
  "missing_directory = \<lparr>open_result = Success, options_accepted = True, bind_result = Other_error 2,
                        default_socket = \<lparr>receive_buffer_size = 0, send_buffer_size = 0\<rparr>\<rparr>"

definition run_disp :: "server_fun dispatch_entry list \<Rightarrow> server_fun dispatcher" where
  "run_disp q = \<lparr>queue = q, exiting = False, own_object_id = 1, object_ids = {1, 2},
                 running_function_object_id = None\<rparr>"

lemma run_disp_simps [simp]:
  "queue (run_disp q) = q" "exiting (run_disp q) = False" "object_ids (run_disp q) = {1, 2}"
  "run_disp q\<lparr>queue := q'\<rparr> = run_disp q'"
  by (simp_all add: run_disp_def)

lemma run_disp_take:
  assumes "entry_when e = when_immediately"
  shows "worker_take None (run_disp (e # q)) = (Worker_run e, run_disp q)"
  using assms by (simp add: worker_take_def calculate_duration_def)

definition unbound_server :: "server_fun dispatch_entry list \<Rightarrow> datagram_server" where
  "unbound_server q =
     (new_datagram_server 2 ''tmp/extra_peer_manager_example_server.sock'' (32 * 1024) {} 0 None)
       \<lparr>server_disp := Some (run_disp q)\<rparr>"

definition run_with :: "datagram_server \<Rightarrow> nat \<Rightarrow> run_state" where
  "run_with c k = (run_begin 1 2 {} 0)\<lparr>run_server := c, slots_run := k\<rparr>"

definition unbound_impl :: "io_handler list \<Rightarrow> server_impl" where
  "unbound_impl hs = (new_server_impl [] (kept_store (unbound_server [])) {} 0)\<lparr>io_ready := hs\<rparr>"

definition unbound_failed :: server_impl where
  "unbound_failed = projr (bind_handler missing_directory ''tmp/extra_peer_manager_example_server.sock'' (32 * 1024) None
     (unbound_impl []))"

abbreviation to_bind :: io_handler where
  "to_bind \<equiv> Io_bind ''tmp/extra_peer_manager_example_server.sock'' (32 * 1024) None"

abbreviation signal_entry :: "server_fun \<Rightarrow> server_fun dispatch_entry" where
  "signal_entry f \<equiv> \<lparr>object_id_value = 2, entry_function = f, entry_when = when_immediately\<rparr>"

lemma run_with_step:
  assumes "server_life f k c k' c'" and "f \<noteq> Some (Srv_signal Server_bound)"
    and "\<And>v ep. f \<noteq> Some (Srv_signal (Server_received v ep))"
  shows "run_step parse dump cast dec (run_with c k) (run_with c' k')"
proof -
  have "worker_free (run_with c k)"
    by (simp add: worker_free_def run_with_def run_begin_def goto_def make_thread_wait_def)
  moreover have "server_example_slot parse dump cast [] f (run_with c' k') = run_with c' k'"
    using assms(2,3)
    by (cases "(parse, dump, cast, [] :: bytes, f, run_with c' k')" rule: server_example_slot.cases) auto
  ultimately show ?thesis
    using run_other.server_lives [of "run_with c k" f k' c' parse dump cast dec "[]"] assms(1)
    by (simp add: run_step_def run_with_def)
qed

lemma run_with_acts:
  assumes "the_server_impl c = Some i" and "server_step dec i j"
  shows "run_step parse dump cast dec (run_with c k) (run_with (c\<lparr>the_server_impl := Some j\<rparr>) k)"
proof -
  have "server_acts dec (run_server (run_with c k)) (c\<lparr>the_server_impl := Some j\<rparr>)"
    using assms by (simp add: run_with_def server_acts.intros)
  moreover have "(run_with c k)\<lparr>run_server := c'\<rparr> = run_with c' k" for c' by (simp add: run_with_def)
  ultimately show ?thesis
    using run_other.server_acts [of dec "run_with c k" "c\<lparr>the_server_impl := Some j\<rparr>" parse dump cast]
    by (simp add: run_step_def)
qed

lemma unbound_begin: "run_begin 1 2 {} 0 = run_with (unbound_server [signal_entry Srv_bind]) 0"
  by (auto simp: run_with_def run_begin_def unbound_server_def server_async_start_def server_enqueue_def
      new_datagram_server_def client_attach_def initial_dispatcher_def attach_def enqueue_to_dispatcher_def
      enqueue_def run_disp_def when_immediately_def when_internal_detached_def)

lemma unbound_bind:
  "server_life (Some Srv_bind) 0 (unbound_server [signal_entry Srv_bind]) 0
     ((unbound_server [])\<lparr>the_server_impl := Some (unbound_impl [Io_close, to_bind])\<rparr>)"
  by (rule server_life.works [where src = None and e = "signal_entry Srv_bind"
        and d = "run_disp [signal_entry Srv_bind]" and d' = "run_disp []"])
    (simp_all add: unbound_server_def run_disp_take call_function_def server_bind_def async_bind_def async_close_def
      post_def unbound_impl_def new_datagram_server_def
      new_server_impl_def new_base_impl_def base_impl.defs)

lemma unbound_acts:
  "server_step dec (unbound_impl [Io_close, to_bind]) (unbound_impl [to_bind])"
  "server_step dec (unbound_impl [to_bind]) unbound_failed"
proof -
  show "server_step dec (unbound_impl [Io_close, to_bind]) (unbound_impl [to_bind])"
    by (rule server_step.base, rule base_step.handler [of _ Io_close "unbound_impl [to_bind]"])
      (simp_all add: next_handler_def close_handler_def unbound_impl_def new_server_impl_def
        new_base_impl_def base_impl.defs)
  show "server_step dec (unbound_impl [to_bind]) unbound_failed"
    by (rule server_step.runs [of _ to_bind "unbound_impl []" _ missing_directory])
      (simp_all add: next_handler_def unbound_failed_def bind_handler_def set_socket_options_def
        missing_directory_def replace_socket_def remove_file_def Let_def unbound_impl_def
        new_server_impl_def new_base_impl_def base_impl.defs)
qed

lemma unbound_failed_tells: "dispatched unbound_failed = [Bind_failed (Other_error 2)]"
  by (simp add: unbound_failed_def bind_handler_def set_socket_options_def missing_directory_def
      replace_socket_def remove_file_def dispatch_task_def Let_def unbound_impl_def
      new_server_impl_def new_base_impl_def base_impl.defs)

definition unbound_told :: datagram_server where
  "unbound_told = server_slot None unbound_failed (Bind_failed (Other_error 2))
     ((unbound_server [])\<lparr>the_server_impl := Some unbound_failed\<rparr>)"

lemma unbound_told_eq:
  "the_server_impl unbound_told = None"
  "server_disp unbound_told = Some (run_disp
     [signal_entry (Srv_signal (Server_bind_failed (Other_error 2))), signal_entry (Srv_timer Timer_stop)])"
  by (simp_all add: unbound_told_def bind_failed_slot_def start_rebind_timer_def server_close_def
      server_enqueue_def stop_rebind_timer_def timer_stop_def unbound_server_def new_datagram_server_def
      enqueue_to_dispatcher_def enqueue_def when_immediately_def when_internal_detached_def Let_def run_disp_def)

lemma unbound_slot:
  "server_life None 0 ((unbound_server [])\<lparr>the_server_impl := Some unbound_failed\<rparr>) 0 unbound_told"
  using server_life.slot [of "(unbound_server [])\<lparr>the_server_impl := Some unbound_failed\<rparr>" unbound_failed 0
      unbound_told None unbound_failed]
  by (simp add: unbound_told_eq(1) unbound_failed_tells) (simp add: unbound_told_def)

lemma unbound_signals:
  "\<exists>c. server_life (Some (Srv_signal (Server_bind_failed (Other_error 2)))) 0 unbound_told 0 c \<and>
     Server_bind_failed (Other_error 2) \<in> set (srv_emitted c)"
proof -
  let ?e = "signal_entry (Srv_signal (Server_bind_failed (Other_error 2)))"
  let ?q = "[signal_entry (Srv_timer Timer_stop)]"
  let ?c = "unbound_told\<lparr>server_disp := Some (run_disp ?q)\<rparr>"
  have "server_life (Some (Srv_signal (Server_bind_failed (Other_error 2)))) 0 unbound_told 0
      (?c\<lparr>srv_emitted := srv_emitted ?c @ [Server_bind_failed (Other_error 2)]\<rparr>)"
    by (rule server_life.works [where src = None and e = ?e and d = "run_disp (?e # ?q)" and d' = "run_disp ?q"])
      (simp_all add: unbound_told_eq run_disp_take call_function_def)
  moreover have "Server_bind_failed (Other_error 2) \<in> set (srv_emitted (?c\<lparr>srv_emitted :=
      srv_emitted ?c @ [Server_bind_failed (Other_error 2)]\<rparr>))" by simp
  ultimately show ?thesis by blast
qed

lemma failed_bind_reachable:
  "\<exists>s. run_reachable parse dump cast dec s \<and>
     Server_bind_failed (Other_error 2) \<in> set (srv_emitted (run_server s))"
proof -
  let ?reach = "run_reachable parse dump cast dec"
  have acts: "run_step parse dump cast dec (run_with ((unbound_server [])\<lparr>the_server_impl := Some i\<rparr>) 0)
      (run_with ((unbound_server [])\<lparr>the_server_impl := Some j\<rparr>) 0)" if "server_step dec i j" for i j
    using run_with_acts [of "(unbound_server [])\<lparr>the_server_impl := Some i\<rparr>" i dec j parse dump cast 0] that
    by simp
  have "?reach (run_with (unbound_server [signal_entry Srv_bind]) 0)"
    using run_reachable.begins [of parse dump cast dec 1 2 "{}" 0] by (simp add: unbound_begin)
  then have "?reach (run_with ((unbound_server [])\<lparr>the_server_impl := Some (unbound_impl [Io_close, to_bind])\<rparr>) 0)"
    by (rule run_reachable.step) (rule run_with_step [OF unbound_bind], simp_all)
  then have "?reach (run_with ((unbound_server [])\<lparr>the_server_impl := Some (unbound_impl [to_bind])\<rparr>) 0)"
    by (rule run_reachable.step) (rule acts [OF unbound_acts(1)])
  then have "?reach (run_with ((unbound_server [])\<lparr>the_server_impl := Some unbound_failed\<rparr>) 0)"
    by (rule run_reachable.step) (rule acts [OF unbound_acts(2)])
  then have told: "?reach (run_with unbound_told 0)"
    by (rule run_reachable.step) (rule run_with_step [OF unbound_slot], simp_all)
  obtain c where c: "server_life (Some (Srv_signal (Server_bind_failed (Other_error 2)))) 0 unbound_told 0 c"
    "Server_bind_failed (Other_error 2) \<in> set (srv_emitted c)"
    using unbound_signals by blast
  have "?reach (run_with c 0)"
    by (rule run_reachable.step [OF told]) (rule run_with_step [OF c(1)], simp_all)
  moreover have "run_server (run_with c 0) = c" by (simp add: run_with_def)
  ultimately show ?thesis using c(2) by metis
qed

text \<open>
  C27. \<open>run\<close> of the peer manager example, with its server, the worker, the io context's thread and the two
  waits in any order: it goes on to the client only after the server has signalled \<open>bound\<close> and can do so
  then; it returns only after the client got its answer (or an error) and can do so then; but after a
  failed bind it waits for ever, since nothing binds again.
\<close>

theorem run_waits_for_the_bind:
  assumes "run_reachable parse dump cast dec s"
  shows "(run_at s \<noteq> Awaiting_bound \<longrightarrow> Server_bound \<in> set (srv_emitted (run_server s))) \<and>
    (run_at s = Awaiting_bound \<and> Server_bound \<in> set (srv_emitted (run_server s)) \<longrightarrow>
       (\<exists>t. (run_step parse dump cast dec)\<^sup>*\<^sup>* s t \<and> run_at t = Awaiting_response)) \<and>
    (run_at s = Run_returns \<longrightarrow> notified (run_client s)) \<and>
    (run_at s = Awaiting_response \<and> notified (run_client s) \<longrightarrow>
       (\<exists>t. (run_step parse dump cast dec)\<^sup>*\<^sup>* s t \<and> run_at t = Run_returns)) \<and>
    (Server_bind_failed ec \<in> set (srv_emitted (run_server s)) \<longrightarrow>
       (\<forall>t. (run_step parse dump cast dec)\<^sup>*\<^sup>* s t \<longrightarrow> run_at t = Awaiting_bound))"
proof -
  have inv: "run_inv s" using assms by (rule run_reachable_inv)
  have "run_at t = Awaiting_bound"
    if "Server_bind_failed ec \<in> set (srv_emitted (run_server s))" "(run_step parse dump cast dec)\<^sup>*\<^sup>* s t" for t
    using run_steps_keep [OF that(2) inv] that(1) failed_bind_waits [of t ec] by blast
  moreover have "Server_bound \<in> set (srv_emitted (run_server s))" if "run_at s \<noteq> Awaiting_bound"
    using inv that by (auto simp: run_inv_def wait_ok_def notifies_def)
  moreover have "notified (run_client s)" if "run_at s = Run_returns"
    using inv that by (auto simp: run_inv_def wait_ok_def notifies_def)
  ultimately show ?thesis using bound_goes_on [OF inv] answered_returns [OF inv] by blast
qed

text \<open>A run of a process that finds no directory for its sockets.\<close>

theorem run_waits_for_the_bind_witness:
  "\<exists>s. run_reachable (\<lambda>_. None :: unit json option) (\<lambda>_. []) (\<lambda>_. 0) of_little_endian s \<and>
     Server_bind_failed (Other_error 2) \<in> set (srv_emitted (run_server s)) \<and>
     (\<forall>t. (run_step (\<lambda>_. None :: unit json option) (\<lambda>_. []) (\<lambda>_. 0) of_little_endian)\<^sup>*\<^sup>* s t \<longrightarrow>
        run_at t = Awaiting_bound)"
proof -
  obtain s where s: "run_reachable (\<lambda>_. None :: unit json option) (\<lambda>_. []) (\<lambda>_. 0) of_little_endian s"
    "Server_bind_failed (Other_error 2) \<in> set (srv_emitted (run_server s))"
    using failed_bind_reachable by blast
  with run_waits_for_the_bind [OF s(1), of "Other_error 2"] show ?thesis by blast
qed

end
