(* ===== verification/Spec2Isabelle.thy ===== *)
theory Spec2Isabelle
  imports Dispatcher_Properties Impl_Properties Wire_Properties Overlapping_Connects Client_Reconnect
    Datagram_Server Peer_Manager Shared_Dispatcher Heartbeat_Clock Example_Properties Example_Run
begin

text \<open>
  A verification of \<open>pqrs::local_datagram\<close>, a C++ library for datagrams over local (Unix domain)
  sockets with reconnection, heartbeats and peers.

  \<^bold>\<open>The program.\<close>  A user creates a \<open>client\<close> (\<open>client.hpp\<close>) or a \<open>server\<close> (\<open>server.hpp\<close>).  All their
  callbacks run in the one worker thread of a \<open>pqrs::dispatcher\<close> (vendored with the library).  Each
  owns an implementation object, \<open>client_impl\<close> or \<open>server_impl\<close> (\<open>impl/\<close>), whose base class
  \<open>base_impl\<close> has an asio io context with a thread of its own: it opens the socket, sends the queue of
  \<open>send_entry\<close> objects one after the other, receives, and tells the owner what happened by enqueuing
  functions to the dispatcher.  A client sends heartbeats with a deadline; the receiver of heartbeats
  keeps a timer per sender.  A \<open>peer_manager\<close> (\<open>extra/\<close>) answers the peers of a server through
  clients of its own.

  \<^bold>\<open>The theories\<close>, in the order in which they build on each other.

  \<^item> \<open>Prelude\<close>: machine words, sizes of vectors, time points (\<open>impl/asio_helper.hpp\<close>), error codes,
    and sorted insertion.  \<open>Interfaces\<close>: the contracts between the components as locales; each is
    interpreted on the model in the theory of the component that provides it: \<open>fifo_queue\<close> by the
    dispatcher (\<open>dispatch\<close>) and the io context (\<open>io\<close>), \<open>transfer\<close> by a send entry (\<open>entry\<close>),
    \<open>byte_order\<close> by both byte orders (\<open>little\<close>, \<open>big\<close>), \<open>key_value\<close> by the shared secrets
    (\<open>secrets\<close>).  The contract \<open>thread_handlers\<close> of the handlers of one class stands in
    \<open>Base_Shutdown\<close>.
  \<^item> \<open>Dispatcher\<close>, \<open>Dispatcher_Threads\<close>, \<open>Object_Id\<close>, \<open>Dispatcher_Client\<close>, \<open>Debounced_Task\<close>,
    \<open>Dispatcher_Timer\<close>: the dispatcher and its extras (\<open>vendor/vendor/include/pqrs/dispatcher\<close>).  The
    operations are functions of the dispatcher's state; \<open>Dispatcher_Threads\<close> refines the worker to
    its steps between two acquisitions of a mutex and lets other threads act between them.
    \<open>Dispatcher_Properties\<close>: the queue is sorted, functions run in order and not too early, a
    returned detach is final and a waiting one ends, ids are fresh, a debounced task has one armed
    call, a timer one chain of rounds.  \<open>Dispatcher_Cleanup\<close>: what the worker does on its own, up to the
    call of the cleanup of a \<open>detach\<close>, and what it leaves behind when the dispatcher exits.
    \<open>Shared_Dispatcher\<close>: the dispatcher of a whole process and the clock of a test.
  \<^item> \<open>Thread_Wait\<close> (\<open>vendor/vendor/include/pqrs/thread_wait.hpp\<close>): waits and notifications of any
    number of threads, split at the mutex and the condition variable: no wake-up is lost, and a wait
    ends once the flag is set.
  \<^item> \<open>Endpoint\<close> (\<open>helper.hpp\<close>), \<open>Send_Entry\<close> (\<open>impl/send_entry.hpp\<close>), \<open>Io_Context\<close> (what the code
    uses of asio, and the state of \<open>base_impl\<close>), \<open>Base_Impl\<close> (\<open>impl/base_impl.hpp\<close>).  A C++ lambda
    given to asio is a constructor of \<open>io_handler\<close>, one given to the dispatcher a constructor of
    \<open>impl_task\<close>; both carry what the lambda captures.  \<open>Base_Sender\<close> has the steps of the base class
    (handlers, completions, timers, other threads in any order) and the invariant of the sender,
    \<open>Base_Delivery\<close> what the steps do to the queue, \<open>Base_Shutdown\<close> when the destructor's thread
    ends (the locale \<open>thread_handlers\<close>), \<open>Base_Wire\<close> which datagrams the socket takes, \<open>Heartbeat\<close>
    the bytes of the datagrams at both ends.
  \<^item> \<open>Client_Impl\<close>, \<open>Client_Sender\<close> (\<open>impl/client_impl.hpp\<close>) and \<open>Server_Impl\<close>
    (\<open>impl/server_impl.hpp\<close>): connecting, binding, the periodic checks, and the sender's invariant over
    all connections; \<open>Impl_Shutdown\<close>: the destructors of both end (the interpretations \<open>client_end\<close> and
    \<open>server_end\<close>).  \<open>Client_Receiver\<close> has the typing of the receiver (one receive or handler of a
    receive at a time, counts inside the buffer) over all connections of a client, and
    \<open>Client_Delivery\<close> that each datagram is reported once.  \<open>Repeated_Connects\<close> extends both and the sender's
    invariant to a client whose reconnect timer asks for connects while earlier ones are pending.
    \<open>Heartbeat_Timers\<close>: the dispatcher's side of the
    heartbeats (\<open>impl/base_impl.hpp\<close>, \<open>impl/next_heartbeat_deadline_timer.hpp\<close>), and
    \<open>Heartbeat_Clock\<close>: the timer of one endpoint with the worker of the dispatcher, as time passes.
    \<open>Sender_Properties\<close>,
    \<open>Receiver_Properties\<close>, \<open>Impl_Properties\<close>, \<open>Overlapping_Connects\<close> (a second \<open>connect\<close> before the
    first has completed) and \<open>Wire_Properties\<close> (a sender and a receiver together): the properties of the
    implementations.
  \<^item> \<open>Datagram_Client\<close> (\<open>client.hpp\<close>), \<open>Client_Reconnect\<close> (a client with the worker of its dispatcher, as
    time passes after a close), \<open>Datagram_Server\<close> (\<open>server.hpp\<close>), \<open>Peer_Manager\<close>
    (\<open>extra/peer_manager.hpp\<close>), and this theory with the properties of these classes.
  \<^item> \<open>Example_Peers\<close> (\<open>example/extra_peer_manager_example.hpp\<close>) and \<open>Example_Main\<close>
    (\<open>example/main.cpp\<close>): the programs that come with the library, over the models of its classes;
    \<open>Example_Properties\<close>: what their peers can rely on.  \<open>Bind_Outcome\<close>: a server without a reconnect interval
    signals the end of its bind once, and \<open>Example_Run\<close>: the caller of \<open>run\<close> of the peer manager example and its
    two waits, over the server, the worker and \<open>Thread_Wait\<close>.  \<open>Main_Sequence\<close> and \<open>Main_Finishes\<close>: the main thread
    of \<open>main.cpp\<close>, its wait for the signal and the destruction of its objects, against the worker and the
    other threads.

  Each property is followed by an application to a concrete state, the \<open>sample\<close> states, which shows
  that its hypotheses can hold.

  \<^bold>\<open>What the environment is.\<close>  Results of system calls and completions of asynchronous operations are
  arguments of the definitions and nondeterministic steps of the relations; the byte order of
  \<open>memcpy\<close> and the verification of peers are arguments as well.  Times are integers, so that the
  clock does not overflow; the function id of a timer, a C++ \<open>int\<close>, is an integer too.  \<open>size_t\<close>,
  \<open>uint8_t\<close>, \<open>uint32_t\<close> and \<open>uint64_t\<close> are words and wrap around.  An exception that leaves the
  io context's thread is \<open>Inl Uncaught_exception\<close>, a dereference of an empty optional is \<open>Inl\<close> of a
  failure.

  \<^bold>\<open>Fuel.\<close>  \<open>run_io n\<close> and \<open>run_thread n\<close> run at most \<open>n\<close> handlers; \<open>destructor_terminates\<close> shows that some \<open>n\<close> is
  enough.  \<open>client_worker n\<close> calls at most \<open>n\<close> functions at one reading of the clock; \<open>client_reconnects\<close>
  holds for every \<open>n\<close> from 4 on; \<open>hb_worker n\<close> the same, with \<open>n\<close> two more than the readings.  \<open>drain n\<close> takes at most \<open>n\<close> functions; \<open>immediate_functions_in_order\<close> holds for every
  \<open>n\<close> that is at least their number.  The loop of \<open>make_new_object_id\<close> is a partial function and shown
  to return.

  \<^bold>\<open>Not modelled.\<close>  asio, nod (signals call their slots; here the slots are functions), gsl, the
  file system beyond a set of paths, the C++ memory model below the mutexes, the order in which waiting
  threads get a mutex, and the tests.  The call of the peer manager example is one step of \<open>Main_Sequence\<close>;
  in \<open>Example_Run\<close> the signals of its client and of the manager's clients come in any order, and the
  destruction of its objects is not modelled.  JSON texts are parameters:
  parsing and printing are arguments of \<open>Example_Peers\<close>, with the hypothesis, where it is needed, that a
  printed payload is parsed back.
\<close>

section \<open>A client and a server\<close>

text \<open>The states the applications use: a client over the connected implementation.\<close>

definition sample_client :: datagram_client where
  "sample_client =
     (new_datagram_client 2 ''s'' (Some ''c'') 1024 sample_connected (Some (initial_dispatcher 1)))
       \<lparr>reconnect_interval := Some 1000\<rparr>"

definition sample_server_object :: datagram_server where
  "sample_server_object =
     (new_datagram_server 2 ''s'' 1024 {} 0 (Some (initial_dispatcher 1)))
       \<lparr>rebind_interval := Some 1000, the_server_impl := Some sample_bound,
        rebind_timer := \<lparr>current_function_id = 1, timer_function = Some (), timer_interval = 1000,
                         timer_enabled = True\<rparr>\<rparr>"

lemma sample_client_simps [simp]:
  "client_oid sample_client = 2" "reconnect_interval sample_client = Some 1000"
  "the_client_impl sample_client = Some sample_connected" "client_accepts sample_client"
  "queued (client_disp sample_client) = []"
  by (simp_all add: sample_client_def new_datagram_client_def client_accepts_def client_attach_def
      initial_dispatcher_def attach_def queued_def)

lemma sample_client_dispatcher: "client_disp sample_client = Some (snd (attach 2 (initial_dispatcher 1)))"
  by (simp add: sample_client_def new_datagram_client_def client_attach_def split: prod.splits)

section \<open>Sends of a client\<close>



text \<open>
  A send without an implementation object, of a stopped client or an unbound server, enqueues
  the callback of the entry once, and nothing when it has none.
\<close>

lemma sends_without_socket_call_processed:
  assumes "the_client_impl c = None" and "client_accepts c" and "the_server_impl v = None"
  shows "run_client_fun src resolved (Run_send r e) c = Inr
      (case processed e of Some cb \<Rightarrow> client_enqueue (Run_processed cb) when_immediately c | None \<Rightarrow> c) \<and>
    set (queued (client_disp (client_send r e c))) = set (queued (client_disp c)) \<union>
      (case processed e of
         Some cb \<Rightarrow> {\<lparr>object_id_value = client_oid c, entry_function = Run_processed cb,
                      entry_when = when_immediately\<rparr>}
       | None \<Rightarrow> {}) \<and>
    run_server_fun src' final (Srv_send r e) v = Inr
      (case processed e of Some cb \<Rightarrow> server_enqueue (Srv_processed cb) when_immediately v | None \<Rightarrow> v)"
  using assms(1,3) client_enqueue_accepted(2) [OF assms(2)]
  by (simp add: client_send_def server_send_unbound split: option.splits)

section \<open>Stopping and reconnecting\<close>

text \<open>
  C31. A client that was stopped stays stopped: no function that runs later, no signal of the
  implementation and no round of the reconnect timer gives it an implementation object again.
\<close>

theorem client_stop_is_final:
  assumes "run_client_funs src resolved (Run_stop # fs) c = Inr c'"
  shows "the_client_impl c' = None \<and> the_client_impl (client_slot src' task c') = None"
proof -
  have "the_client_impl (client_stop c) = None" by (simp add: client_stop_def client_close_def)
  with assms run_client_funs_no_impl [of "client_stop c" src resolved fs c'] client_slot_no_impl
  show ?thesis by simp
qed

theorem client_stop_is_final_witness:
  "\<exists>c'. run_client_funs None [] [Run_stop, Run_connect, Run_timer (Timer_user ())] sample_client = Inr c'
     \<and> the_client_impl c' = None"
proof -
  obtain c' where "run_client_funs None [] [Run_stop, Run_connect, Run_timer (Timer_user ())]
      sample_client = Inr c'"
    by (simp add: Let_def)
  with client_stop_is_final [OF this, of None Closed] show ?thesis by blast
qed



text \<open>
  C39. When \<open>stop\<close> runs between a close and the delayed start of the reconnect timer, the function that
  is still queued dereferences the empty reconnect interval.
\<close>

theorem stop_before_delayed_start:
  assumes "client_accepts c" and "reconnect_interval c = Some iv" and "c1 = client_slot src Closed c"
  shows "\<exists>e \<in> set (queued (client_disp (client_stop c1))). entry_function e = Run_start_timer \<and>
    run_client_funs src' resolved [Run_stop, Run_start_timer] c1 = Inl Empty_optional_dereferenced"
  using closed_slot_requests [OF assms(1,2), of src] assms(3)
  by (intro bexI) (auto simp: client_stop_def client_close_def)

theorem stop_before_delayed_start_witness:
  "run_client_funs None [] [Run_stop, Run_start_timer] (client_slot (Some 7) Closed sample_client)
     = Inl Empty_optional_dereferenced"
  using stop_before_delayed_start [of sample_client 1000 _ "Some 7" None "[]", OF _ _ refl] by simp

text \<open>
  C38. A server whose reconnect timer runs binds again after \<open>stop\<close>: the next round of the timer finds
  no interval, stops the timer, and still creates a new implementation object.
\<close>

theorem stopped_server_binds_again:
  assumes "timer_function (rebind_timer c) = Some ()" and "server_disp c = Some d"
    and "server_oid c \<in> object_ids d" and "\<not> exiting d"
  shows "\<exists>c1 c2 c3. run_server_fun src final Srv_stop c = Inr c1 \<and>
    the_server_impl c1 = None \<and> rebind_interval c1 = None \<and>
    run_server_fun src final (Srv_timer (Timer_call (current_function_id (rebind_timer c)))) c1 = Inr c2 \<and>
    (\<exists>e \<in> set (queued (server_disp c2)). entry_function e = Srv_timer (Timer_user ())) \<and>
    run_server_fun src final (Srv_timer (Timer_user ())) c2 = Inr c3 \<and> the_server_impl c3 \<noteq> None"
proof -
  let ?c1 = "server_stop final c"
  let ?f = "Srv_timer (Timer_call (current_function_id (rebind_timer c)))"
  obtain c2 where c2: "run_server_fun src final ?f ?c1 = Inr c2" "the_server_impl c2 = None"
    using server_round [of src final "current_function_id (rebind_timer c)" ?c1] by auto
  have "\<exists>e \<in> set (queued (server_disp c2)). entry_function e = Srv_timer (Timer_user ())"
    using assms c2(1) by (intro server_round_requests [of ?c1 d src final c2]) simp_all
  with c2 server_user_round_binds [OF c2(2), of src final] show ?thesis by auto
qed

theorem stopped_server_binds_again_witness:
  "\<exists>c1 c2 c3. run_server_fun (Some 1000) sample_bound Srv_stop sample_server_object = Inr c1 \<and>
    the_server_impl c1 = None \<and>
    run_server_fun (Some 1000) sample_bound (Srv_timer (Timer_call 1)) c1 = Inr c2 \<and>
    run_server_fun (Some 1000) sample_bound (Srv_timer (Timer_user ())) c2 = Inr c3 \<and>
    the_server_impl c3 \<noteq> None"
proof -
  obtain d where "server_disp sample_server_object = Some d"
    "server_oid sample_server_object \<in> object_ids d" "\<not> exiting d"
    by (simp add: sample_server_object_def new_datagram_server_def client_attach_def
        initial_dispatcher_def attach_def)
  moreover have "timer_function (rebind_timer sample_server_object) = Some ()"
    "current_function_id (rebind_timer sample_server_object) = 1"
    by (simp_all add: sample_server_object_def)
  ultimately show ?thesis
    using stopped_server_binds_again [of sample_server_object d "Some 1000" sample_bound] by metis
qed

section \<open>Peers\<close>

text \<open>
  C5. Only verified peers are sent to: in every reachable state of a peer manager, a message was handed
  to the client of a peer only if the verification accepts some process of that peer, and an entry that
  is connected keeps at most one message back.
\<close>

theorem only_verified_peers_are_sent_to:
  assumes "manager_reachable verify m" and "map_of (pm_entries m) p = Some e"
  shows "(Call_send v \<in> set (entry_calls e) \<longrightarrow> (\<exists>pid. verify pid p)) \<and>
    (entry_connected e \<longrightarrow> length (entry_queue e) \<le> 1)"
proof -
  have "sent cs \<noteq> []" if "Call_send v \<in> set cs" for cs
    using that by (induction cs rule: sent.induct) auto
  with manager_reachable_inv [OF assms(1)] assms(2) show ?thesis
    unfolding manager_inv_def by blast
qed

theorem only_verified_peers_are_sent_to_witness:
  "\<exists>e. map_of (pm_entries (manager_send 0 ''p'' [1] new_peer_manager)) ''p'' = Some e \<and>
     Call_send [1] \<notin> set (entry_calls e)"
proof -
  let ?m = "manager_send 0 ''p'' [1] new_peer_manager"
  have r: "manager_reachable (\<lambda>_ _. False) ?m"
    by (rule manager_reachable.step [OF manager_reachable.new manager_step.sends])
  obtain e where e: "map_of (pm_entries ?m) ''p'' = Some e"
    by (simp add: manager_send_def put_entry_def new_peer_manager_def)
  from only_verified_peers_are_sent_to [OF r e, of "[1]"] e show ?thesis by auto
qed

text \<open>
  C34. When the peer is verified whenever it connects, its messages are handed to its client in order
  and none is lost: what was handed over, followed by what is held back, is all that was sent; once the
  peer is connected nothing is held back.
\<close>

theorem peer_messages_in_order:
  assumes "Connecting False \<notin> set evs"
  shows "sent (entry_calls (fold run_entry evs (new_entry i)))
      @ entry_queue (fold run_entry evs (new_entry i)) = messages evs \<and>
    sent (entry_calls (fold run_entry (evs @ [Connecting True]) (new_entry i))) = messages evs"
proof -
  have "sent (entry_calls (fold run_entry es (new_entry i)))
      @ entry_queue (fold run_entry es (new_entry i)) = messages es"
    if "Connecting False \<notin> set es" for es
    using entry_events_fifo [of "new_entry i" es] that by (simp add: new_entry_def)
  from this [OF assms] show ?thesis
    by (simp add: set_connected_def set_verified_def)
qed

theorem peer_messages_in_order_witness:
  "sent (entry_calls (fold run_entry [Sending [1], Sending [2], Connecting True] (new_entry 0))) = [[1], [2]]"
  using peer_messages_in_order [of "[Sending [1], Sending [2]]" 0] by simp

text \<open>
  A shared secret is verified exactly when it is the one inserted last for the peer and the peer's
  client has not closed since; a close reports the peers that remain verified.
\<close>

lemma shared_secret_verification:
  "verify_shared_secret p k (pm_secrets (manager_insert_secret p k' m)) = (k = k') \<and>
   verify_shared_secret p k (pm_secrets (closed_of_peer q (manager_insert_secret p k' m)))
     = (p \<noteq> q \<and> k = k') \<and>
   pm_signals (closed_of_peer p m) =
     pm_signals m @ [Peer_closed p (length (filter (\<lambda>(q, e). q \<noteq> p \<and> entry_verified e) (pm_entries m)))]"
proof -
  have "filter (\<lambda>(q, e). entry_verified e) (AList.delete p es) =
      filter (\<lambda>(q, e). q \<noteq> p \<and> entry_verified e) es" for es :: "(path \<times> peer_entry) list"
    by (induction es) (auto simp: AList.delete_eq)
  moreover have "find_shared_secret p (pm_secrets (manager_insert_secret p k' m)) = Some k'"
    by (simp add: manager_insert_secret_def secrets.get_put)
  moreover have "find_shared_secret p (pm_secrets (closed_of_peer q (manager_insert_secret p k' m)))
      = (if p = q then None else Some k')"
    by (simp add: closed_of_peer_def Let_def report_def erase_peer_def manager_insert_secret_def
        secrets.get_remove secrets.get_put)
  ultimately show ?thesis
    by (auto simp: verify_shared_secret_iff closed_of_peer_def Let_def report_def erase_peer_def
        verified_count_def)
qed

end
